(* ===== verification/Blip_Prelude.thy ===== *)
theory Blip_Prelude
  imports Main "HOL-Library.Word" "HOL-Library.AList" "HOL-Library.Multiset"
begin

text \<open>
  Shared vocabulary of the development: the integer widths and byte strings of
  the Rust sources, results that can be a value, an error or a panic, the
  big-endian readers and writers of the wire format, the UTF-8 check of
  \<open>String::from_utf8\<close>, and hash maps as association lists with distinct keys
  (the order of the list stands for the iteration order, which Rust leaves open).
\<close>

unbundle bit_operations_syntax

named_theorems rust_result \<open>rewrite rules for results that may be errors or panics\<close>
named_theorems wire \<open>rewrite rules for readers applied to what the writers produce\<close>
named_theorems hmap \<open>facts on association lists used as hash maps\<close>

section \<open>Types\<close>

type_synonym u8 = "8 word"
type_synonym u16 = "16 word"
type_synonym u32 = "32 word"
type_synonym u64 = "64 word"
type_synonym bytes = "u8 list"

text \<open>A Rust \<open>String\<close> or \<open>&str\<close> is the list of its UTF-8 bytes.\<close>
type_synonym rstring = "bytes"

text \<open>Points in time and durations are counted in nanoseconds.\<close>
type_synonym instant = nat
type_synonym duration = nat

type_synonym ('k, 'v) hash_map = "('k \<times> 'v) list"

text \<open>A string literal of the source, as bytes.\<close>
definition str :: "string \<Rightarrow> rstring" where
  "str s = map of_char s"

section \<open>Results with panics\<close>

text \<open>
  \<open>Ok\<close> and \<open>Err\<close> are Rust's \<open>Result\<close>; \<open>Panic\<close> is a call that unwinds, such as
  \<open>get_u16\<close> on a buffer with one byte left. The \<open>?\<close> operator is \<open>and_then\<close>.
\<close>
datatype ('e, 'a) result = Ok 'a | Err 'e | Panic

fun and_then :: "('e, 'a) result \<Rightarrow> ('a \<Rightarrow> ('e, 'b) result) \<Rightarrow> ('e, 'b) result" where
  "and_then (Ok x) f = f x"
| "and_then (Err e) f = Err e"
| "and_then Panic f = Panic"

fun map_err :: "('e \<Rightarrow> 'f) \<Rightarrow> ('e, 'a) result \<Rightarrow> ('f, 'a) result" where
  "map_err f (Ok x) = Ok x"
| "map_err f (Err e) = Err (f e)"
| "map_err f Panic = Panic"

section \<open>Integers as bytes\<close>

text \<open>\<open>be_bytes n v\<close> is the number \<open>v\<close> as \<open>n\<close> bytes, most significant first.\<close>
fun be_bytes :: "nat \<Rightarrow> nat \<Rightarrow> bytes" where
  "be_bytes 0 v = []"
| "be_bytes (Suc n) v = be_bytes n (v div 256) @ [of_nat (v mod 256)]"

definition be_nat :: "bytes \<Rightarrow> nat" where
  "be_nat bs = foldl (\<lambda>a b. a * 256 + unat b) 0 bs"

definition put_u8 :: "u8 \<Rightarrow> bytes" where
  "put_u8 w = [w]"

definition put_u16 :: "u16 \<Rightarrow> bytes" where
  "put_u16 w = be_bytes 2 (unat w)"

definition put_u32 :: "u32 \<Rightarrow> bytes" where
  "put_u32 w = be_bytes 4 (unat w)"

definition put_u64 :: "u64 \<Rightarrow> bytes" where
  "put_u64 w = be_bytes 8 (unat w)"

text \<open>
  The readers of \<open>bytes::Buf\<close> return the value and the bytes that remain, and
  panic when fewer bytes remain than they need.
\<close>
definition take_bytes :: "nat \<Rightarrow> bytes \<Rightarrow> ('e, bytes \<times> bytes) result" where
  "take_bytes n bs = (if n \<le> length bs then Ok (take n bs, drop n bs) else Panic)"

definition get_u8 :: "bytes \<Rightarrow> ('e, u8 \<times> bytes) result" where
  "get_u8 bs = and_then (take_bytes 1 bs) (\<lambda>(x, r). Ok (of_nat (be_nat x), r))"

definition get_u16 :: "bytes \<Rightarrow> ('e, u16 \<times> bytes) result" where
  "get_u16 bs = and_then (take_bytes 2 bs) (\<lambda>(x, r). Ok (of_nat (be_nat x), r))"

definition get_u32 :: "bytes \<Rightarrow> ('e, u32 \<times> bytes) result" where
  "get_u32 bs = and_then (take_bytes 4 bs) (\<lambda>(x, r). Ok (of_nat (be_nat x), r))"

definition get_u64 :: "bytes \<Rightarrow> ('e, u64 \<times> bytes) result" where
  "get_u64 bs = and_then (take_bytes 8 bs) (\<lambda>(x, r). Ok (of_nat (be_nat x), r))"

text \<open>\<open>u16::try_from\<close> and \<open>u32::try_from\<close> on a \<open>usize\<close>, with the caller's error.\<close>
definition u16_try_from :: "'e \<Rightarrow> nat \<Rightarrow> ('e, u16) result" where
  "u16_try_from e n = (if n < 2 ^ 16 then Ok (of_nat n) else Err e)"

definition u32_try_from :: "'e \<Rightarrow> nat \<Rightarrow> ('e, u32) result" where
  "u32_try_from e n = (if n < 2 ^ 32 then Ok (of_nat n) else Err e)"

text \<open>The range of a 64-bit integer, and saturation at its end.\<close>
definition fits_u64 :: "nat \<Rightarrow> bool" where
  "fits_u64 n \<longleftrightarrow> n < 2 ^ 64"

definition saturate_u64 :: "nat \<Rightarrow> nat" where
  "saturate_u64 n = min (2 ^ 64 - 1) n"

declare fits_u64_def [simp] saturate_u64_def [simp]

text \<open>Comparisons with these bounds evaluate over the integers.\<close>
lemma range_code [code]:
  "u16_try_from e n = (if int n < 65536 then Ok (of_nat n) else Err e)"
  "u32_try_from e n = (if int n < 4294967296 then Ok (of_nat n) else Err e)"
  "fits_u64 n \<longleftrightarrow> int n < 18446744073709551616"
  "saturate_u64 n = (if int n < 18446744073709551616 then n else 18446744073709551615)"
  by (simp_all add: u16_try_from_def u32_try_from_def min_def)

section \<open>UTF-8\<close>

text \<open>
  Validity of UTF-8 as the Rust standard library checks it: shortest forms only,
  no surrogates, nothing above U+10FFFF.
\<close>
definition utf8_cont :: "u8 \<Rightarrow> bool" where
  "utf8_cont b \<longleftrightarrow> 128 \<le> b \<and> b \<le> 191"

definition utf8_second3 :: "u8 \<Rightarrow> u8 \<Rightarrow> bool" where
  "utf8_second3 b c \<longleftrightarrow>
     (if b = 224 then 160 \<le> c \<and> c \<le> 191
      else if b = 237 then 128 \<le> c \<and> c \<le> 159
      else utf8_cont c)"

definition utf8_second4 :: "u8 \<Rightarrow> u8 \<Rightarrow> bool" where
  "utf8_second4 b c \<longleftrightarrow>
     (if b = 240 then 144 \<le> c \<and> c \<le> 191
      else if b = 244 then 128 \<le> c \<and> c \<le> 143
      else utf8_cont c)"

text \<open>
  The bytes that follow a first byte: how many, and which are allowed. A first
  byte that starts no character has length 0.
\<close>
definition utf8_len :: "u8 \<Rightarrow> nat" where
  "utf8_len b =
     (if b < 128 then 1
      else if 194 \<le> b \<and> b \<le> 223 then 2
      else if 224 \<le> b \<and> b \<le> 239 then 3
      else if 240 \<le> b \<and> b \<le> 244 then 4
      else 0)"

definition utf8_tail_ok :: "u8 \<Rightarrow> bytes \<Rightarrow> bool" where
  "utf8_tail_ok b t =
     (case t of [] \<Rightarrow> True
      | [c] \<Rightarrow> utf8_cont c
      | [c, d] \<Rightarrow> utf8_second3 b c \<and> utf8_cont d
      | [c, d, e] \<Rightarrow> utf8_second4 b c \<and> utf8_cont d \<and> utf8_cont e
      | _ \<Rightarrow> False)"

text \<open>One character off the front: what remains, or \<open>None\<close> at an ill-formed sequence.\<close>
definition utf8_step :: "bytes \<Rightarrow> bytes option" where
  "utf8_step bs =
     (case bs of [] \<Rightarrow> None
      | b # s \<Rightarrow>
        (let n = utf8_len b
         in if n = 0 \<or> length s < n - 1 \<or> \<not> utf8_tail_ok b (take (n - 1) s) then None
            else Some (drop (n - 1) s)))"

lemma utf8_step_shorter: "utf8_step bs = Some r \<Longrightarrow> length r < length bs"
  by (cases bs) (auto simp: utf8_step_def Let_def split: if_splits)

function utf8_valid :: "bytes \<Rightarrow> bool" where
  "utf8_valid bs =
     (bs = [] \<or> (case utf8_step bs of None \<Rightarrow> False | Some r \<Rightarrow> utf8_valid r))"
  by pat_completeness auto
termination
  by (relation "measure length") (auto dest: utf8_step_shorter)

declare utf8_valid.simps [simp del]

definition string_from_utf8 :: "'e \<Rightarrow> bytes \<Rightarrow> ('e, rstring) result" where
  "string_from_utf8 e bs = (if utf8_valid bs then Ok bs else Err e)"

section \<open>Hash maps\<close>

abbreviation hm_get :: "('k, 'v) hash_map \<Rightarrow> 'k \<Rightarrow> 'v option" where
  "hm_get m k \<equiv> map_of m k"

abbreviation hm_insert :: "'k \<Rightarrow> 'v \<Rightarrow> ('k, 'v) hash_map \<Rightarrow> ('k, 'v) hash_map" where
  "hm_insert k v m \<equiv> AList.update k v m"

abbreviation hm_remove :: "'k \<Rightarrow> ('k, 'v) hash_map \<Rightarrow> ('k, 'v) hash_map" where
  "hm_remove k m \<equiv> AList.delete k m"

abbreviation hm_keys :: "('k, 'v) hash_map \<Rightarrow> 'k set" where
  "hm_keys m \<equiv> fst ` set m"

abbreviation hm_ok :: "('k, 'v) hash_map \<Rightarrow> bool" where
  "hm_ok m \<equiv> distinct (map fst m)"

text \<open>\<open>entry(k).or_insert(0)\<close> followed by \<open>if v > *entry { *entry = v }\<close>.\<close>
definition raise_cursor :: "'k \<Rightarrow> u64 \<Rightarrow> ('k, u64) hash_map \<Rightarrow> ('k, u64) hash_map" where
  "raise_cursor k v m =
     (let cur = (case hm_get m k of Some c \<Rightarrow> c | None \<Rightarrow> 0)
      in hm_insert k (if v > cur then v else cur) m)"

section \<open>Lemmas on results\<close>

lemma and_then_eq_Ok [rust_result]:
  "and_then m f = Ok y \<longleftrightarrow> (\<exists>x. m = Ok x \<and> f x = Ok y)"
  by (cases m) auto

lemma and_then_eq_Err [rust_result]:
  "and_then m f = Err e \<longleftrightarrow> m = Err e \<or> (\<exists>x. m = Ok x \<and> f x = Err e)"
  by (cases m) auto

lemma and_then_eq_Panic [rust_result]:
  "and_then m f = Panic \<longleftrightarrow> m = Panic \<or> (\<exists>x. m = Ok x \<and> f x = Panic)"
  by (cases m) auto

lemma and_then_assoc: "and_then (and_then m f) g = and_then m (\<lambda>x. and_then (f x) g)"
  by (cases m) auto

lemma map_err_eq_Ok [simp]: "map_err f m = Ok x \<longleftrightarrow> m = Ok x"
  by (cases m) auto

lemma map_err_eq_Panic [simp]: "map_err f m = Panic \<longleftrightarrow> m = Panic"
  by (cases m) auto

section \<open>Lemmas on integers as bytes\<close>

lemma length_be_bytes [simp]: "length (be_bytes n v) = n"
  by (induction n arbitrary: v) auto

lemma be_nat_append1: "be_nat (bs @ [b]) = be_nat bs * 256 + unat b"
  by (simp add: be_nat_def)

lemma unat_byte: "unat (of_nat (v mod 256) :: u8) = v mod 256"
  by (simp add: unat_of_nat)

lemma be_nat_be_bytes: "v < 256 ^ n \<Longrightarrow> be_nat (be_bytes n v) = v"
proof (induction n arbitrary: v)
  case 0
  then show ?case by (simp add: be_nat_def)
next
  case (Suc n)
  then have "v div 256 < 256 ^ n"
    by (simp add: less_mult_imp_div_less mult.commute)
  then have "be_nat (be_bytes n (v div 256)) = v div 256"
    by (rule Suc.IH)
  then show ?case
    by (simp add: be_nat_append1 unat_byte)
qed

lemma be_nat_bound: "be_nat bs < 256 ^ length bs"
proof (induction bs rule: rev_induct)
  case Nil
  then show ?case by (simp add: be_nat_def)
next
  case (snoc b bs)
  have "unat b < 256"
    using unsigned_less [of b] by simp
  with snoc show ?case
    by (simp add: be_nat_append1)
qed

lemma be_bytes_be_nat: "be_bytes (length bs) (be_nat bs) = bs"
proof (induction bs rule: rev_induct)
  case Nil
  then show ?case by simp
next
  case (snoc b bs)
  have lt: "unat b < 256"
    using unsigned_less [of b] by simp
  then have "(be_nat bs * 256 + unat b) div 256 = be_nat bs"
    and "(be_nat bs * 256 + unat b) mod 256 = unat b"
    by simp_all
  with snoc show ?case
    by (simp add: be_nat_append1)
qed

lemma be_nat_single: "be_nat [b] = unat b"
  by (simp add: be_nat_def)

lemma length_puts [simp]:
  "length (put_u8 a) = 1" "length (put_u16 b) = 2" "length (put_u32 c) = 4" "length (put_u64 d) = 8"
  by (simp_all add: put_u8_def put_u16_def put_u32_def put_u64_def)

lemma take_bytes_append [wire]:
  "n = length xs \<Longrightarrow> take_bytes n (xs @ ys) = Ok (xs, ys)"
  by (simp add: take_bytes_def)

lemma take_bytes_all [wire]: "n = length xs \<Longrightarrow> take_bytes n xs = Ok (xs, [])"
  by (simp add: take_bytes_def)

lemma take_bytes_eq_Ok [rust_result]:
  "take_bytes n bs = Ok (x, r) \<longleftrightarrow> length x = n \<and> bs = x @ r"
  by (auto simp: take_bytes_def)

lemma take_bytes_eq_Panic [rust_result]: "take_bytes n bs = Panic \<longleftrightarrow> length bs < n"
  by (auto simp: take_bytes_def)

lemma take_bytes_not_Err [simp]: "take_bytes n bs \<noteq> Err e"
  by (simp add: take_bytes_def)

lemma unat_lt_256 [simp]: "unat (b :: u8) < 256"
  using unsigned_less [of b] by simp

lemma unat_u16_lt [simp]: "unat (w :: u16) < 65536"
  using unsigned_less [of w] by simp

lemma unat_u32_lt [simp]: "unat (w :: u32) < 4294967296"
  using unsigned_less [of w] by simp

lemma unat_u64_lt [simp]: "unat (w :: u64) < 18446744073709551616"
  using unsigned_less [of w] by simp

lemma be_nat_puts [simp]:
  "be_nat (put_u8 a) = unat a" "be_nat (put_u16 b) = unat b"
  "be_nat (put_u32 c) = unat c" "be_nat (put_u64 d) = unat d"
  by (simp_all add: put_u8_def put_u16_def put_u32_def put_u64_def be_nat_single be_nat_be_bytes)

lemma get_u8_put [wire]: "get_u8 (put_u8 w @ r) = Ok (w, r)"
  by (simp add: get_u8_def take_bytes_append)

lemma get_u16_put [wire]: "get_u16 (put_u16 w @ r) = Ok (w, r)"
  by (simp add: get_u16_def take_bytes_append)

lemma get_u32_put [wire]: "get_u32 (put_u32 w @ r) = Ok (w, r)"
  by (simp add: get_u32_def take_bytes_append)

lemma get_u64_put [wire]: "get_u64 (put_u64 w @ r) = Ok (w, r)"
  by (simp add: get_u64_def take_bytes_append)

lemmas get_put_exact [wire] =
  get_u8_put [where r = "[]", simplified] get_u16_put [where r = "[]", simplified]
  get_u32_put [where r = "[]", simplified] get_u64_put [where r = "[]", simplified]

lemma put_of_be_nat:
  "length x = 1 \<Longrightarrow> put_u8 (of_nat (be_nat x)) = x"
  "length x = 2 \<Longrightarrow> put_u16 (of_nat (be_nat x)) = x"
  "length x = 4 \<Longrightarrow> put_u32 (of_nat (be_nat x)) = x"
  "length x = 8 \<Longrightarrow> put_u64 (of_nat (be_nat x)) = x"
  using be_nat_bound [of x] be_bytes_be_nat [of x]
  by (auto simp: put_u8_def put_u16_def put_u32_def put_u64_def unat_of_nat take_bit_nat_eq_self
      be_nat_def length_Suc_conv)

text \<open>Reading is the inverse of writing: what a reader returned is what was written there.\<close>
lemma get_eq_Ok [rust_result]:
  "get_u8 bs = Ok (a, r) \<longleftrightarrow> bs = put_u8 a @ r"
  "get_u16 bs = Ok (b, r) \<longleftrightarrow> bs = put_u16 b @ r"
  "get_u32 bs = Ok (c, r) \<longleftrightarrow> bs = put_u32 c @ r"
  "get_u64 bs = Ok (d, r) \<longleftrightarrow> bs = put_u64 d @ r"
  by (auto simp: get_u8_def get_u16_def get_u32_def get_u64_def rust_result put_of_be_nat
      split: prod.splits)

lemma get_eq_Panic [rust_result]:
  "get_u8 bs = Panic \<longleftrightarrow> length bs < 1"
  "get_u16 bs = Panic \<longleftrightarrow> length bs < 2"
  "get_u32 bs = Panic \<longleftrightarrow> length bs < 4"
  "get_u64 bs = Panic \<longleftrightarrow> length bs < 8"
  by (auto simp: get_u8_def get_u16_def get_u32_def get_u64_def rust_result split: prod.splits)

lemma get_not_Err [simp]:
  "get_u8 bs \<noteq> Err e" "get_u16 bs \<noteq> Err e" "get_u32 bs \<noteq> Err e" "get_u64 bs \<noteq> Err e"
  by (auto simp: get_u8_def get_u16_def get_u32_def get_u64_def rust_result split: prod.splits)

lemma u16_try_from_Ok [rust_result]:
  "u16_try_from e n = Ok w \<longleftrightarrow> n < 2 ^ 16 \<and> unat w = n"
  by (auto simp: u16_try_from_def unat_of_nat take_bit_nat_eq_self)

lemma u16_try_from_Err [rust_result]:
  "u16_try_from e n = Err e' \<longleftrightarrow> \<not> n < 2 ^ 16 \<and> e' = e"
  by (auto simp: u16_try_from_def)

lemma u32_try_from_Ok [rust_result]:
  "u32_try_from e n = Ok w \<longleftrightarrow> n < 2 ^ 32 \<and> unat w = n"
  by (auto simp: u32_try_from_def unat_of_nat take_bit_nat_eq_self)

lemma try_from_not_Panic [simp]: "u16_try_from e n \<noteq> Panic" "u32_try_from e n \<noteq> Panic"
  by (simp_all add: u16_try_from_def u32_try_from_def)

lemma string_from_utf8_Ok [rust_result]:
  "string_from_utf8 e bs = Ok s \<longleftrightarrow> utf8_valid bs \<and> s = bs"
  by (auto simp: string_from_utf8_def)

lemma string_from_utf8_not_Panic [simp]: "string_from_utf8 e bs \<noteq> Panic"
  by (simp add: string_from_utf8_def)

section \<open>Lemmas on UTF-8\<close>

lemma utf8_valid_Nil [simp]: "utf8_valid []"
  by (simp add: utf8_valid.simps)

lemma utf8_step_append: "utf8_step xs = Some r \<Longrightarrow> utf8_step (xs @ ys) = Some (r @ ys)"
  by (cases xs) (auto simp: utf8_step_def Let_def split: if_splits)

lemma utf8_valid_append:
  "utf8_valid xs \<Longrightarrow> utf8_valid (xs @ ys) = utf8_valid ys"
proof (induction xs rule: utf8_valid.induct)
  case (1 xs)
  show ?case
  proof (cases "xs = []")
    case False
    with 1 obtain r where r: "utf8_step xs = Some r" "utf8_valid r"
      by (auto simp: utf8_valid.simps [of xs] split: option.splits)
    with 1 False have "utf8_valid (r @ ys) = utf8_valid ys" by blast
    with r False show ?thesis
      by (simp add: utf8_valid.simps [of "xs @ ys"] utf8_step_append)
  qed simp
qed

lemma utf8_valid_ascii_Cons [simp]: "b < 128 \<Longrightarrow> utf8_valid (b # bs) = utf8_valid bs"
  by (simp add: utf8_valid.simps [of "b # bs"] utf8_step_def utf8_len_def utf8_tail_ok_def)

lemma utf8_valid_ascii: "(\<forall>b \<in> set bs. b < 128) \<Longrightarrow> utf8_valid bs"
  by (induction bs) auto

section \<open>Lemmas on hash maps\<close>

lemma hm_get_insert [hmap, simp]:
  "hm_get (hm_insert k v m) k' = (if k' = k then Some v else hm_get m k')"
  by (simp add: update_conv')

lemma hm_get_remove [hmap, simp]:
  "hm_get (hm_remove k m) k' = (if k' = k then None else hm_get m k')"
  by (simp add: delete_conv')

lemma hm_ok_insert [hmap, simp]: "hm_ok m \<Longrightarrow> hm_ok (hm_insert k v m)"
  by (rule distinct_update)

lemma hm_ok_remove [hmap, simp]: "hm_ok m \<Longrightarrow> hm_ok (hm_remove k m)"
  by (rule distinct_delete)

lemma hm_keys_insert [hmap, simp]: "hm_keys (hm_insert k v m) = insert k (hm_keys m)"
  by (simp add: dom_update)

lemma hm_keys_remove [hmap, simp]: "hm_keys (hm_remove k m) = hm_keys m - {k}"
  by (induction m) auto

lemma hm_mem_iff_get [hmap]: "hm_ok m \<Longrightarrow> (k, v) \<in> set m \<longleftrightarrow> hm_get m k = Some v"
  by simp

lemma hm_get_None_iff [hmap]: "hm_get m k = None \<longleftrightarrow> k \<notin> hm_keys m"
  by (induction m) auto

lemma hm_get_Some_key [hmap]: "hm_get m k = Some v \<Longrightarrow> k \<in> hm_keys m"
  by (drule map_of_SomeD) (rule rev_image_eqI, assumption, simp)

lemma hm_length_insert: "length (hm_insert k v m) = (if k \<in> hm_keys m then length m else Suc (length m))"
  by (induction m) auto

lemma hm_length_remove:
  assumes "hm_ok m"
  shows "length (hm_remove k m) = (if k \<in> hm_keys m then length m - 1 else length m)"
proof -
  have "length (hm_remove k m) = length (removeAll k (map fst m))"
    by (metis delete_keys length_map)
  also have "\<dots> = length (remove1 k (map fst m))"
    using assms by (simp add: distinct_remove1_removeAll)
  finally show ?thesis
    by (simp add: length_remove1)
qed

text \<open>The multiset of a map's values, and how the updates change it.\<close>
lemma hm_values_insert_new:
  "k \<notin> hm_keys m \<Longrightarrow> mset (map snd (hm_insert k v m)) = add_mset v (mset (map snd m))"
  by (induction m) auto

lemma hm_values_remove:
  "hm_ok m \<Longrightarrow> hm_get m k = Some v \<Longrightarrow>
     mset (map snd m) = add_mset v (mset (map snd (hm_remove k m)))"
  by (induction m) (auto split: if_splits dest: hm_get_Some_key)

lemma raise_cursor_get:
  "hm_get (raise_cursor k v m) k' =
     (if k' = k then Some (max v (case hm_get m k of Some c \<Rightarrow> c | None \<Rightarrow> 0)) else hm_get m k')"
  by (auto simp: raise_cursor_def Let_def max_def split: option.splits)

lemma raise_cursor_ok [simp]: "hm_ok m \<Longrightarrow> hm_ok (raise_cursor k v m)"
  by (simp add: raise_cursor_def Let_def)

text \<open>Successors of 64-bit words.\<close>

lemma word_Suc_unat: "Suc (unat (x :: u64)) < 2 ^ 64 \<Longrightarrow> unat (x + 1) = Suc (unat x)"
  by (simp add: unat_word_ariths)

lemma less_succ_word:
  fixes n :: u64
  assumes "n \<noteq> - 1"
  shows "n < n + 1" and "t < n \<Longrightarrow> t < n + 1"
proof -
  have "1 + n \<noteq> 0" using assms by (metis add.commute add_eq_0_iff)
  then have u: "unat (n + 1) = Suc (unat n)" by (metis unatSuc add.commute)
  then show "n < n + 1" by (simp add: word_less_nat_alt)
  show "t < n \<Longrightarrow> t < n + 1" using u by (simp add: word_less_nat_alt)
qed

end
