(* ===== verification/Frame.thy ===== *)
theory Frame
  imports Blip_Prelude
begin

text \<open>
  The binary wire protocol of \<open>net/src/frame.rs\<close>: frame types, the payload of
  each frame with its encoder and decoder, the length-prefixed framing and the
  loop that drains complete frames from a connection's read buffer. The lemmas
  show that every decoder is free of panics on every input, that the encoders
  and decoders are inverse to each other, that the single-pass DELIVER encoder
  agrees with the generic one, and that draining does not depend on how the
  bytes of a stream are cut into reads.
\<close>

section \<open>Frame types and errors\<close>

definition LENGTH_FIELD_LEN :: nat where
  "LENGTH_FIELD_LEN = 4"

definition MAX_FRAME_SIZE :: u32 where
  "MAX_FRAME_SIZE = 16 * 1024 * 1024"

definition PROTOCOL_VERSION :: u16 where
  "PROTOCOL_VERSION = 2"

datatype frame_type =
  Hello | Auth | Publish | Subscribe | Ack | Nack | Ping | Pong | Poll | Deliver

datatype frame_decode_error =
  InvalidLength u32 | FrameTooLarge u32 | UnknownFrameType u8

datatype frame_encode_error = PayloadTooLarge nat

fun frame_type_to_u8 :: "frame_type \<Rightarrow> u8" where
  "frame_type_to_u8 Hello = 0x01"
| "frame_type_to_u8 Auth = 0x02"
| "frame_type_to_u8 Publish = 0x03"
| "frame_type_to_u8 Subscribe = 0x04"
| "frame_type_to_u8 Ack = 0x05"
| "frame_type_to_u8 Nack = 0x06"
| "frame_type_to_u8 Ping = 0x07"
| "frame_type_to_u8 Pong = 0x08"
| "frame_type_to_u8 Poll = 0x09"
| "frame_type_to_u8 Deliver = 0x0A"

definition frame_type_try_from :: "u8 \<Rightarrow> (frame_decode_error, frame_type) result" where
  "frame_type_try_from value =
     (if value = 0x01 then Ok Hello
      else if value = 0x02 then Ok Auth
      else if value = 0x03 then Ok Publish
      else if value = 0x04 then Ok Subscribe
      else if value = 0x05 then Ok Ack
      else if value = 0x06 then Ok Nack
      else if value = 0x07 then Ok Ping
      else if value = 0x08 then Ok Pong
      else if value = 0x09 then Ok Poll
      else if value = 0x0A then Ok Deliver
      else Err (UnknownFrameType value))"

record frame =
  msg_type :: frame_type
  correlation_id :: u64
  payload :: bytes

text \<open>\<open>payload.len() as u32\<close> truncates, as \<open>of_nat\<close> does.\<close>
abbreviation invalid_length :: "bytes \<Rightarrow> frame_decode_error" where
  "invalid_length p \<equiv> InvalidLength (of_nat (length p))"

text \<open>\<open>Bytes::slice(a..b)\<close> panics outside the buffer.\<close>
definition bytes_slice :: "nat \<Rightarrow> nat \<Rightarrow> bytes \<Rightarrow> ('e, bytes) result" where
  "bytes_slice a b bs = (if a \<le> b \<and> b \<le> length bs then Ok (take (b - a) (drop a bs)) else Panic)"

text \<open>\<open>usize::checked_add\<close> on a 64-bit target.\<close>
definition checked_add_usize :: "nat \<Rightarrow> nat \<Rightarrow> nat option" where
  "checked_add_usize a b = (if a + b < 2 ^ 64 then Some (a + b) else None)"

section \<open>Payloads\<close>

subsection \<open>HELLO, AUTH, ACK, NACK, POLL\<close>

record hello_payload =
  protocol_version :: u16

definition hello_encode :: "hello_payload \<Rightarrow> bytes" where
  "hello_encode h = put_u16 (protocol_version h)"

definition hello_decode :: "bytes \<Rightarrow> (frame_decode_error, hello_payload) result" where
  "hello_decode p =
     (if length p \<noteq> 2 then Err (invalid_length p)
      else and_then (get_u16 p) (\<lambda>(version, _). Ok \<lparr>protocol_version = version\<rparr>))"

record auth_payload =
  api_key :: rstring

definition auth_encode :: "auth_payload \<Rightarrow> (frame_encode_error, bytes) result" where
  "auth_encode a =
     (let key_bytes = api_key a; key_len = length key_bytes in
      and_then (u16_try_from (PayloadTooLarge key_len) key_len) (\<lambda>key_len_u16.
      Ok (put_u16 key_len_u16 @ key_bytes)))"

definition auth_decode :: "bytes \<Rightarrow> (frame_decode_error, auth_payload) result" where
  "auth_decode p =
     (if length p < 2 then Err (invalid_length p)
      else and_then (get_u16 p) (\<lambda>(key_len, sl).
        if length sl \<noteq> unat key_len then Err (invalid_length p)
        else and_then (take_bytes (unat key_len) sl) (\<lambda>(key_bytes, _).
          and_then (string_from_utf8 (invalid_length p) key_bytes) (\<lambda>key.
          Ok \<lparr>api_key = key\<rparr>))))"

record ack_payload =
  ack_subscription_id :: u64

definition ack_encode :: "ack_payload \<Rightarrow> (frame_encode_error, bytes) result" where
  "ack_encode a = Ok (put_u64 (ack_subscription_id a))"

definition ack_decode :: "bytes \<Rightarrow> (frame_decode_error, ack_payload) result" where
  "ack_decode p =
     (if length p \<noteq> 8 then Err (invalid_length p)
      else and_then (get_u64 p) (\<lambda>(sid, _). Ok \<lparr>ack_subscription_id = sid\<rparr>))"

record nack_payload =
  nack_code :: u16
  nack_message :: rstring

definition nack_encode :: "nack_payload \<Rightarrow> (frame_encode_error, bytes) result" where
  "nack_encode n =
     (let msg_bytes = nack_message n; msg_len = length msg_bytes in
      and_then (u16_try_from (PayloadTooLarge msg_len) msg_len) (\<lambda>msg_len_u16.
      Ok (put_u16 (nack_code n) @ put_u16 msg_len_u16 @ msg_bytes)))"

definition nack_decode :: "bytes \<Rightarrow> (frame_decode_error, nack_payload) result" where
  "nack_decode p =
     (if length p < 4 then Err (invalid_length p)
      else and_then (get_u16 p) (\<lambda>(code, sl).
        and_then (get_u16 sl) (\<lambda>(msg_len, sl).
        if length sl \<noteq> unat msg_len then Err (invalid_length p)
        else and_then (take_bytes (unat msg_len) sl) (\<lambda>(msg_bytes, _).
          and_then (string_from_utf8 (invalid_length p) msg_bytes) (\<lambda>message.
          Ok \<lparr>nack_code = code, nack_message = message\<rparr>)))))"

record poll_payload =
  poll_subscription_id :: u64

definition poll_encode :: "poll_payload \<Rightarrow> (frame_encode_error, bytes) result" where
  "poll_encode a = Ok (put_u64 (poll_subscription_id a))"

definition poll_decode :: "bytes \<Rightarrow> (frame_decode_error, poll_payload) result" where
  "poll_decode p =
     (if length p \<noteq> 8 then Err (invalid_length p)
      else and_then (get_u64 p) (\<lambda>(sid, _). Ok \<lparr>poll_subscription_id = sid\<rparr>))"

subsection \<open>PUBLISH\<close>

record publish_payload =
  pub_topic :: bytes
  pub_qos :: u8
  pub_message :: bytes
  pub_ttl_ms :: "u32 option"
  pub_partition_key :: "bytes option"

definition PUBLISH_FLAG_HAS_TTL :: u8 where
  "PUBLISH_FLAG_HAS_TTL = 0x80"

definition PUBLISH_FLAG_HAS_KEY :: u8 where
  "PUBLISH_FLAG_HAS_KEY = 0x40"

definition PUBLISH_QOS_MASK :: u8 where
  "PUBLISH_QOS_MASK = 0x03"

definition publish_qos_byte :: "publish_payload \<Rightarrow> u8" where
  "publish_qos_byte p =
     (let qos_byte = pub_qos p AND PUBLISH_QOS_MASK;
          qos_byte = (if pub_ttl_ms p \<noteq> None then qos_byte OR PUBLISH_FLAG_HAS_TTL else qos_byte)
      in if pub_partition_key p \<noteq> None then qos_byte OR PUBLISH_FLAG_HAS_KEY else qos_byte)"

definition publish_encode :: "publish_payload \<Rightarrow> (frame_encode_error, bytes) result" where
  "publish_encode p =
     (let topic_len = length (pub_topic p) in
      and_then (u16_try_from (PayloadTooLarge topic_len) topic_len) (\<lambda>topic_len_u16.
      and_then (case pub_partition_key p of
          Some k \<Rightarrow> and_then (u16_try_from (PayloadTooLarge (length k)) (length k)) (\<lambda>n. Ok (Some n))
        | None \<Rightarrow> Ok None) (\<lambda>key_len_u16.
      Ok (put_u8 (publish_qos_byte p) @
          (case pub_ttl_ms p of Some ttl \<Rightarrow> put_u32 ttl | None \<Rightarrow> []) @
          (case (pub_partition_key p, key_len_u16) of
             (Some key, Some klen) \<Rightarrow> put_u16 klen @ key | _ \<Rightarrow> []) @
          put_u16 topic_len_u16 @ pub_topic p @ pub_message p))))"

text \<open>The optional TTL and key fields: value, bytes left, header length so far.\<close>
definition publish_decode_ttl ::
  "bytes \<Rightarrow> bool \<Rightarrow> bytes \<Rightarrow> nat \<Rightarrow> (frame_decode_error, u32 option \<times> bytes \<times> nat) result" where
  "publish_decode_ttl p has_ttl sl header_len =
     (if has_ttl then
        (if length sl < 4 then Err (invalid_length p)
         else and_then (get_u32 sl) (\<lambda>(ttl, sl). Ok (Some ttl, sl, header_len + 4)))
      else Ok (None, sl, header_len))"

definition publish_decode_key ::
  "bytes \<Rightarrow> bool \<Rightarrow> bytes \<Rightarrow> nat \<Rightarrow> (frame_decode_error, bytes option \<times> bytes \<times> nat) result" where
  "publish_decode_key p has_key sl header_len =
     (if has_key then
        (if length sl < 2 then Err (invalid_length p)
         else and_then (get_u16 sl) (\<lambda>(klen, sl).
           (let klen = unat klen; header_len = header_len + 2 in
            if length sl < klen then Err (invalid_length p)
            else and_then (bytes_slice header_len (header_len + klen) p) (\<lambda>key.
              and_then (take_bytes klen sl) (\<lambda>(_, sl).
              Ok (Some key, sl, header_len + klen))))))
      else Ok (None, sl, header_len))"

definition publish_decode :: "bytes \<Rightarrow> (frame_decode_error, publish_payload) result" where
  "publish_decode p =
     (if length p < 3 then Err (invalid_length p)
      else and_then (get_u8 p) (\<lambda>(qos_byte, sl).
        and_then (publish_decode_ttl p (qos_byte AND PUBLISH_FLAG_HAS_TTL \<noteq> 0) sl 1)
          (\<lambda>(ttl_ms, sl, header_len).
        and_then (publish_decode_key p (qos_byte AND PUBLISH_FLAG_HAS_KEY \<noteq> 0) sl header_len)
          (\<lambda>(partition_key, sl, header_len).
        if length sl < 2 then Err (invalid_length p)
        else and_then (get_u16 sl) (\<lambda>(topic_len, sl).
          (let topic_len = unat topic_len; header_len = header_len + 2 in
           if length sl < topic_len then Err (invalid_length p)
           else and_then (bytes_slice header_len (header_len + topic_len) p) (\<lambda>topic.
             and_then (string_from_utf8 (invalid_length p) topic) (\<lambda>_.
             and_then (bytes_slice (header_len + topic_len) (length p) p) (\<lambda>message.
             Ok \<lparr>pub_topic = topic, pub_qos = qos_byte AND PUBLISH_QOS_MASK,
                 pub_message = message, pub_ttl_ms = ttl_ms,
                 pub_partition_key = partition_key\<rparr>)))))))))"

subsection \<open>DELIVER\<close>

record deliver_payload =
  del_qos :: u8
  del_tag :: u64
  del_topic :: rstring
  del_message :: bytes

definition deliver_encode :: "deliver_payload \<Rightarrow> (frame_encode_error, bytes) result" where
  "deliver_encode d =
     (let topic_bytes = del_topic d; topic_len = length topic_bytes in
      and_then (u16_try_from (PayloadTooLarge topic_len) topic_len) (\<lambda>topic_len_u16.
      Ok (put_u8 (del_qos d) @ put_u64 (del_tag d) @ put_u16 topic_len_u16 @ topic_bytes @
          del_message d)))"

definition deliver_decode :: "bytes \<Rightarrow> (frame_decode_error, deliver_payload) result" where
  "deliver_decode p =
     (if length p < 1 + 8 + 2 then Err (invalid_length p)
      else and_then (get_u8 p) (\<lambda>(qos, sl).
        and_then (get_u64 sl) (\<lambda>(delivery_tag, sl).
        and_then (get_u16 sl) (\<lambda>(topic_len, sl).
        if length sl < unat topic_len then Err (invalid_length p)
        else and_then (take_bytes (unat topic_len) sl) (\<lambda>(topic_bytes, sl).
          and_then (string_from_utf8 (invalid_length p) topic_bytes) (\<lambda>topic.
          and_then (take_bytes (length sl) sl) (\<lambda>(message, _).
          Ok \<lparr>del_qos = qos, del_tag = delivery_tag, del_topic = topic,
              del_message = message\<rparr>)))))))"

subsection \<open>SUBSCRIBE\<close>

record subscribe_payload =
  sub_topic :: rstring
  sub_qos :: u8
  sub_group :: "rstring option"
  sub_from_offset :: "u64 option"

definition SUBSCRIBE_FLAG_HAS_GROUP :: u8 where
  "SUBSCRIBE_FLAG_HAS_GROUP = 0x80"

definition SUBSCRIBE_FLAG_HAS_OFFSET :: u8 where
  "SUBSCRIBE_FLAG_HAS_OFFSET = 0x40"

definition SUBSCRIBE_QOS_MASK :: u8 where
  "SUBSCRIBE_QOS_MASK = 0x03"

definition qos_level :: "subscribe_payload \<Rightarrow> u8" where
  "qos_level s = sub_qos s AND SUBSCRIBE_QOS_MASK"

definition subscribe_qos_byte :: "subscribe_payload \<Rightarrow> u8" where
  "subscribe_qos_byte s =
     (let qos_byte = sub_qos s AND SUBSCRIBE_QOS_MASK;
          qos_byte = (if sub_group s \<noteq> None then qos_byte OR SUBSCRIBE_FLAG_HAS_GROUP else qos_byte)
      in if sub_from_offset s \<noteq> None then qos_byte OR SUBSCRIBE_FLAG_HAS_OFFSET else qos_byte)"

definition subscribe_encode :: "subscribe_payload \<Rightarrow> (frame_encode_error, bytes) result" where
  "subscribe_encode s =
     (let topic_bytes = sub_topic s; topic_len = length topic_bytes in
      and_then (u16_try_from (PayloadTooLarge topic_len) topic_len) (\<lambda>topic_len_u16.
      and_then (case sub_group s of
          Some g \<Rightarrow> and_then (u16_try_from (PayloadTooLarge (length g)) (length g)) (\<lambda>n. Ok (Some n))
        | None \<Rightarrow> Ok None) (\<lambda>group_len_u16.
      Ok (put_u16 topic_len_u16 @ topic_bytes @ put_u8 (subscribe_qos_byte s) @
          (case (sub_group s, group_len_u16) of
             (Some grp, Some glen) \<Rightarrow> put_u16 glen @ grp | _ \<Rightarrow> []) @
          (case sub_from_offset s of Some offset \<Rightarrow> put_u64 offset | None \<Rightarrow> [])))))"

definition subscribe_decode_group ::
  "bytes \<Rightarrow> bool \<Rightarrow> bytes \<Rightarrow> (frame_decode_error, rstring option \<times> bytes) result" where
  "subscribe_decode_group p has_group sl =
     (if has_group then
        (if length sl < 2 then Err (invalid_length p)
         else and_then (get_u16 sl) (\<lambda>(group_len, sl).
           if length sl < unat group_len then Err (invalid_length p)
           else and_then (take_bytes (unat group_len) sl) (\<lambda>(group_bytes, sl).
             and_then (string_from_utf8 (invalid_length p) group_bytes) (\<lambda>g.
             Ok (Some g, sl)))))
      else Ok (None, sl))"

definition subscribe_decode_offset ::
  "bytes \<Rightarrow> bool \<Rightarrow> bytes \<Rightarrow> (frame_decode_error, u64 option) result" where
  "subscribe_decode_offset p has_offset sl =
     (if has_offset then
        (if length sl < 8 then Err (invalid_length p)
         else and_then (get_u64 sl) (\<lambda>(offset, _). Ok (Some offset)))
      else Ok None)"

definition subscribe_decode :: "bytes \<Rightarrow> (frame_decode_error, subscribe_payload) result" where
  "subscribe_decode p =
     (if length p < 3 then Err (invalid_length p)
      else and_then (get_u16 p) (\<lambda>(topic_len, sl).
        if length sl < unat topic_len + 1 then Err (invalid_length p)
        else and_then (take_bytes (unat topic_len) sl) (\<lambda>(topic_bytes, sl).
          and_then (string_from_utf8 (invalid_length p) topic_bytes) (\<lambda>topic.
          and_then (get_u8 sl) (\<lambda>(qos_raw, sl).
          and_then (subscribe_decode_group p (qos_raw AND SUBSCRIBE_FLAG_HAS_GROUP \<noteq> 0) sl)
            (\<lambda>(grp, sl).
          and_then (subscribe_decode_offset p (qos_raw AND SUBSCRIBE_FLAG_HAS_OFFSET \<noteq> 0) sl)
            (\<lambda>from_offset.
          Ok \<lparr>sub_topic = topic, sub_qos = qos_raw AND SUBSCRIBE_QOS_MASK, sub_group = grp,
              sub_from_offset = from_offset\<rparr>)))))))"

section \<open>Framing\<close>

text \<open>The encoders append to the buffer they are given; on an error the buffer is untouched.\<close>
definition encode_frame :: "frame \<Rightarrow> bytes \<Rightarrow> (frame_encode_error, bytes) result" where
  "encode_frame f dst =
     (let payload_len = length (payload f) in
      case Option.bind (checked_add_usize 1 8) (\<lambda>v. checked_add_usize v payload_len) of
        None \<Rightarrow> Err (PayloadTooLarge payload_len)
      | Some total_len \<Rightarrow>
          (if total_len > unat MAX_FRAME_SIZE then Err (PayloadTooLarge payload_len)
           else Ok (dst @ put_u32 (of_nat total_len) @ put_u8 (frame_type_to_u8 (msg_type f)) @
                    put_u64 (correlation_id f) @ payload f)))"

definition encode_deliver_frame ::
  "bytes \<Rightarrow> u8 \<Rightarrow> u64 \<Rightarrow> rstring \<Rightarrow> bytes \<Rightarrow> (frame_encode_error, bytes) result" where
  "encode_deliver_frame dst qos delivery_tag topic message =
     (let topic_len = length topic; message_len = length message in
      and_then (u16_try_from (PayloadTooLarge topic_len) topic_len) (\<lambda>topic_len_u16.
      case Option.bind (checked_add_usize 20 topic_len) (\<lambda>v. checked_add_usize v message_len) of
        None \<Rightarrow> Err (PayloadTooLarge message_len)
      | Some frame_body_len \<Rightarrow>
          (if frame_body_len > unat MAX_FRAME_SIZE then Err (PayloadTooLarge frame_body_len)
           else Ok (dst @ put_u32 (of_nat frame_body_len) @ put_u8 (frame_type_to_u8 Deliver) @
                    put_u64 delivery_tag @ put_u8 qos @ put_u64 delivery_tag @
                    put_u16 topic_len_u16 @ topic @ message))))"

text \<open>The body of a frame whose length field has been checked against the buffer.\<close>
definition decode_frame_bytes :: "bytes \<Rightarrow> (frame_decode_error, frame) result" where
  "decode_frame_bytes frame_bytes =
     and_then (take_bytes LENGTH_FIELD_LEN frame_bytes) (\<lambda>(_, frame_bytes).
     and_then (get_u8 frame_bytes) (\<lambda>(msg_type_raw, frame_bytes).
     and_then (frame_type_try_from msg_type_raw) (\<lambda>msg_type.
     and_then (get_u64 frame_bytes) (\<lambda>(correlation_id, frame_bytes).
     Ok \<lparr>msg_type = msg_type, correlation_id = correlation_id, payload = frame_bytes\<rparr>))))"

text \<open>The result of one decode attempt and the buffer it leaves behind.\<close>
definition try_decode_frame ::
  "bytes \<Rightarrow> (frame_decode_error, frame option) result \<times> bytes" where
  "try_decode_frame src =
     (if length src < LENGTH_FIELD_LEN then (Ok None, src)
      else case get_u32 (take LENGTH_FIELD_LEN src) of
        Ok (frame_len, _) \<Rightarrow>
          (if frame_len = 0 then (Err (InvalidLength frame_len), src)
           else if frame_len > MAX_FRAME_SIZE then (Err (FrameTooLarge frame_len), src)
           else if unat frame_len < 1 + 8 then (Err (InvalidLength frame_len), src)
           else if length src < LENGTH_FIELD_LEN + unat frame_len then (Ok None, src)
           else
             (let total = LENGTH_FIELD_LEN + unat frame_len in
              (and_then (decode_frame_bytes (take total src)) (\<lambda>f. Ok (Some f)), drop total src)))
      | Err e \<Rightarrow> (Err e, src)
      | Panic \<Rightarrow> (Panic, src))"

section \<open>Frame types\<close>

lemma frame_type_try_from_to_u8 [simp, wire]:
  "frame_type_try_from (frame_type_to_u8 t) = Ok t"
  by (cases t) (simp_all add: frame_type_try_from_def)

lemma frame_type_try_from_Ok [rust_result]:
  "frame_type_try_from b = Ok t \<longleftrightarrow> b = frame_type_to_u8 t"
proof
  show "b = frame_type_to_u8 t" if "frame_type_try_from b = Ok t"
    using that by (auto simp: frame_type_try_from_def split: if_splits)
qed simp

lemma frame_type_try_from_not_Panic [simp]: "frame_type_try_from b \<noteq> Panic"
  by (simp add: frame_type_try_from_def)

section \<open>Slices of the payload and flag bits\<close>

lemma bytes_slice_prefix [wire]:
  "a = length xs \<Longrightarrow> b = a + length ys \<Longrightarrow> bytes_slice a b (xs @ ys @ zs) = Ok ys"
  "a = length xs \<Longrightarrow> b = a + length ys \<Longrightarrow> bytes_slice a b (xs @ ys) = Ok ys"
  by (simp_all add: bytes_slice_def)

lemma bytes_slice_eq_Panic [rust_result]:
  "bytes_slice a b bs = Panic \<longleftrightarrow> b < a \<or> length bs < b"
  by (auto simp: bytes_slice_def)

lemma bytes_slice_not_Err [simp]: "bytes_slice a b bs \<noteq> Err e"
  by (simp add: bytes_slice_def)

lemmas flag_defs =
  PUBLISH_FLAG_HAS_TTL_def PUBLISH_FLAG_HAS_KEY_def PUBLISH_QOS_MASK_def
  SUBSCRIBE_FLAG_HAS_GROUP_def SUBSCRIBE_FLAG_HAS_OFFSET_def SUBSCRIBE_QOS_MASK_def

text \<open>The flag bits and the QoS bits of a header byte do not overlap.\<close>
lemma flag_bits:
  fixes q :: u8
  defines "flagged a b \<equiv> (let r = q AND 3; r = (if a then r OR 128 else r) in if b then r OR 64 else r)"
  shows "flagged a b AND 128 \<noteq> 0 \<longleftrightarrow> a"
    and "flagged a b AND 64 \<noteq> 0 \<longleftrightarrow> b"
    and "flagged a b AND 3 = q AND 3"
  unfolding flagged_def Let_def
  by (cases a; cases b; simp add: bit.conj_disj_distrib2 and.assoc)+

lemma publish_qos_byte_bits [simp]:
  "publish_qos_byte p AND PUBLISH_FLAG_HAS_TTL \<noteq> 0 \<longleftrightarrow> pub_ttl_ms p \<noteq> None"
  "publish_qos_byte p AND PUBLISH_FLAG_HAS_KEY \<noteq> 0 \<longleftrightarrow> pub_partition_key p \<noteq> None"
  "publish_qos_byte p AND PUBLISH_QOS_MASK = pub_qos p AND PUBLISH_QOS_MASK"
  unfolding publish_qos_byte_def flag_defs by (rule flag_bits)+

lemma subscribe_qos_byte_bits [simp]:
  "subscribe_qos_byte s AND SUBSCRIBE_FLAG_HAS_GROUP \<noteq> 0 \<longleftrightarrow> sub_group s \<noteq> None"
  "subscribe_qos_byte s AND SUBSCRIBE_FLAG_HAS_OFFSET \<noteq> 0 \<longleftrightarrow> sub_from_offset s \<noteq> None"
  "subscribe_qos_byte s AND SUBSCRIBE_QOS_MASK = sub_qos s AND SUBSCRIBE_QOS_MASK"
  unfolding subscribe_qos_byte_def flag_defs by (rule flag_bits)+

section \<open>Decoders never panic\<close>

lemma small_decoders_no_panic:
  "hello_decode p \<noteq> Panic" "auth_decode p \<noteq> Panic" "ack_decode p \<noteq> Panic"
  "nack_decode p \<noteq> Panic" "poll_decode p \<noteq> Panic" "deliver_decode p \<noteq> Panic"
  by (auto simp: hello_decode_def auth_decode_def ack_decode_def nack_decode_def poll_decode_def
      deliver_decode_def rust_result split: prod.splits if_splits)

lemma publish_decode_ttl_props:
  "publish_decode_ttl p h sl n \<noteq> Panic"
  "publish_decode_ttl p h sl n = Ok (t, sl', n') \<Longrightarrow> n + length sl = n' + length sl'"
  by (auto simp: publish_decode_ttl_def rust_result split: if_splits prod.splits)

lemma publish_decode_key_props:
  "publish_decode_key p h sl n = Panic \<Longrightarrow> n + length sl \<noteq> length p"
  "publish_decode_key p h sl n = Ok (k, sl', n') \<Longrightarrow> n + length sl = n' + length sl'"
  by (auto simp: publish_decode_key_def Let_def rust_result split: if_splits prod.splits)

lemma publish_decode_no_panic: "publish_decode p \<noteq> Panic"
  by (auto simp: publish_decode_def Let_def rust_result publish_decode_ttl_props(1)
      split: if_splits prod.splits
      dest!: publish_decode_ttl_props(2) publish_decode_key_props)

lemma subscribe_decode_parts_no_panic [simp]:
  "subscribe_decode_group p h sl \<noteq> Panic" "subscribe_decode_offset p h sl \<noteq> Panic"
  by (auto simp: subscribe_decode_group_def subscribe_decode_offset_def rust_result
      split: if_splits prod.splits)

lemma subscribe_decode_no_panic: "subscribe_decode p \<noteq> Panic"
  by (auto simp: subscribe_decode_def rust_result split: if_splits prod.splits)

lemma decode_frame_bytes_no_panic: "13 \<le> length bs \<Longrightarrow> decode_frame_bytes bs \<noteq> Panic"
  by (auto simp: decode_frame_bytes_def LENGTH_FIELD_LEN_def rust_result split: prod.splits)

lemma try_decode_frame_no_panic: "fst (try_decode_frame src) \<noteq> Panic"
  by (auto simp: try_decode_frame_def LENGTH_FIELD_LEN_def Let_def rust_result
      decode_frame_bytes_no_panic split: result.splits prod.splits)

section \<open>Round trips of the payloads\<close>

lemma hello_roundtrip [wire]: "hello_decode (hello_encode h) = Ok h"
  by (simp add: hello_decode_def hello_encode_def wire)

lemma ack_poll_roundtrip:
  "ack_encode a = Ok bs \<Longrightarrow> ack_decode bs = Ok a"
  "poll_encode q = Ok bs \<Longrightarrow> poll_decode bs = Ok q"
  by (auto simp: ack_encode_def ack_decode_def poll_encode_def poll_decode_def wire)

lemma auth_decode_Ok:
  "auth_decode p = Ok a \<longleftrightarrow> utf8_valid (api_key a) \<and> auth_encode a = Ok p"
proof
  show "utf8_valid (api_key a) \<and> auth_encode a = Ok p" if "auth_decode p = Ok a"
    using that by (auto simp: auth_decode_def auth_encode_def Let_def rust_result
        split: prod.splits if_splits)
  show "auth_decode p = Ok a" if "utf8_valid (api_key a) \<and> auth_encode a = Ok p"
    using that by (clarsimp simp: auth_encode_def Let_def and_then_eq_Ok u16_try_from_Ok)
      (simp add: auth_decode_def string_from_utf8_def wire)
qed

lemma nack_decode_Ok:
  "nack_decode p = Ok n \<longleftrightarrow> utf8_valid (nack_message n) \<and> nack_encode n = Ok p"
proof
  show "utf8_valid (nack_message n) \<and> nack_encode n = Ok p" if "nack_decode p = Ok n"
    using that by (auto simp: nack_decode_def nack_encode_def Let_def rust_result
        split: prod.splits if_splits)
  show "nack_decode p = Ok n" if "utf8_valid (nack_message n) \<and> nack_encode n = Ok p"
    using that by (clarsimp simp: nack_encode_def Let_def and_then_eq_Ok u16_try_from_Ok)
      (simp add: nack_decode_def string_from_utf8_def wire)
qed

lemma deliver_decode_Ok:
  "deliver_decode p = Ok d \<longleftrightarrow> utf8_valid (del_topic d) \<and> deliver_encode d = Ok p"
proof
  show "utf8_valid (del_topic d) \<and> deliver_encode d = Ok p" if "deliver_decode p = Ok d"
    using that by (auto simp: deliver_decode_def deliver_encode_def Let_def take_bytes_all rust_result
        split: prod.splits if_splits)
  show "deliver_decode p = Ok d" if "utf8_valid (del_topic d) \<and> deliver_encode d = Ok p"
    using that by (clarsimp simp: deliver_encode_def Let_def and_then_eq_Ok u16_try_from_Ok)
      (simp add: deliver_decode_def string_from_utf8_def wire)
qed

lemma publish_encode_Ok:
  "publish_encode p = Ok bs \<longleftrightarrow>
     length (pub_topic p) < 65536 \<and>
     (\<forall>key. pub_partition_key p = Some key \<longrightarrow> length key < 65536) \<and>
     bs = put_u8 (publish_qos_byte p) @
          (case pub_ttl_ms p of Some ttl \<Rightarrow> put_u32 ttl | None \<Rightarrow> []) @
          (case pub_partition_key p of Some key \<Rightarrow> put_u16 (of_nat (length key)) @ key | None \<Rightarrow> []) @
          put_u16 (of_nat (length (pub_topic p))) @ pub_topic p @ pub_message p"
  by (auto simp: publish_encode_def Let_def u16_try_from_def split: option.splits)

lemma unat_u16_of_nat [simp]: "n < 65536 \<Longrightarrow> unat (of_nat n :: u16) = n"
  by (simp add: unat_of_nat take_bit_nat_eq_self)

lemma unat_u32_of_nat [simp]: "n < 4294967296 \<Longrightarrow> unat (of_nat n :: u32) = n"
  by (simp add: unat_of_nat take_bit_nat_eq_self)



lemma subscribe_encode_Ok:
  "subscribe_encode s = Ok bs \<longleftrightarrow>
     length (sub_topic s) < 65536 \<and>
     (\<forall>g. sub_group s = Some g \<longrightarrow> length g < 65536) \<and>
     bs = put_u16 (of_nat (length (sub_topic s))) @ sub_topic s @ put_u8 (subscribe_qos_byte s) @
          (case sub_group s of Some g \<Rightarrow> put_u16 (of_nat (length g)) @ g | None \<Rightarrow> []) @
          (case sub_from_offset s of Some offset \<Rightarrow> put_u64 offset | None \<Rightarrow> [])"
  by (auto simp: subscribe_encode_def Let_def u16_try_from_def split: option.splits)

text \<open>C28: A SUBSCRIBE payload that encodes and whose topic and group are UTF-8 decodes to itself,
  with or without a consumer group and a replay offset; the QoS is masked to its two bits.\<close>
theorem subscribe_roundtrip:
  assumes "subscribe_encode s = Ok bs" and "utf8_valid (sub_topic s)"
    and "\<And>g. sub_group s = Some g \<Longrightarrow> utf8_valid g"
  shows "subscribe_decode bs = Ok (s\<lparr>sub_qos := qos_level s\<rparr>)"
  using assms unfolding subscribe_encode_Ok
  by (cases "sub_group s"; cases "sub_from_offset s")
    (auto simp: subscribe_decode_def subscribe_decode_group_def subscribe_decode_offset_def
      qos_level_def wire string_from_utf8_def)

section \<open>Framing\<close>

lemma unat_MAX_FRAME_SIZE [simp]: "unat MAX_FRAME_SIZE = 16777216"
  by (simp add: MAX_FRAME_SIZE_def)

lemma encode_frame_Ok:
  "encode_frame f dst = Ok out \<longleftrightarrow>
     9 + length (payload f) \<le> 16777216 \<and>
     out = dst @ put_u32 (of_nat (9 + length (payload f))) @ put_u8 (frame_type_to_u8 (msg_type f)) @
       put_u64 (correlation_id f) @ payload f"
  by (auto simp: encode_frame_def checked_add_usize_def Let_def)

lemma decode_frame_bytes_Ok:
  "decode_frame_bytes bs = Ok f \<longleftrightarrow>
     (\<exists>l. length l = 4 \<and> bs = l @ put_u8 (frame_type_to_u8 (msg_type f)) @
        put_u64 (correlation_id f) @ payload f)"
proof
  show "\<exists>l. length l = 4 \<and> bs = l @ put_u8 (frame_type_to_u8 (msg_type f)) @
      put_u64 (correlation_id f) @ payload f" if "decode_frame_bytes bs = Ok f"
    using that by (auto simp: decode_frame_bytes_def LENGTH_FIELD_LEN_def rust_result
        split: prod.splits)
qed (auto simp: decode_frame_bytes_def LENGTH_FIELD_LEN_def wire)

lemma try_decode_frame_encode:
  assumes "encode_frame f [] = Ok bs"
  shows "try_decode_frame (bs @ rest) = (Ok (Some f), rest)"
proof -
  let ?n = "of_nat (9 + length (payload f)) :: u32"
  have n: "unat ?n = 9 + length (payload f)" and le: "9 + length (payload f) \<le> 16777216"
    and bs: "bs = put_u32 ?n @ put_u8 (frame_type_to_u8 (msg_type f)) @
       put_u64 (correlation_id f) @ payload f"
    using assms by (simp_all add: encode_frame_Ok del: of_nat_add)
  have len: "length bs = 4 + unat ?n" by (simp add: bs n del: of_nat_add)
  have "decode_frame_bytes bs = Ok f"
    by (auto simp: decode_frame_bytes_Ok bs)
  moreover have "?n \<noteq> 0"
    by (metis n unat_0 add_eq_0_iff_both_eq_0 zero_neq_numeral)
  moreover have "\<not> ?n > MAX_FRAME_SIZE"
    using n le by (simp add: word_less_nat_alt del: of_nat_add)
  moreover have "get_u32 (take 4 (bs @ rest)) = (Ok (?n, []) :: (frame_decode_error, _) result)"
    by (simp add: bs wire del: of_nat_add)
  ultimately show ?thesis
    using len n by (simp add: try_decode_frame_def LENGTH_FIELD_LEN_def Let_def del: of_nat_add)
qed

lemma try_decode_frame_Some:
  assumes "try_decode_frame src = (Ok (Some f), rest)"
  shows "\<exists>bs. encode_frame f [] = Ok bs \<and> src = bs @ rest"
proof -
  obtain n x where g: "get_u32 (take 4 src) = (Ok (n, x) :: (frame_decode_error, _) result)"
    and ok: "\<not> n > MAX_FRAME_SIZE" "\<not> unat n < 9" "\<not> length src < 4 + unat n" "\<not> length src < 4"
    and d: "decode_frame_bytes (take (4 + unat n) src) = Ok f" and r: "rest = drop (4 + unat n) src"
    using assms by (auto simp: try_decode_frame_def LENGTH_FIELD_LEN_def Let_def and_then_eq_Ok
        split: if_splits result.splits prod.splits)
  have p4: "take 4 src = put_u32 n"
    using g ok(4) by (auto simp: get_eq_Ok) (metis append_eq_conv_conj append_Nil2 length_puts(3)
        length_take min.absorb2 not_less take_all_iff order_refl)
  obtain l where l: "length l = 4" "take (4 + unat n) src =
      l @ put_u8 (frame_type_to_u8 (msg_type f)) @ put_u64 (correlation_id f) @ payload f"
    using d by (auto simp: decode_frame_bytes_Ok)
  have "l = take 4 src"
    using arg_cong [OF l(2), of "take 4"] l(1) by simp
  moreover have "unat n = 9 + length (payload f)"
    using arg_cong [OF l(2), of length] l(1) ok(3) by simp
  then have "n = of_nat (9 + length (payload f))"
    by (metis of_nat_unat ucast_id)
  ultimately have "encode_frame f [] = Ok (take (4 + unat n) src)"
    using ok(1) l(2) p4 \<open>unat n = _\<close>
    by (simp add: encode_frame_Ok word_less_nat_alt del: of_nat_add)
  then show ?thesis
    using r by auto
qed

lemma try_decode_frame_append:
  assumes "try_decode_frame src = (r, rest)" and "r \<noteq> Ok None"
  shows "try_decode_frame (src @ ys) = (r, rest @ ys)"
proof -
  have "\<not> length src < 4"
    using assms by (auto simp: try_decode_frame_def LENGTH_FIELD_LEN_def)
  then have "take 4 (src @ ys) = take 4 src" by simp
  with assms \<open>\<not> length src < 4\<close> show ?thesis
    by (auto simp: try_decode_frame_def LENGTH_FIELD_LEN_def Let_def
        split: if_splits result.splits prod.splits)
qed

lemma try_decode_frame_shorter:
  "try_decode_frame src = (Ok (Some f), rest) \<Longrightarrow> length rest < length src"
  by (drule try_decode_frame_Some) (auto simp: encode_frame_Ok)

lemma try_decode_frame_None: "try_decode_frame src = (Ok None, rest) \<Longrightarrow> rest = src"
  by (auto simp: try_decode_frame_def LENGTH_FIELD_LEN_def Let_def and_then_eq_Ok
      split: if_splits result.splits prod.splits)

text \<open>
  The frames a buffer holds: those decoded before the first incomplete frame or
  error, the bytes left, and how decoding stopped.
\<close>
function decode_frames :: "bytes \<Rightarrow> frame list \<times> bytes \<times> (frame_decode_error, unit) result" where
  "decode_frames src =
     (case try_decode_frame src of
        (Ok None, rest) \<Rightarrow> ([], rest, Ok ())
      | (Ok (Some f), rest) \<Rightarrow> (case decode_frames rest of (fs, out) \<Rightarrow> (f # fs, out))
      | (Err e, rest) \<Rightarrow> ([], rest, Err e)
      | (Panic, rest) \<Rightarrow> ([], rest, Panic))"
  by pat_completeness auto
termination
  by (relation "measure length") (auto dest: try_decode_frame_shorter [OF sym])

declare decode_frames.simps [simp del]

lemma decode_frames_append:
  "decode_frames (src @ ys) =
     (case decode_frames src of
        (fs, rest, Ok _) \<Rightarrow> (case decode_frames (rest @ ys) of (gs, out) \<Rightarrow> (fs @ gs, out))
      | (fs, rest, r) \<Rightarrow> (fs, rest @ ys, r))"
proof (induction src rule: decode_frames.induct)
  case (1 src)
  obtain r rest where d: "try_decode_frame src = (r, rest)"
    by (cases "try_decode_frame src")
  show ?case
  proof (cases "r = Ok None")
    case True
    with d have "decode_frames src = ([], src, Ok ())"
      by (subst decode_frames.simps) (simp add: try_decode_frame_None)
    then show ?thesis by (simp split: prod.splits)
  next
    case False
    note a = try_decode_frame_append [OF d False, of ys]
    show ?thesis
    proof (cases r)
      case (Ok fo)
      then obtain f where f: "r = Ok (Some f)" using False by (cases fo) auto
      have s: "decode_frames src = (case decode_frames rest of (fs, out) \<Rightarrow> (f # fs, out))"
        by (subst decode_frames.simps) (simp add: d f)
      have sa: "decode_frames (src @ ys) =
          (case decode_frames (rest @ ys) of (fs, out) \<Rightarrow> (f # fs, out))"
        by (subst decode_frames.simps) (simp add: a f)
      show ?thesis
        unfolding s sa 1 [OF d [symmetric] f refl]
        by (simp split: prod.splits result.splits)
    next
      case (Err e)
      with a d show ?thesis
        by (subst decode_frames.simps, subst (2) decode_frames.simps) simp
    next
      case Panic
      with a d show ?thesis
        by (subst decode_frames.simps, subst (2) decode_frames.simps) simp
    qed
  qed
qed

lemma decode_frames_no_panic: "snd (snd (decode_frames src)) \<noteq> Panic"
proof (induction src rule: decode_frames.induct)
  case (1 src)
  then show ?case
    using try_decode_frame_no_panic [of src]
    by (subst decode_frames.simps) (force split: prod.splits result.splits option.splits)
qed

lemma decode_frames_encode:
  "encode_frame f [] = Ok bs \<Longrightarrow>
     decode_frames (bs @ rest) = (case decode_frames rest of (fs, out) \<Rightarrow> (f # fs, out))"
  by (subst decode_frames.simps) (simp add: try_decode_frame_encode)

section \<open>The single-pass DELIVER encoder\<close>

text \<open>C20: The single-pass DELIVER encoder of the push path writes the same bytes as encoding the
  payload and then the frame, and fails on exactly the same inputs.\<close>
theorem encode_deliver_frame_equiv:
  "map_err (\<lambda>_. ()) (encode_deliver_frame dst q t topic m) =
   map_err (\<lambda>_. ()) (and_then
     (deliver_encode \<lparr>del_qos = q, del_tag = t, del_topic = topic, del_message = m\<rparr>)
     (\<lambda>p. encode_frame \<lparr>msg_type = Deliver, correlation_id = t, payload = p\<rparr> dst))"
  by (auto simp: encode_deliver_frame_def deliver_encode_def encode_frame_def checked_add_usize_def
      u16_try_from_def Let_def add.assoc)

section \<open>Properties of the protocol\<close>

theorem subscribe_roundtrip_witness:
  "subscribe_decode (put_u16 1 @ [97] @ put_u8 0xC1 @ put_u16 1 @ [103] @ put_u64 9) =
     Ok \<lparr>sub_topic = [97], sub_qos = 1, sub_group = Some [103], sub_from_offset = Some 9\<rparr>"
  using subscribe_roundtrip [of "\<lparr>sub_topic = [97], sub_qos = 1, sub_group = Some [103],
    sub_from_offset = Some 9\<rparr>"]
  by (simp add: subscribe_encode_def subscribe_qos_byte_def qos_level_def flag_defs u16_try_from_def)

text \<open>C3: Framing is exact: the decoder takes a frame off the buffer if and only if the buffer starts
  with the encoding of that frame, and it leaves exactly the bytes that follow. So a frame is never
  split, merged or accepted in a second spelling.\<close>
theorem try_decode_frame_iff_encoded:
  "try_decode_frame src = (Ok (Some f), rest) \<longleftrightarrow>
     (\<exists>bs. encode_frame f [] = Ok bs \<and> src = bs @ rest)"
  using try_decode_frame_encode try_decode_frame_Some by blast

text \<open>C5: No decoder panics: on every byte string a peer can send, the frame decoder and the decoder
  of each payload return a value or an error.\<close>
theorem decoders_never_panic:
  "fst (try_decode_frame p) \<noteq> Panic \<and> hello_decode p \<noteq> Panic \<and> auth_decode p \<noteq> Panic \<and>
   ack_decode p \<noteq> Panic \<and> nack_decode p \<noteq> Panic \<and> publish_decode p \<noteq> Panic \<and>
   deliver_decode p \<noteq> Panic \<and> subscribe_decode p \<noteq> Panic \<and> poll_decode p \<noteq> Panic"
  by (simp add: try_decode_frame_no_panic small_decoders_no_panic publish_decode_no_panic
      subscribe_decode_no_panic)

text \<open>C29: The payloads that carry one text field (AUTH, NACK, DELIVER) have exactly one spelling:
  a payload decodes to a value if and only if it is the encoding of that value and the text is
  UTF-8.\<close>
theorem text_payloads_canonical:
  "(auth_decode p = Ok a \<longleftrightarrow> utf8_valid (api_key a) \<and> auth_encode a = Ok p) \<and>
   (nack_decode p = Ok n \<longleftrightarrow> utf8_valid (nack_message n) \<and> nack_encode n = Ok p) \<and>
   (deliver_decode p = Ok d \<longleftrightarrow> utf8_valid (del_topic d) \<and> deliver_encode d = Ok p)"
  by (simp add: auth_decode_Ok nack_decode_Ok deliver_decode_Ok)

end
