(* ===== verification/Core_Types.thy ===== *)
theory Core_Types
  imports Blip_Prelude
begin

text \<open>
  The types that the core, WAL and network crates share (QoS levels, broker
  configuration, delivery handles, errors), and decimal numbers as the standard
  library prints and parses them.
\<close>

section \<open>Enumerations and configuration\<close>

datatype qos = AtMostOnce | AtLeastOnce

datatype slow_consumer_policy = DropNewest | DropSubscription

datatype drop_reason = TtlExpired | MaxRetriesExceeded

text \<open>The kinds of \<open>std::io::Error\<close> that the program tells apart.\<close>
datatype io_error = NotFound | PermissionDenied | BrokenPipe | Unsupported | OtherIo

datatype wal_error =
  WalIo io_error | Backpressure rstring | WriterStopped | InvalidConfig rstring | Corruption rstring

abbreviation corrupt :: "string \<Rightarrow> wal_error" where
  "corrupt s \<equiv> Corruption (str s)"

text \<open>Durations from the source's units, in nanoseconds.\<close>
abbreviation from_secs :: "nat \<Rightarrow> duration" where
  "from_secs s \<equiv> s * 1000000000"

abbreviation from_millis :: "nat \<Rightarrow> duration" where
  "from_millis ms \<equiv> ms * 1000000"

record broker_config =
  cfg_default_qos :: qos
  cfg_message_ttl :: duration
  cfg_queue_capacity :: nat
  cfg_max_retries :: u32
  cfg_retry_base_delay :: duration
  cfg_slow_consumer_policy :: slow_consumer_policy
  cfg_slow_consumer_buffer_bytes :: nat
  cfg_dlq_suffix :: "rstring option"

definition broker_config_default :: broker_config where
  "broker_config_default =
     \<lparr>cfg_default_qos = AtMostOnce, cfg_message_ttl = from_secs 60, cfg_queue_capacity = 1024,
      cfg_max_retries = 3, cfg_retry_base_delay = from_millis 50,
      cfg_slow_consumer_policy = DropNewest, cfg_slow_consumer_buffer_bytes = 16 * 1024 * 1024,
      cfg_dlq_suffix = Some (str ''.dlq'')\<rparr>"

record delivery_handle =
  dh_subscription_id :: u64
  dh_topic :: rstring
  dh_payload :: bytes
  dh_qos :: qos
  dh_delivery_tag :: u64

record polled_message =
  pm_subscription_id :: u64
  pm_topic :: rstring
  pm_payload :: bytes
  pm_qos :: qos
  pm_delivery_tag :: "u64 option"

text \<open>A record of the write-ahead log.\<close>
record wal_record =
  rec_id :: u64
  rec_payload :: bytes

section \<open>Decimal numbers\<close>

fun show_nat :: "nat \<Rightarrow> rstring" where
  "show_nat n = (if n < 10 then [48 + of_nat n] else show_nat (n div 10) @ [48 + of_nat (n mod 10)])"

declare show_nat.simps [simp del]

definition is_digit :: "u8 \<Rightarrow> bool" where
  "is_digit b \<longleftrightarrow> 48 \<le> b \<and> b \<le> 57"

text \<open>\<open>str::parse::<u64>\<close>: an optional plus sign, then decimal digits without overflow.\<close>
definition digits_value :: "rstring \<Rightarrow> nat" where
  "digits_value ds = foldl (\<lambda>a d. a * 10 + (unat d - 48)) 0 ds"

definition parse_u64 :: "rstring \<Rightarrow> u64 option" where
  "parse_u64 s =
     (let ds = (case s of c # r \<Rightarrow> if c = 43 then r else s | [] \<Rightarrow> s) in
      if ds \<noteq> [] \<and> list_all is_digit ds \<and> fits_u64 (digits_value ds)
      then Some (of_nat (digits_value ds)) else None)"

lemma digits_value_snoc: "digits_value (ds @ [d]) = digits_value ds * 10 + (unat d - 48)"
  by (simp add: digits_value_def)

lemma digit_unat: "n < 10 \<Longrightarrow> unat (48 + of_nat n :: u8) = 48 + n"
  by (simp add: unat_word_ariths unat_of_nat take_bit_nat_eq_self)

lemma digit_is_digit: "n < 10 \<Longrightarrow> is_digit (48 + of_nat n)"
  by (simp add: is_digit_def word_le_nat_alt digit_unat)

lemma show_nat_not_Nil [simp]: "show_nat n \<noteq> []"
  by (subst show_nat.simps) simp

lemma show_nat_digits: "list_all is_digit (show_nat n)"
  by (induction n rule: show_nat.induct) (subst show_nat.simps, auto simp: digit_is_digit)

lemma digits_value_show [simp]: "digits_value (show_nat n) = n"
proof (induction n rule: show_nat.induct)
  case (1 n)
  then show ?case
    by (subst show_nat.simps)
      (auto simp: digits_value_snoc digit_unat, simp add: digits_value_def digit_unat)
qed

lemma digit_not_plus: "is_digit d \<Longrightarrow> d \<noteq> 43"
  by (auto simp: is_digit_def)

lemma parse_u64_digits:
  "ds \<noteq> [] \<Longrightarrow> list_all is_digit ds \<Longrightarrow> digits_value ds < 2 ^ 64 \<Longrightarrow>
     parse_u64 ds = Some (of_nat (digits_value ds))"
  by (cases ds) (auto simp: parse_u64_def Let_def dest: digit_not_plus)

end
