(* ===== verification/Wal_Format.thy ===== *)
theory Wal_Format
  imports Core_Types
begin

text \<open>
  The file format of the write-ahead log, \<open>wal/src/lib.rs\<close>: segment names, the
  segment header, records with their CRC, and the scan of a segment. A file is the
  list of its bytes; CRC-32 is an argument. Reading stops quietly at a short tail
  and fails on a record whose checksum does not match.
\<close>

section \<open>Little-endian integers\<close>

definition le_bytes :: "nat \<Rightarrow> nat \<Rightarrow> bytes" where
  "le_bytes n v = rev (be_bytes n v)"

definition le_nat :: "bytes \<Rightarrow> nat" where
  "le_nat bs = be_nat (rev bs)"

section \<open>Constants and headers\<close>

definition HEADER_MAGIC :: bytes where
  "HEADER_MAGIC = str ''BLIPWAL'' @ [0]"

definition HEADER_VERSION :: u32 where
  "HEADER_VERSION = 3"

definition HEADER_LEN :: nat where
  "HEADER_LEN = 32"

definition RECORD_HEADER_LEN :: nat where
  "RECORD_HEADER_LEN = 8 + 4 + 4"

definition SEGMENT_PREFIX :: rstring where
  "SEGMENT_PREFIX = str ''wal-''"

definition SEGMENT_SUFFIX :: rstring where
  "SEGMENT_SUFFIX = str ''.log''"

definition DEFAULT_SEGMENT_BYTES :: nat where
  "DEFAULT_SEGMENT_BYTES = 256 * 1024 * 1024"

text \<open>What \<open>write_header\<close> writes.\<close>
definition write_header :: bytes where
  "write_header = HEADER_MAGIC @ le_bytes 4 (unat HEADER_VERSION) @ replicate (HEADER_LEN - 12) 0"

definition validate_header :: "bytes \<Rightarrow> (wal_error, unit) result" where
  "validate_header data =
     (if length data < HEADER_LEN then Err (corrupt ''unexpected EOF while reading WAL header'')
      else if take 8 data \<noteq> HEADER_MAGIC then Err (corrupt ''invalid WAL magic'')
      else let version = (of_nat (le_nat (take 4 (drop 8 data))) :: u32) in
        if version \<noteq> HEADER_VERSION
        then Err (Corruption (str ''unsupported WAL version: '' @ show_nat (unat version)))
        else Ok ())"

section \<open>Segment names\<close>

text \<open>The file name of a segment: the number zero-padded to 20 digits.\<close>
definition segment_name :: "u64 \<Rightarrow> rstring" where
  "segment_name seq =
     (let ds = show_nat (unat seq)
      in SEGMENT_PREFIX @ replicate (20 - length ds) 48 @ ds @ SEGMENT_SUFFIX)"

definition strip_prefix :: "rstring \<Rightarrow> rstring \<Rightarrow> rstring option" where
  "strip_prefix p s = (if take (length p) s = p then Some (drop (length p) s) else None)"

definition strip_suffix :: "rstring \<Rightarrow> rstring \<Rightarrow> rstring option" where
  "strip_suffix p s =
     (if length p \<le> length s \<and> drop (length s - length p) s = p
      then Some (take (length s - length p) s) else None)"

definition parse_segment_seq :: "rstring \<Rightarrow> u64 option" where
  "parse_segment_seq name =
     (case strip_prefix SEGMENT_PREFIX name of
        Some s \<Rightarrow> (case strip_suffix SEGMENT_SUFFIX s of Some ds \<Rightarrow> parse_u64 ds | None \<Rightarrow> None)
      | None \<Rightarrow> None)"

section \<open>Records\<close>

text \<open>The header of a record: id, length, and the CRC of both with the payload.\<close>
definition record_header :: "(bytes \<Rightarrow> u32) \<Rightarrow> u64 \<Rightarrow> bytes \<Rightarrow> bytes" where
  "record_header crc32 i payload =
     (let h = le_bytes 8 (unat i) @ le_bytes 4 (length payload)
      in h @ le_bytes 4 (unat (crc32 (h @ payload))))"

definition encode_record :: "(bytes \<Rightarrow> u32) \<Rightarrow> u64 \<Rightarrow> bytes \<Rightarrow> bytes" where
  "encode_record crc32 i payload = record_header crc32 i payload @ payload"

definition hex_digit :: "nat \<Rightarrow> u8" where
  "hex_digit d = (if d < 10 then 48 + of_nat d else 87 + of_nat d)"

text \<open>The format \<open>:08x\<close>.\<close>
definition hex8 :: "u32 \<Rightarrow> rstring" where
  "hex8 w = map (\<lambda>i. hex_digit (unat w div 16 ^ (7 - i) mod 16)) [0..<8]"

definition crc_mismatch :: "nat \<Rightarrow> u32 \<Rightarrow> u32 \<Rightarrow> wal_error" where
  "crc_mismatch offset expected actual =
     Corruption (str ''CRC mismatch at offset '' @ show_nat offset @ str '': expected '' @ hex8 expected @
       str '', got '' @ hex8 actual)"

text \<open>The next record of a file read from an offset: id, payload, offset and length.\<close>
definition read_next_record ::
  "(bytes \<Rightarrow> u32) \<Rightarrow> bytes \<Rightarrow> nat \<Rightarrow> (wal_error, (u64 \<times> bytes \<times> nat \<times> nat) option) result" where
  "read_next_record crc32 data current_offset =
     (let rest = drop current_offset data in
      if length rest < RECORD_HEADER_LEN then Ok None
      else
        let header = take RECORD_HEADER_LEN rest;
            i = of_nat (le_nat (take 8 header));
            len = le_nat (take 4 (drop 8 header));
            expected_crc = of_nat (le_nat (take 4 (drop 12 header)));
            rest = drop RECORD_HEADER_LEN rest
        in if length rest < len then Ok None
           else
             let payload = take len rest;
                 actual_crc = crc32 (take 12 header @ payload)
             in if actual_crc \<noteq> expected_crc
                then Err (crc_mismatch current_offset expected_crc actual_crc)
                else Ok (Some (i, payload, current_offset, RECORD_HEADER_LEN + len)))"

lemma read_next_record_advances:
  "read_next_record crc32 data off = Ok (Some (i, payload, off', total_len)) \<Longrightarrow>
     off < length data \<and> 0 < total_len"
  by (auto simp: read_next_record_def Let_def RECORD_HEADER_LEN_def split: if_splits)

text \<open>The records of a segment from an offset to its end, with the end offset.\<close>
function scan_from ::
  "(bytes \<Rightarrow> u32) \<Rightarrow> bytes \<Rightarrow> nat \<Rightarrow> (wal_error, (u64 \<times> bytes \<times> nat) list \<times> nat) result" where
  "scan_from crc32 data off =
     (case read_next_record crc32 data off of
        Ok (Some (i, payload, record_offset, total_len)) \<Rightarrow>
          (if fits_u64 (off + total_len) then
             and_then (scan_from crc32 data (off + total_len)) (\<lambda>(rs, end_off).
             Ok ((i, payload, record_offset) # rs, end_off))
           else Err (corrupt ''offset overflow''))
      | Ok None \<Rightarrow> Ok ([], off)
      | Err e \<Rightarrow> Err e
      | Panic \<Rightarrow> Panic)"
  by pat_completeness auto
termination
  by (relation "measure (\<lambda>(_, data, off). length data - off)") (auto dest!: read_next_record_advances)

declare scan_from.simps [simp del]

text \<open>\<open>rebuild_segment_index\<close>: the ids with their offsets, the next id, the end offset.\<close>
definition rebuild_segment_index ::
  "(bytes \<Rightarrow> u32) \<Rightarrow> bytes \<Rightarrow> (wal_error, (u64 \<times> nat) list \<times> u64 \<times> nat) result" where
  "rebuild_segment_index crc32 data =
     and_then (scan_from crc32 data HEADER_LEN) (\<lambda>(rs, end_off).
     Ok (map (\<lambda>(i, _, off). (i, off)) rs, foldl (\<lambda>_ (i, _, _). i + 1) 1 rs, end_off))"

section \<open>Lemmas\<close>

lemma length_le_bytes [simp]: "length (le_bytes n v) = n"
  by (simp add: le_bytes_def)

lemma le_nat_bytes: "v < 256 ^ n \<Longrightarrow> le_nat (le_bytes n v) = v"
  by (simp add: le_nat_def le_bytes_def be_nat_be_bytes)

lemma length_record_header [simp]: "length (record_header crc32 i p) = 16"
  by (simp add: record_header_def Let_def)

lemma length_encode_record [simp]: "length (encode_record crc32 i p) = 16 + length p"
  by (simp add: encode_record_def)

lemma length_write_header [simp]: "length write_header = 32"
  by (simp add: write_header_def HEADER_MAGIC_def HEADER_LEN_def str_def)

lemma validate_write_header: "validate_header (write_header @ rest) = Ok ()"
proof -
  have "le_nat (le_bytes 4 (unat HEADER_VERSION)) = 3"
    by (simp add: le_nat_bytes HEADER_VERSION_def)
  then show ?thesis
    by (simp add: validate_header_def write_header_def HEADER_MAGIC_def HEADER_LEN_def str_def
        HEADER_VERSION_def)
qed

section \<open>Scanning what was written\<close>

abbreviation encode_records :: "(bytes \<Rightarrow> u32) \<Rightarrow> (u64 \<times> bytes) list \<Rightarrow> bytes" where
  "encode_records crc32 rs \<equiv> concat (map (\<lambda>(i, p). encode_record crc32 i p) rs)"

text \<open>The records of a segment with their offsets.\<close>
fun located :: "nat \<Rightarrow> (u64 \<times> bytes) list \<Rightarrow> (u64 \<times> bytes \<times> nat) list" where
  "located off [] = []"
| "located off ((i, p) # rs) = (i, p, off) # located (off + (16 + length p)) rs"

abbreviation payloads_fit :: "(u64 \<times> bytes) list \<Rightarrow> bool" where
  "payloads_fit rs \<equiv> \<forall>(i, p) \<in> set rs. length p < 2 ^ 32"

text \<open>A record cut off before its end.\<close>
definition torn :: "(bytes \<Rightarrow> u32) \<Rightarrow> bytes \<Rightarrow> bool" where
  "torn crc32 t \<longleftrightarrow>
     t = [] \<or> (\<exists>i p n. n < 16 + length p \<and> length p < 2 ^ 32 \<and> t = take n (encode_record crc32 i p))"

lemma le_nat_unat [simp]:
  "of_nat (le_nat (le_bytes 8 (unat i))) = (i :: u64)"
  "of_nat (le_nat (le_bytes 4 (unat w))) = (w :: u32)"
  by (simp_all add: le_nat_bytes)

lemma read_next_record_encoded:
  assumes "length p < 2 ^ 32"
  shows "read_next_record crc32 (pre @ encode_record crc32 i p @ rest) (length pre) =
    Ok (Some (i, p, length pre, 16 + length p))"
  using assms
  by (simp add: read_next_record_def encode_record_def record_header_def Let_def RECORD_HEADER_LEN_def
      le_nat_bytes)

lemma read_next_record_torn:
  assumes "torn crc32 t"
  shows "read_next_record crc32 (pre @ t) (length pre) = Ok None"
proof (cases "length t < 16")
  case True
  then show ?thesis by (simp add: read_next_record_def RECORD_HEADER_LEN_def)
next
  case False
  with assms obtain i p n where n: "n < 16 + length p" "length p < 2 ^ 32"
    and t: "t = take n (encode_record crc32 i p)" by (auto simp: torn_def)
  with False have "t = record_header crc32 i p @ take (n - 16) p" by (auto simp: encode_record_def)
  moreover from False n t have "n - 16 < length p" by auto
  ultimately show ?thesis using n(2)
    by (simp add: read_next_record_def record_header_def Let_def RECORD_HEADER_LEN_def le_nat_bytes)
qed

lemma length_encode_records_Cons:
  "length (encode_records crc32 ((i, p) # rs)) = 16 + length p + length (encode_records crc32 rs)"
  by simp

text \<open>A scan returns the records up to the torn tail.\<close>
lemma scan_from_encoded:
  assumes "payloads_fit rs" "torn crc32 t" "length pre + length (encode_records crc32 rs) < 2 ^ 64"
  shows "scan_from crc32 (pre @ encode_records crc32 rs @ t) (length pre) =
    Ok (located (length pre) rs, length pre + length (encode_records crc32 rs))"
  using assms
proof (induction rs arbitrary: pre)
  case Nil
  then show ?case by (subst scan_from.simps) (simp add: read_next_record_torn)
next
  case (Cons r rs)
  obtain i p where r: "r = (i, p)" by force
  let ?pre = "pre @ encode_record crc32 i p"
  have "scan_from crc32 (?pre @ encode_records crc32 rs @ t) (length ?pre) =
      Ok (located (length ?pre) rs, length ?pre + length (encode_records crc32 rs))"
    using Cons.prems r by (intro Cons.IH) auto
  moreover have "read_next_record crc32 (pre @ encode_record crc32 i p @ encode_records crc32 rs @ t) (length pre) =
      Ok (Some (i, p, length pre, 16 + length p))"
    using Cons.prems r by (intro read_next_record_encoded) auto
  ultimately show ?case
    using Cons.prems r by (subst scan_from.simps) (simp add: add.assoc)
qed

lemma torn_take: "torn crc32 t \<Longrightarrow> torn crc32 (take k t)"
  unfolding torn_def
proof (elim disjE exE conjE)
  fix i p n assume "n < 16 + length p" "length p < 2 ^ 32" "t = take n (encode_record crc32 i p)"
  then show "take k t = [] \<or> (\<exists>i p n. n < 16 + length p \<and> length p < 2 ^ 32 \<and>
      take k t = take n (encode_record crc32 i p))"
    by (intro disjI2 exI [of _ i] exI [of _ p] exI [of _ "min k n"]) simp
qed simp

text \<open>Cutting a segment anywhere leaves whole records and a torn tail.\<close>
lemma take_encode_records:
  assumes "payloads_fit rs" "torn crc32 t"
  shows "\<exists>k t'. take n (encode_records crc32 rs @ t) = encode_records crc32 (take k rs) @ t' \<and>
    torn crc32 t' \<and> (\<forall>m. length (encode_records crc32 (take m rs)) \<le> n \<longrightarrow> take m rs = take (min m k) rs)"
  using assms
proof (induction rs arbitrary: n)
  case Nil
  from Nil.prems have "torn crc32 (take n t)"
    by (simp add: torn_take)
  then show ?case by force
next
  case (Cons r rs)
  obtain i p where r: "r = (i, p)" by force
  let ?e = "encode_record crc32 i p"
  show ?case
  proof (cases "n < length ?e")
    case True
    then have "torn crc32 (take n ?e)" using Cons.prems r by (auto simp: torn_def)
    moreover have "m = 0" if "length (encode_records crc32 (take m (r # rs))) \<le> n" for m
      using that True r by (cases m) auto
    ultimately show ?thesis using True r
      by (intro exI [of _ 0] exI [of _ "take n ?e"]) auto
  next
    case False
    from Cons obtain k t' where IH:
      "take (n - length ?e) (encode_records crc32 rs @ t) = encode_records crc32 (take k rs) @ t'" "torn crc32 t'"
      "\<And>m. length (encode_records crc32 (take m rs)) \<le> n - length ?e \<Longrightarrow> take m rs = take (min m k) rs"
      by (metis list.set_intros(2))
    have "take m (r # rs) = take (min m (Suc k)) (r # rs)"
      if "length (encode_records crc32 (take m (r # rs))) \<le> n" for m
    proof (cases m)
      case (Suc m')
      then show ?thesis using IH(3) [of m'] that r by auto
    qed simp
    with False IH r show ?thesis by (intro exI [of _ "Suc k"] exI [of _ t']) auto
  qed
qed

lemma map_located [simp]: "map (\<lambda>(i, p, _). (i, p)) (located off rs) = rs"
  by (induction off rs rule: located.induct) auto

lemma located_append:
  "located off (rs @ rs') = located off rs @ located (off + length (encode_records crc32 rs)) rs'"
  by (induction off rs rule: located.induct) (auto simp: add.assoc)

section \<open>Segment names\<close>

lemma digits_value_zeros: "digits_value (replicate n 48 @ ds) = digits_value ds"
  by (induction n) (simp_all add: digits_value_def)

lemma parse_segment_name [simp]: "parse_segment_seq (segment_name seq) = Some seq"
proof -
  let ?ds = "replicate (20 - length (show_nat (unat seq))) 48 @ show_nat (unat seq)"
  have "is_digit 48" by (simp add: is_digit_def)
  then have "list_all is_digit ?ds" using show_nat_digits [of "unat seq"] by (auto simp: list_all_iff)
  then have "parse_u64 ?ds = Some seq"
    by (simp add: parse_u64_digits digits_value_zeros show_nat_not_Nil)
  moreover have "strip_prefix SEGMENT_PREFIX (segment_name seq) = Some (?ds @ SEGMENT_SUFFIX)"
    by (simp add: strip_prefix_def segment_name_def Let_def)
  moreover have "strip_suffix SEGMENT_SUFFIX (?ds @ SEGMENT_SUFFIX) = Some ?ds"
    by (simp add: strip_suffix_def)
  ultimately show ?thesis by (simp add: parse_segment_seq_def)
qed

lemma segment_name_inj [simp]: "segment_name a = segment_name b \<longleftrightarrow> a = b"
  by (metis option.inject parse_segment_name)

section \<open>The index of a segment\<close>

lemma length_HEADER_LEN: "HEADER_LEN = length write_header"
  by (simp add: HEADER_LEN_def)

lemma scan_segment:
  assumes "payloads_fit rs" "torn crc32 t" "length (write_header @ encode_records crc32 rs) < 2 ^ 64"
  shows "scan_from crc32 (write_header @ encode_records crc32 rs @ t) HEADER_LEN =
    Ok (located HEADER_LEN rs, HEADER_LEN + length (encode_records crc32 rs))"
  using assms scan_from_encoded [of rs crc32 t write_header] by (simp add: length_HEADER_LEN)

text \<open>A scan from the start of a record returns that record and the ones behind it.\<close>
lemma scan_segment_from:
  assumes "payloads_fit (rs @ rs')" "torn crc32 t" "length (write_header @ encode_records crc32 (rs @ rs')) < 2 ^ 64"
  shows "\<exists>e. scan_from crc32 (write_header @ encode_records crc32 (rs @ rs') @ t)
      (HEADER_LEN + length (encode_records crc32 rs)) =
    Ok (located (HEADER_LEN + length (encode_records crc32 rs)) rs', e)"
  using assms scan_from_encoded [of rs' crc32 t "write_header @ encode_records crc32 rs"]
  by (simp add: length_HEADER_LEN)

lemma rebuild_segment_index_encoded:
  assumes "payloads_fit rs" "torn crc32 t" "length (write_header @ encode_records crc32 rs) < 2 ^ 64"
  shows "\<exists>nid. rebuild_segment_index crc32 (write_header @ encode_records crc32 rs @ t) =
    Ok (map (\<lambda>(i, _, off). (i, off)) (located HEADER_LEN rs), nid, HEADER_LEN + length (encode_records crc32 rs))"
  using scan_segment [OF assms] by (simp add: rebuild_segment_index_def)

end
