(* ===== verification/Wal.thy ===== *)
theory Wal
  imports Wal_Format
begin

text \<open>
  The segmented write-ahead log, \<open>wal/src/lib.rs\<close>. The state holds the directory
  (names to inodes, inodes to files), the index, the bounded channel to the writer
  task and the writer's own fields. A file has its bytes and the length of the
  prefix that is on disk; the crash model is in \<open>Wal_Inv\<close>.

  The outcomes of I/O operations are arguments. As \<open>tokio::fs::File\<close> documents, a
  write may return before it is performed; its error is then reported by the next
  write or flush (\<open>WriteDeferred\<close>). Appenders, the writer and the compactor are
  separate steps on the state, so that every interleaving of them is a sequence of
  steps; a batch of the writer is what the channel holds when the writer wakes.
\<close>

section \<open>Data\<close>

record wal_config =
  fsync_every_n :: "nat option"
  fsync_interval :: "duration option"
  channel_capacity :: nat
  segment_bytes :: u64

definition wal_config_default :: wal_config where
  "wal_config_default =
     \<lparr>fsync_every_n = Some 64, fsync_interval = None, channel_capacity = 1024,
      segment_bytes = of_nat DEFAULT_SEGMENT_BYTES\<rparr>"

record record_location =
  segment_seq :: u64
  offset_in_segment :: nat

text \<open>The sender of a oneshot channel is the number of the channel.\<close>
record wal_write_request =
  req_id :: u64
  req_header :: bytes
  req_payload :: bytes
  req_durable_ack :: "nat option"

datatype wal_message = RecordMsg wal_write_request | FlushMsg nat

record wal_file =
  wf_data :: bytes
  wf_synced :: nat

type_synonym wal_files = "(rstring, wal_file) hash_map"

text \<open>What is at the path of the log.\<close>
datatype wal_path = PathMissing | PathIsFile | PathIsDir wal_files

record wal_state =
  wal_names :: "(rstring, nat) hash_map"
  wal_inodes :: "wal_file list"
  wal_index :: "(u64, record_location) hash_map"
  wal_channel :: "wal_message list"
  wal_next_id :: u64
  append_count :: u64
  bytes_written :: u64
  current_segment_seq :: u64
  wal_cfg :: wal_config
  wr_running :: bool
  wr_file :: nat
  wr_pos :: nat
  wr_error :: "io_error option"
  current_offset :: nat
  unflushed_records :: nat
  last_fsync :: instant
  pending_durable_acks :: "nat list"
  oneshots :: nat
  signals :: "(nat, (wal_error, unit) result) hash_map"

section \<open>Outcomes of I/O operations\<close>

datatype write_outcome = Written | WriteFailed nat io_error | WriteDeferred nat io_error

text \<open>Opening the log: the directory, its listing, the segments read, the first
  segment created and its header written (or cut after some bytes), the tail reopened.\<close>
record open_io =
  oi_mkdir :: "io_error option"
  oi_list :: "io_error option"
  oi_read :: "u64 \<Rightarrow> io_error option"
  oi_create :: "io_error option"
  oi_header :: "(nat \<times> io_error) option"
  oi_tail :: "io_error option"

text \<open>One round of the writer's loop; \<open>wi_text\<close> is the text of an I/O error.\<close>
record writer_io =
  wi_roll_sync :: "io_error option"
  wi_create :: "io_error option"
  wi_header :: "(nat \<times> io_error) option"
  wi_write :: write_outcome
  wi_sync :: "io_error option"
  wi_flush_sync :: "io_error option"
  wi_text :: "io_error \<Rightarrow> rstring"

record dir_io =
  di_list :: "io_error option"
  di_file :: "u64 \<Rightarrow> io_error option"

abbreviation files_of :: "wal_state \<Rightarrow> wal_files" where
  "files_of s \<equiv> map (\<lambda>(name, i). (name, wal_inodes s ! i)) (wal_names s)"

section \<open>Opening\<close>

definition list_segment_seqs :: "io_error option \<Rightarrow> (rstring, 'f) hash_map \<Rightarrow> (wal_error, u64 list) result" where
  "list_segment_seqs err dir =
     (case err of
        Some NotFound \<Rightarrow> Ok []
      | Some e \<Rightarrow> Err (WalIo e)
      | None \<Rightarrow> Ok (List.map_filter (\<lambda>(name, _). parse_segment_seq name) dir))"

text \<open>A new file with \<open>write_header\<close> run on it.\<close>
definition header_file :: "(nat \<times> io_error) option \<Rightarrow> (wal_error, unit) result \<times> wal_file" where
  "header_file out =
     (case out of
        None \<Rightarrow> (Ok (), \<lparr>wf_data = write_header, wf_synced = length write_header\<rparr>)
      | Some (n, e) \<Rightarrow> (Err (WalIo e), \<lparr>wf_data = take n write_header, wf_synced = 0\<rparr>))"

definition index_record ::
  "u64 \<Rightarrow> (u64, record_location) hash_map \<times> u64 \<Rightarrow> u64 \<times> nat \<Rightarrow> (u64, record_location) hash_map \<times> u64" where
  "index_record seq acc r =
     (case (acc, r) of ((index, next_id), (i, off)) \<Rightarrow>
        (hm_insert i \<lparr>segment_seq = seq, offset_in_segment = off\<rparr> index,
         if i \<ge> next_id then i + 1 else next_id))"

fun load_segments ::
  "(bytes \<Rightarrow> u32) \<Rightarrow> (u64 \<Rightarrow> io_error option) \<Rightarrow> wal_files \<Rightarrow> u64 list \<Rightarrow>
   ((u64, record_location) hash_map \<times> u64) \<Rightarrow> u64 \<times> nat \<Rightarrow>
   (wal_error, ((u64, record_location) hash_map \<times> u64) \<times> u64 \<times> nat) result" where
  "load_segments crc32 read_err files [] acc tail = Ok (acc, tail)"
| "load_segments crc32 read_err files (seq # seqs) acc tail =
     (case (read_err seq, hm_get files (segment_name seq)) of
        (Some e, _) \<Rightarrow> Err (WalIo e)
      | (None, None) \<Rightarrow> Err (WalIo NotFound)
      | (None, Some f) \<Rightarrow>
          and_then (validate_header (wf_data f)) (\<lambda>_.
          and_then (rebuild_segment_index crc32 (wf_data f)) (\<lambda>(recs, _, end_offset).
          load_segments crc32 read_err files seqs (foldl (index_record seq) acc recs) (seq, end_offset))))"

definition wal_opened ::
  "wal_config \<Rightarrow> instant \<Rightarrow> wal_files \<Rightarrow> (u64, record_location) hash_map \<times> u64 \<Rightarrow> u64 \<Rightarrow> nat \<Rightarrow> nat \<Rightarrow>
   wal_state" where
  "wal_opened cfg now files acc seq file off =
     \<lparr>wal_names = map (\<lambda>i. (fst (files ! i), i)) [0..<length files], wal_inodes = map snd files,
      wal_index = fst acc, wal_channel = [], wal_next_id = snd acc, append_count = 0,
      bytes_written = 0, current_segment_seq = seq, wal_cfg = cfg, wr_running = True,
      wr_file = file, wr_pos = off, wr_error = None, current_offset = off, unflushed_records = 0,
      last_fsync = now, pending_durable_acks = [], oneshots = 0, signals = []\<rparr>"

text \<open>Creating segment 1 in a directory without segments.\<close>
definition open_fresh ::
  "wal_config \<Rightarrow> open_io \<Rightarrow> instant \<Rightarrow> wal_files \<Rightarrow> (wal_error, wal_state) result \<times> wal_files" where
  "open_fresh cfg io now files =
     (if hm_get files (segment_name 1) \<noteq> None then (Err (WalIo OtherIo), files)
      else case oi_create io of
        Some e \<Rightarrow> (Err (WalIo e), files)
      | None \<Rightarrow>
          (let (r, f) = header_file (oi_header io); files' = files @ [(segment_name 1, f)]
           in (and_then r (\<lambda>_. Ok (wal_opened cfg now files' ([], 1) 1 (length files) HEADER_LEN)), files')))"

text \<open>The position of a name in the directory, its inode number after opening.\<close>
definition file_index :: "wal_files \<Rightarrow> rstring \<Rightarrow> nat" where
  "file_index files name = length (takeWhile (\<lambda>(n, _). n \<noteq> name) files)"

definition open_existing ::
  "(bytes \<Rightarrow> u32) \<Rightarrow> wal_config \<Rightarrow> open_io \<Rightarrow> instant \<Rightarrow> wal_files \<Rightarrow> u64 list \<Rightarrow>
   (wal_error, wal_state) result" where
  "open_existing crc32 cfg io now files segment_seqs =
     and_then (load_segments crc32 (oi_read io) files segment_seqs ([], 1) (last segment_seqs, HEADER_LEN))
       (\<lambda>(acc, tail_seq, tail_offset).
        case oi_tail io of
          Some e \<Rightarrow> Err (WalIo e)
        | None \<Rightarrow> Ok (wal_opened cfg now files acc tail_seq (file_index files (segment_name tail_seq)) tail_offset))"

text \<open>\<open>open_with_config\<close>, with the path it leaves behind. \<open>display\<close> is the text of the path.\<close>
definition open_with_config ::
  "(bytes \<Rightarrow> u32) \<Rightarrow> rstring \<Rightarrow> wal_config \<Rightarrow> open_io \<Rightarrow> instant \<Rightarrow> wal_path \<Rightarrow>
   (wal_error, wal_state) result \<times> wal_path" where
  "open_with_config crc32 display cfg io now path =
     (if channel_capacity cfg = 0
      then (Err (InvalidConfig (str ''channel_capacity must be greater than 0'')), path)
      else if segment_bytes cfg < of_nat (HEADER_LEN + RECORD_HEADER_LEN)
      then (Err (InvalidConfig (str ''segment_bytes too small to hold one record'')), path)
      else if path = PathIsFile
      then (Err (InvalidConfig (display @ str ('' is a file; segmented WAL expects a directory. '' @
             ''Drain old single-file WALs before upgrading.''))), path)
      else case oi_mkdir io of
        Some e \<Rightarrow> (Err (WalIo e), path)
      | None \<Rightarrow>
          (let files = (case path of PathIsDir fs \<Rightarrow> fs | _ \<Rightarrow> []) in
           case list_segment_seqs (oi_list io) files of
             Ok seqs \<Rightarrow>
               (let segment_seqs = sort seqs in
                if segment_seqs = []
                then (let (r, files) = open_fresh cfg io now files in (r, PathIsDir files))
                else (open_existing crc32 cfg io now files segment_seqs, PathIsDir files))
           | Err e \<Rightarrow> (Err e, PathIsDir files)
           | Panic \<Rightarrow> (Panic, PathIsDir files)))"

definition wal_open ::
  "(bytes \<Rightarrow> u32) \<Rightarrow> rstring \<Rightarrow> open_io \<Rightarrow> instant \<Rightarrow> wal_path \<Rightarrow> (wal_error, wal_state) result \<times> wal_path" where
  "wal_open crc32 display = open_with_config crc32 display wal_config_default"

section \<open>Appending\<close>

definition build_request ::
  "(bytes \<Rightarrow> u32) \<Rightarrow> bytes \<Rightarrow> nat option \<Rightarrow> wal_state \<Rightarrow>
   (wal_error, u64 \<times> wal_write_request) result \<times> wal_state" where
  "build_request crc32 data durable_ack s =
     (let i = wal_next_id s; s = s\<lparr>wal_next_id := i + 1\<rparr>
      in (and_then (u32_try_from (corrupt ''record too large'') (length data)) (\<lambda>_.
          Ok (i, \<lparr>req_id = i, req_header = record_header crc32 i data, req_payload = data,
                  req_durable_ack = durable_ack\<rparr>)), s))"

definition send_request :: "wal_write_request \<Rightarrow> wal_state \<Rightarrow> (wal_error, unit) result \<times> wal_state" where
  "send_request request s =
     (if \<not> wr_running s then (Err WriterStopped, s)
      else if length (wal_channel s) \<ge> channel_capacity (wal_cfg s)
      then (Err (Backpressure (str ''wal channel full'')), s)
      else (Ok (), s\<lparr>wal_channel := wal_channel s @ [RecordMsg request]\<rparr>))"

text \<open>\<open>append\<close>: queued for the writer when it returns.\<close>
definition wal_append :: "(bytes \<Rightarrow> u32) \<Rightarrow> bytes \<Rightarrow> wal_state \<Rightarrow> (wal_error, u64) result \<times> wal_state" where
  "wal_append crc32 data s =
     (case build_request crc32 data None s of
        (Ok (i, request), s) \<Rightarrow> (case send_request request s of (r, s) \<Rightarrow> (and_then r (\<lambda>_. Ok i), s))
      | (Err e, s) \<Rightarrow> (Err e, s)
      | (Panic, s) \<Rightarrow> (Panic, s))"

text \<open>\<open>append_durable\<close> up to the await: the id and the oneshot channel to wait on.\<close>
definition append_durable_start ::
  "(bytes \<Rightarrow> u32) \<Rightarrow> bytes \<Rightarrow> wal_state \<Rightarrow> (wal_error, u64 \<times> nat) result \<times> wal_state" where
  "append_durable_start crc32 data s =
     (let tok = oneshots s; s = s\<lparr>oneshots := tok + 1\<rparr> in
      case build_request crc32 data (Some tok) s of
        (Ok (i, request), s) \<Rightarrow> (case send_request request s of (r, s) \<Rightarrow> (and_then r (\<lambda>_. Ok (i, tok)), s))
      | (Err e, s) \<Rightarrow> (Err e, s)
      | (Panic, s) \<Rightarrow> (Panic, s))"

text \<open>\<open>flush\<close> up to the await; \<open>None\<close> while the channel is full and the sender waits.\<close>
definition flush_start :: "wal_state \<Rightarrow> (wal_error, nat) result option \<times> wal_state" where
  "flush_start s =
     (if \<not> wr_running s then (Some (Err WriterStopped), s)
      else if length (wal_channel s) \<ge> channel_capacity (wal_cfg s) then (None, s)
      else (Some (Ok (oneshots s)),
            s\<lparr>oneshots := oneshots s + 1, wal_channel := wal_channel s @ [FlushMsg (oneshots s)]\<rparr>))"

text \<open>Awaiting a oneshot: its value, or a closed channel once the writer is gone.\<close>
definition await_ack :: "nat \<Rightarrow> wal_state \<Rightarrow> (wal_error, unit) result option" where
  "await_ack tok s =
     (case hm_get (signals s) tok of
        Some r \<Rightarrow> Some r
      | None \<Rightarrow> if wr_running s then None else Some (Err WriterStopped))"

definition wal_metrics :: "wal_state \<Rightarrow> u64 \<times> u64" where
  "wal_metrics s = (append_count s, bytes_written s)"

definition lookup_offset :: "u64 \<Rightarrow> wal_state \<Rightarrow> record_location option" where
  "lookup_offset i s = hm_get (wal_index s) i"

definition active_segment_seq :: "wal_state \<Rightarrow> u64" where
  "active_segment_seq s = current_segment_seq s"

section \<open>Reading\<close>

fun read_segments ::
  "(bytes \<Rightarrow> u32) \<Rightarrow> dir_io \<Rightarrow> wal_files \<Rightarrow> u64 \<Rightarrow> nat \<Rightarrow> u64 \<Rightarrow> u64 list \<Rightarrow>
   (wal_error, wal_record list) result" where
  "read_segments crc32 io files start_seq start_offset min_id [] = Ok []"
| "read_segments crc32 io files start_seq start_offset min_id (seq # seqs) =
     (case (di_file io seq, hm_get files (segment_name seq)) of
        (Some e, _) \<Rightarrow> Err (WalIo e)
      | (None, None) \<Rightarrow> Err (WalIo NotFound)
      | (None, Some f) \<Rightarrow>
          and_then (scan_from crc32 (wf_data f) (if seq = start_seq then start_offset else HEADER_LEN))
            (\<lambda>(rs, _).
          and_then (read_segments crc32 io files start_seq start_offset min_id seqs) (\<lambda>records.
          Ok (map (\<lambda>(i, p, _). \<lparr>rec_id = i, rec_payload = p\<rparr>) (filter (\<lambda>(i, _, _). i \<ge> min_id) rs) @ records))))"

definition iterate_from ::
  "(bytes \<Rightarrow> u32) \<Rightarrow> dir_io \<Rightarrow> u64 \<Rightarrow> wal_state \<Rightarrow> (wal_error, wal_record list) result" where
  "iterate_from crc32 io from_id s =
     (let matching = filter (\<lambda>(i, _). i \<ge> from_id) (wal_index s) in
      if matching = [] then Ok []
      else let (min_id, loc) = hd (sort_key fst matching) in
        and_then (list_segment_seqs (di_list io) (files_of s)) (\<lambda>all_seqs.
        read_segments crc32 io (files_of s) (segment_seq loc) (offset_in_segment loc) min_id
          (filter (\<lambda>seq. seq \<ge> segment_seq loc) (sort all_seqs))))"

section \<open>The writer task\<close>

text \<open>Bytes written at the position of the writer's file; what is on disk beyond it may change.\<close>
definition write_bytes :: "bytes \<Rightarrow> wal_state \<Rightarrow> wal_state" where
  "write_bytes bs s =
     (let f = wal_inodes s ! wr_file s; d = wf_data f; pos = wr_pos s
      in s\<lparr>wal_inodes := (wal_inodes s)[wr_file s :=
             \<lparr>wf_data = take pos d @ replicate (pos - length d) 0 @ bs @ drop (pos + length bs) d,
              wf_synced = min (wf_synced f) pos\<rparr>],
           wr_pos := pos + length bs\<rparr>)"

definition write_all :: "write_outcome \<Rightarrow> bytes \<Rightarrow> wal_state \<Rightarrow> (wal_error, unit) result \<times> wal_state" where
  "write_all out bs s =
     (case wr_error s of
        Some e \<Rightarrow> (Err (WalIo e), s\<lparr>wr_error := None\<rparr>)
      | None \<Rightarrow>
          (case out of
             Written \<Rightarrow> (Ok (), write_bytes bs s)
           | WriteFailed n e \<Rightarrow> (Err (WalIo e), write_bytes (take n bs) s)
           | WriteDeferred n e \<Rightarrow> (Ok (), (write_bytes (take n bs) s)\<lparr>wr_error := Some e\<rparr>)))"

definition sync_file :: "wal_state \<Rightarrow> wal_state" where
  "sync_file s =
     s\<lparr>wal_inodes := (wal_inodes s)[wr_file s :=
         (wal_inodes s ! wr_file s)\<lparr>wf_synced := length (wf_data (wal_inodes s ! wr_file s))\<rparr>]\<rparr>"

definition flush_file ::
  "(io_error \<Rightarrow> rstring) \<Rightarrow> instant \<Rightarrow> io_error option \<Rightarrow> wal_state \<Rightarrow> (wal_error, unit) result \<times> wal_state" where
  "flush_file text now sync_err s =
     (let failure = (case wr_error s of Some e \<Rightarrow> Some e | None \<Rightarrow> sync_err);
          payload = (case failure of
              None \<Rightarrow> Ok ()
            | Some e \<Rightarrow> Err (Corruption (str ''wal fsync failed: I/O error: '' @ text e)));
          s = s\<lparr>wr_error := None, pending_durable_acks := [],
                signals := fold (\<lambda>tok. hm_insert tok payload) (pending_durable_acks s) (signals s)\<rparr>
      in case failure of
           None \<Rightarrow> (Ok (), (sync_file s)\<lparr>unflushed_records := 0, last_fsync := now\<rparr>)
         | Some e \<Rightarrow> (Err (WalIo e), s))"

definition maybe_sync :: "writer_io \<Rightarrow> instant \<Rightarrow> wal_state \<Rightarrow> (wal_error, unit) result \<times> wal_state" where
  "maybe_sync io now s =
     (let every_n = (case fsync_every_n (wal_cfg s) of Some n \<Rightarrow> unflushed_records s \<ge> n | None \<Rightarrow> False);
          interval = (case fsync_interval (wal_cfg s) of Some d \<Rightarrow> now - last_fsync s \<ge> d | None \<Rightarrow> False)
      in if every_n \<or> interval then flush_file (wi_text io) now (wi_sync io) s else (Ok (), s))"

definition roll_segment :: "writer_io \<Rightarrow> instant \<Rightarrow> wal_state \<Rightarrow> (wal_error, unit) result \<times> wal_state" where
  "roll_segment io now s =
     (case flush_file (wi_text io) now (wi_roll_sync io) s of
        (Ok _, s) \<Rightarrow>
          (if current_segment_seq s = - 1 then (Err (corrupt ''segment sequence overflow''), s)
           else let next_seq = current_segment_seq s + 1 in
             if hm_get (wal_names s) (segment_name next_seq) \<noteq> None then (Err (WalIo OtherIo), s)
             else case wi_create io of
               Some e \<Rightarrow> (Err (WalIo e), s)
             | None \<Rightarrow>
                 (let (r, f) = header_file (wi_header io); inode = length (wal_inodes s);
                      s = s\<lparr>wal_names := hm_insert (segment_name next_seq) inode (wal_names s),
                            wal_inodes := wal_inodes s @ [f]\<rparr>
                  in case r of
                       Ok _ \<Rightarrow> (Ok (), s\<lparr>wr_file := inode, wr_pos := HEADER_LEN,
                                          current_segment_seq := next_seq, current_offset := HEADER_LEN\<rparr>)
                     | e \<Rightarrow> (e, s)))
      | (e, s) \<Rightarrow> (e, s))"

definition collect_batch ::
  "wal_write_request \<Rightarrow> wal_message list \<Rightarrow> wal_write_request list \<times> nat option \<times> wal_message list" where
  "collect_batch first queue =
     (let recs = takeWhile (\<lambda>m. case m of RecordMsg _ \<Rightarrow> True | FlushMsg _ \<Rightarrow> False) queue;
          rest = drop (length recs) queue;
          reqs = first # List.map_filter (\<lambda>m. case m of RecordMsg r \<Rightarrow> Some r | FlushMsg _ \<Rightarrow> None) recs
      in case rest of
           FlushMsg tok # rest' \<Rightarrow> (reqs, Some tok, rest')
         | _ \<Rightarrow> (reqs, None, rest))"

fun batch_offsets :: "u64 \<Rightarrow> nat \<Rightarrow> wal_write_request list \<Rightarrow> (u64 \<times> record_location) list" where
  "batch_offsets seq off [] = []"
| "batch_offsets seq off (r # rs) =
     (req_id r, \<lparr>segment_seq = seq, offset_in_segment = off\<rparr>) #
       batch_offsets seq (off + (RECORD_HEADER_LEN + length (req_payload r))) rs"

abbreviation batch_bytes :: "wal_write_request list \<Rightarrow> bytes" where
  "batch_bytes rs \<equiv> concat (map (\<lambda>r. req_header r @ req_payload r) rs)"

text \<open>The bookkeeping after a batch was written: offset, index, counters, waiting senders.\<close>
definition note_batch :: "u64 \<Rightarrow> nat \<Rightarrow> wal_write_request list \<Rightarrow> wal_state \<Rightarrow> wal_state" where
  "note_batch current_seq offset records s =
     (let offsets = batch_offsets current_seq offset records
      in s\<lparr>current_offset := offset + sum_list (map (\<lambda>r. RECORD_HEADER_LEN + length (req_payload r)) records),
           wal_index := fold (\<lambda>(i, loc). hm_insert i loc) offsets (wal_index s),
           append_count := append_count s + of_nat (length offsets),
           bytes_written := bytes_written s + of_nat (length (batch_bytes records)),
           unflushed_records := saturate_u64 (unflushed_records s + length offsets),
           pending_durable_acks := pending_durable_acks s @ List.map_filter req_durable_ack records\<rparr>)"

text \<open>The batch written to the active segment, after a roll if it was needed.\<close>
definition append_batch ::
  "writer_io \<Rightarrow> instant \<Rightarrow> wal_write_request list \<Rightarrow> wal_state \<Rightarrow> (wal_error, unit) result \<times> wal_state" where
  "append_batch io now records s =
     (case write_all (wi_write io) (batch_bytes records) s of
        (Ok _, s') \<Rightarrow>
          (let s' = note_batch (current_segment_seq s) (current_offset s) records s'
           in if pending_durable_acks s' \<noteq> [] then flush_file (wi_text io) now (wi_sync io) s'
              else maybe_sync io now s')
      | (e, s') \<Rightarrow> (e, s'))"

definition write_batch ::
  "writer_io \<Rightarrow> instant \<Rightarrow> wal_write_request list \<Rightarrow> wal_state \<Rightarrow> (wal_error, unit) result \<times> wal_state" where
  "write_batch io now records s =
     (let batch_size = sum_list (map (\<lambda>r. RECORD_HEADER_LEN + length (req_payload r)) records) in
      if current_offset s > HEADER_LEN \<and>
         saturate_u64 (current_offset s + batch_size) > unat (segment_bytes (wal_cfg s))
      then (case roll_segment io now s of
              (Ok _, s) \<Rightarrow> append_batch io now records s
            | (e, s) \<Rightarrow> (e, s))
      else append_batch io now records s)"

text \<open>The writer returns with an error: its channel and its senders are dropped.\<close>
definition writer_stopped :: "wal_state \<Rightarrow> wal_state" where
  "writer_stopped s = s\<lparr>wr_running := False, wal_channel := [], pending_durable_acks := []\<rparr>"

text \<open>\<open>flush_file\<close> for a flush message, whose result only its sender sees.\<close>
definition flush_for :: "writer_io \<Rightarrow> instant \<Rightarrow> nat \<Rightarrow> wal_state \<Rightarrow> wal_state" where
  "flush_for io now tok s =
     (case flush_file (wi_text io) now (wi_flush_sync io) s of
        (r, s) \<Rightarrow> s\<lparr>signals := hm_insert tok r (signals s)\<rparr>)"

text \<open>One round of the loop of \<open>WalWriter::run\<close>.\<close>
definition writer_step :: "writer_io \<Rightarrow> instant \<Rightarrow> wal_state \<Rightarrow> wal_state" where
  "writer_step io now s =
     (if \<not> wr_running s then s
      else case wal_channel s of
        [] \<Rightarrow> s
      | RecordMsg record # queue \<Rightarrow>
          (let (records, pending_flush, rest) = collect_batch record queue in
           case write_batch io now records (s\<lparr>wal_channel := rest\<rparr>) of
             (Ok _, s) \<Rightarrow> (case pending_flush of Some tok \<Rightarrow> flush_for io now tok s | None \<Rightarrow> s)
           | (_, s) \<Rightarrow> writer_stopped s)
      | FlushMsg tok # queue \<Rightarrow> flush_for io now tok (s\<lparr>wal_channel := queue\<rparr>))"

text \<open>What the writer's operations leave alone.\<close>
named_theorems wal_frame

lemma write_bytes_frame [wal_frame]:
  "wal_channel (write_bytes bs s) = wal_channel s" "wr_running (write_bytes bs s) = wr_running s"
  "wal_cfg (write_bytes bs s) = wal_cfg s" "oneshots (write_bytes bs s) = oneshots s"
  "wal_next_id (write_bytes bs s) = wal_next_id s" "signals (write_bytes bs s) = signals s"
  by (simp_all add: write_bytes_def Let_def)

lemma write_all_frame [wal_frame]:
  "write_all out bs s = (r, s') \<Longrightarrow>
     wal_channel s' = wal_channel s \<and> wr_running s' = wr_running s \<and> wal_cfg s' = wal_cfg s \<and>
     oneshots s' = oneshots s \<and> wal_next_id s' = wal_next_id s \<and> signals s' = signals s"
  by (auto simp: write_all_def write_bytes_frame split: option.splits write_outcome.splits)

lemma flush_file_frame [wal_frame]:
  "flush_file text now err s = (r, s') \<Longrightarrow>
     wal_channel s' = wal_channel s \<and> wr_running s' = wr_running s \<and> wal_cfg s' = wal_cfg s \<and>
     oneshots s' = oneshots s \<and> wal_next_id s' = wal_next_id s"
  by (auto simp: flush_file_def sync_file_def Let_def split: option.splits)

lemma maybe_sync_frame [wal_frame]:
  "maybe_sync io now s = (r, s') \<Longrightarrow>
     wal_channel s' = wal_channel s \<and> wr_running s' = wr_running s \<and> wal_cfg s' = wal_cfg s \<and>
     oneshots s' = oneshots s \<and> wal_next_id s' = wal_next_id s"
  by (auto simp: maybe_sync_def Let_def dest!: flush_file_frame split: if_splits option.splits)

lemma roll_segment_frame [wal_frame]:
  "roll_segment io now s = (r, s') \<Longrightarrow>
     wal_channel s' = wal_channel s \<and> wr_running s' = wr_running s \<and> wal_cfg s' = wal_cfg s \<and>
     oneshots s' = oneshots s \<and> wal_next_id s' = wal_next_id s"
  by (auto simp: roll_segment_def Let_def dest!: flush_file_frame
      split: prod.splits result.splits if_splits option.splits)

lemma append_batch_frame [wal_frame]:
  "append_batch io now rs s = (r, s') \<Longrightarrow>
     wal_channel s' = wal_channel s \<and> wr_running s' = wr_running s \<and> wal_cfg s' = wal_cfg s \<and>
     oneshots s' = oneshots s \<and> wal_next_id s' = wal_next_id s"
  by (auto simp: append_batch_def note_batch_def Let_def dest!: flush_file_frame maybe_sync_frame write_all_frame
      split: prod.splits result.splits if_splits)

lemma write_batch_frame [wal_frame]:
  "write_batch io now rs s = (r, s') \<Longrightarrow>
     wal_channel s' = wal_channel s \<and> wr_running s' = wr_running s \<and> wal_cfg s' = wal_cfg s \<and>
     oneshots s' = oneshots s \<and> wal_next_id s' = wal_next_id s"
  by (auto simp: write_batch_def Let_def dest!: roll_segment_frame append_batch_frame
      split: prod.splits result.splits if_splits)

lemma flush_for_frame [wal_frame]:
  "wal_channel (flush_for io now tok s) = wal_channel s \<and> wr_running (flush_for io now tok s) = wr_running s \<and>
   wal_cfg (flush_for io now tok s) = wal_cfg s \<and> oneshots (flush_for io now tok s) = oneshots s \<and>
   wal_next_id (flush_for io now tok s) = wal_next_id s"
  by (auto simp: flush_for_def dest!: flush_file_frame split: prod.splits)

lemma collect_batch_rest: "collect_batch r q = (rs, fl, rest) \<Longrightarrow> length rest \<le> length q"
  by (auto simp: collect_batch_def Let_def split: list.splits wal_message.splits
      dest!: arg_cong [of _ _ length])

lemma writer_step_shorter:
  "wr_running s \<Longrightarrow> wal_channel s \<noteq> [] \<Longrightarrow> length (wal_channel (writer_step io now s)) < length (wal_channel s)"
  by (auto simp: writer_step_def writer_stopped_def flush_for_frame
      split: list.splits wal_message.splits prod.splits result.splits option.splits
      dest!: write_batch_frame collect_batch_rest)

text \<open>The loop of \<open>run\<close> until the channel is empty; \<open>ios\<close> gives each round its outcomes.\<close>
function run_writer :: "(nat \<Rightarrow> writer_io) \<Rightarrow> instant \<Rightarrow> wal_state \<Rightarrow> wal_state" where
  "run_writer ios now s =
     (if wr_running s \<and> wal_channel s \<noteq> []
      then run_writer (\<lambda>k. ios (Suc k)) now (writer_step (ios 0) now s) else s)"
  by pat_completeness auto
termination
  by (relation "measure (\<lambda>(_, _, s). length (wal_channel s))") (simp_all add: writer_step_shorter)

declare run_writer.simps [simp del]

text \<open>\<open>append_durable\<close> and \<open>flush\<close> with the writer run until it waits for messages again.\<close>
definition append_durable ::
  "(bytes \<Rightarrow> u32) \<Rightarrow> (nat \<Rightarrow> writer_io) \<Rightarrow> instant \<Rightarrow> bytes \<Rightarrow> wal_state \<Rightarrow>
   (wal_error, u64) result \<times> wal_state" where
  "append_durable crc32 ios now data s =
     (case append_durable_start crc32 data s of
        (Ok (i, tok), s) \<Rightarrow>
          (let s = run_writer ios now s
           in (case await_ack tok s of Some r \<Rightarrow> and_then r (\<lambda>_. Ok i) | None \<Rightarrow> Err WriterStopped, s))
      | (Err e, s) \<Rightarrow> (Err e, s)
      | (Panic, s) \<Rightarrow> (Panic, s))"

definition wal_flush ::
  "(nat \<Rightarrow> writer_io) \<Rightarrow> instant \<Rightarrow> wal_state \<Rightarrow> (wal_error, unit) result \<times> wal_state" where
  "wal_flush ios now s =
     (let s = (if wr_running s \<and> length (wal_channel s) \<ge> channel_capacity (wal_cfg s)
               then run_writer ios now s else s) in
      case flush_start s of
        (Some (Ok tok), s) \<Rightarrow>
          (let s = run_writer ios now s
           in (case await_ack tok s of Some r \<Rightarrow> r | None \<Rightarrow> Err WriterStopped, s))
      | (Some (Err e), s) \<Rightarrow> (Err e, s)
      | (_, s) \<Rightarrow> (Panic, s))"

section \<open>Compaction\<close>

text \<open>The first phase of \<open>compact_below\<close>: the active segment and the highest id per segment.\<close>
definition compact_plan :: "wal_state \<Rightarrow> u64 \<times> (u64, u64) hash_map" where
  "compact_plan s =
     (active_segment_seq s,
      fold (\<lambda>(i, loc) m. let entry = (case hm_get m (segment_seq loc) of Some v \<Rightarrow> v | None \<Rightarrow> 0)
                          in hm_insert (segment_seq loc) (if i > entry then i else entry) m)
        (wal_index s) [])"

definition segments_to_delete :: "u64 \<times> (u64, u64) hash_map \<Rightarrow> u64 \<Rightarrow> u64 list \<Rightarrow> u64 list" where
  "segments_to_delete plan safe_threshold seqs =
     (case plan of (active_seq, max_ids) \<Rightarrow>
        remdups (sort (map fst (filter (\<lambda>(seq, max_id). seq \<noteq> active_seq \<and> max_id \<le> safe_threshold) max_ids) @
          filter (\<lambda>seq. seq \<noteq> active_seq \<and> hm_get max_ids seq = None) seqs)))"

fun remove_segments ::
  "(u64 \<Rightarrow> io_error option) \<Rightarrow> u64 list \<Rightarrow> nat \<Rightarrow> wal_state \<Rightarrow> (wal_error, nat) result \<times> wal_state" where
  "remove_segments err [] deleted s = (Ok deleted, s)"
| "remove_segments err (seq # seqs) deleted s =
     (case (err seq, hm_get (wal_names s) (segment_name seq)) of
        (None, Some _) \<Rightarrow> remove_segments err seqs (deleted + 1)
           (s\<lparr>wal_names := hm_remove (segment_name seq) (wal_names s)\<rparr>)
      | (None, None) \<Rightarrow> remove_segments err seqs deleted s
      | (Some NotFound, _) \<Rightarrow> remove_segments err seqs deleted s
      | (Some e, _) \<Rightarrow> (Err (WalIo e), s))"

text \<open>The second phase: list, delete, and drop the index entries of what was deleted.\<close>
definition compact_delete ::
  "dir_io \<Rightarrow> u64 \<times> (u64, u64) hash_map \<Rightarrow> u64 \<Rightarrow> wal_state \<Rightarrow> (wal_error, nat) result \<times> wal_state" where
  "compact_delete io plan safe_threshold s =
     (case list_segment_seqs (di_list io) (wal_names s) of
        Ok seqs \<Rightarrow>
          (let to_delete = segments_to_delete plan safe_threshold seqs in
           case remove_segments (di_file io) to_delete 0 s of
             (Ok deleted, s) \<Rightarrow>
               (Ok deleted, if deleted > 0
                  then s\<lparr>wal_index := filter (\<lambda>(_, loc). segment_seq loc \<notin> set to_delete) (wal_index s)\<rparr>
                  else s)
           | (e, s) \<Rightarrow> (e, s))
      | Err e \<Rightarrow> (Err e, s)
      | Panic \<Rightarrow> (Panic, s))"

definition compact_below :: "dir_io \<Rightarrow> u64 \<Rightarrow> wal_state \<Rightarrow> (wal_error, nat) result \<times> wal_state" where
  "compact_below io safe_threshold s = compact_delete io (compact_plan s) safe_threshold s"

end
