(* ===== verification/Wal_Inv.thy ===== *)
theory Wal_Inv
  imports Wal
begin

text \<open>
  The representation of a log of records by the segments of the directory, and its
  preservation by every operation of the writer. Sealed segments hold whole records
  and are on disk; the active segment holds whole records, of which a prefix is on
  disk, and a torn record only after a failed write.
\<close>

section \<open>Representation\<close>

abbreviation seg_image :: "(bytes \<Rightarrow> u32) \<Rightarrow> (u64 \<times> bytes) list \<Rightarrow> bytes" where
  "seg_image crc32 rs \<equiv> write_header @ encode_records crc32 rs"

definition seg_entries :: "u64 \<times> (u64 \<times> bytes) list \<Rightarrow> (u64 \<times> record_location) list" where
  "seg_entries g = map (\<lambda>(i, _, off). (i, \<lparr>segment_seq = fst g, offset_in_segment = off\<rparr>)) (located HEADER_LEN (snd g))"

abbreviation log_entries :: "(u64 \<times> (u64 \<times> bytes) list) list \<Rightarrow> (u64 \<times> record_location) list" where
  "log_entries gs \<equiv> concat (map seg_entries gs)"

abbreviation log_records :: "(u64 \<times> (u64 \<times> bytes) list) list \<Rightarrow> (u64 \<times> bytes) list" where
  "log_records gs \<equiv> concat (map snd gs)"

abbreviation active_file :: "wal_state \<Rightarrow> wal_file" where
  "active_file s \<equiv> wal_inodes s ! wr_file s"

text \<open>A sealed segment.\<close>
definition sealed :: "(bytes \<Rightarrow> u32) \<Rightarrow> wal_state \<Rightarrow> u64 \<times> (u64 \<times> bytes) list \<Rightarrow> bool" where
  "sealed crc32 s g \<longleftrightarrow>
     payloads_fit (snd g) \<and> length (seg_image crc32 (snd g)) < 2 ^ 64 \<and>
     (\<exists>ino < length (wal_inodes s). ino \<noteq> wr_file s \<and> hm_get (wal_names s) (segment_name (fst g)) = Some ino \<and>
       wal_inodes s ! ino = \<lparr>wf_data = seg_image crc32 (snd g), wf_synced = length (seg_image crc32 (snd g))\<rparr>)"

definition disk_rep ::
  "(bytes \<Rightarrow> u32) \<Rightarrow> (u64 \<times> (u64 \<times> bytes) list) list \<Rightarrow> u64 \<Rightarrow> (u64 \<times> bytes) list \<Rightarrow> bytes \<Rightarrow> wal_state \<Rightarrow> bool" where
  "disk_rep crc32 segs cur rs t s \<longleftrightarrow>
     hm_ok (wal_names s) \<and> sorted_wrt (<) (map fst segs @ [cur]) \<and>
     (\<forall>name \<in> hm_keys (wal_names s). \<forall>seq. parse_segment_seq name = Some seq \<longrightarrow>
        name = segment_name seq \<and> seq \<in> set (map fst segs @ [cur])) \<and>
     (\<forall>g \<in> set segs. sealed crc32 s g) \<and>
     hm_get (wal_names s) (segment_name cur) = Some (wr_file s) \<and> wr_file s < length (wal_inodes s) \<and>
     current_segment_seq s = cur \<and> payloads_fit rs \<and> torn crc32 t \<and>
     length (seg_image crc32 rs) < 2 ^ 64 \<and>
     wf_data (active_file s) = seg_image crc32 rs @ t \<and>
     HEADER_LEN \<le> wf_synced (active_file s) \<and> wf_synced (active_file s) \<le> length (wf_data (active_file s))"

text \<open>The writer's fields while it runs.\<close>
definition writer_live ::
  "(bytes \<Rightarrow> u32) \<Rightarrow> (u64 \<times> (u64 \<times> bytes) list) list \<Rightarrow> u64 \<Rightarrow> (u64 \<times> bytes) list \<Rightarrow> wal_state \<Rightarrow> bool" where
  "writer_live crc32 segs cur rs s \<longleftrightarrow>
     wr_error s = None \<and> wr_pos s = length (seg_image crc32 rs) \<and> current_offset s = wr_pos s \<and>
     wal_index s = log_entries (segs @ [(cur, rs)])"

definition req_ok :: "(bytes \<Rightarrow> u32) \<Rightarrow> wal_write_request \<Rightarrow> bool" where
  "req_ok crc32 r \<longleftrightarrow>
     req_header r = record_header crc32 (req_id r) (req_payload r) \<and> length (req_payload r) < 2 ^ 32"

abbreviation req_record :: "wal_write_request \<Rightarrow> u64 \<times> bytes" where
  "req_record r \<equiv> (req_id r, req_payload r)"

lemma batch_bytes_encode:
  "\<forall>r \<in> set rs. req_ok crc32 r \<Longrightarrow> batch_bytes rs = encode_records crc32 (map req_record rs)"
  by (induction rs) (auto simp: req_ok_def encode_record_def)

lemma batch_size_encode:
  "sum_list (map (\<lambda>r. RECORD_HEADER_LEN + length (req_payload r)) rs) =
     length (encode_records crc32 (map req_record rs))"
  by (induction rs) (auto simp: RECORD_HEADER_LEN_def)

lemma batch_offsets_entries:
  "batch_offsets seq off rs =
     map (\<lambda>(i, _, off). (i, \<lparr>segment_seq = seq, offset_in_segment = off\<rparr>)) (located off (map req_record rs))"
  by (induction seq off rs rule: batch_offsets.induct) (auto simp: RECORD_HEADER_LEN_def)

lemma fst_seg_entries [simp]: "map fst (seg_entries g) = map fst (snd g)"
proof -
  have "map fst (map (\<lambda>(i, _, off). (i, \<lparr>segment_seq = fst g, offset_in_segment = off\<rparr>)) (located off rs)) = map fst rs"
    for off rs by (induction off rs rule: located.induct) auto
  then show ?thesis by (simp add: seg_entries_def)
qed

lemma fst_log_entries: "map fst (log_entries gs) = map fst (log_records gs)"
  by (induction gs) auto

lemma seg_entries_append:
  "seg_entries (q, rs @ rs') = seg_entries (q, rs) @
     map (\<lambda>(i, _, off). (i, \<lparr>segment_seq = q, offset_in_segment = off\<rparr>))
       (located (length (seg_image crc32 rs)) rs')"
  by (simp add: seg_entries_def located_append [of 32 rs rs' crc32] HEADER_LEN_def)

lemma fold_insert_fresh:
  "distinct (map fst es) \<Longrightarrow> set (map fst es) \<inter> hm_keys m = {} \<Longrightarrow>
     fold (\<lambda>(i, loc). hm_insert i loc) es m = m @ es"
proof (induction es arbitrary: m)
  case (Cons e es)
  obtain i loc where e: "e = (i, loc)" by force
  have "AList.update i loc m = m @ [(i, loc)]" if "i \<notin> fst ` set m"
    using that by (induction m) auto
  with Cons e show ?case by auto
qed simp

section \<open>Operations of the writer\<close>

declare map_of_eq_Some_iff [simp del]

lemma disk_repD:
  assumes "disk_rep crc32 segs cur rs t s"
  shows "hm_ok (wal_names s)" "sorted_wrt (<) (map fst segs @ [cur])"
    "\<And>name seq. name \<in> hm_keys (wal_names s) \<Longrightarrow> parse_segment_seq name = Some seq \<Longrightarrow>
        name = segment_name seq \<and> seq \<in> set (map fst segs @ [cur])"
    "\<And>g. g \<in> set segs \<Longrightarrow> sealed crc32 s g"
    "hm_get (wal_names s) (segment_name cur) = Some (wr_file s)" "wr_file s < length (wal_inodes s)"
    "current_segment_seq s = cur" "payloads_fit rs" "torn crc32 t" "length (seg_image crc32 rs) < 2 ^ 64"
    "wf_data (active_file s) = seg_image crc32 rs @ t" "HEADER_LEN \<le> wf_synced (active_file s)"
    "wf_synced (active_file s) \<le> length (wf_data (active_file s))"
  using assms unfolding disk_rep_def by blast+

lemma disk_rep_cong:
  assumes "disk_rep crc32 segs cur rs t s" and eqs: "wal_names s' = wal_names s" "wal_inodes s' = wal_inodes s"
    "wr_file s' = wr_file s" "current_segment_seq s' = current_segment_seq s"
  shows "disk_rep crc32 segs cur rs t s'"
proof -
  have "disk_rep crc32 segs cur rs t s' = disk_rep crc32 segs cur rs t s"
    by (simp only: disk_rep_def sealed_def eqs)
  with assms(1) show ?thesis by simp
qed

text \<open>A change of the active file alone.\<close>
lemma disk_rep_active:
  assumes rep: "disk_rep crc32 segs cur rs t s"
    and s': "wal_names s' = wal_names s" "wal_inodes s' = (wal_inodes s)[wr_file s := f]"
      "wr_file s' = wr_file s" "current_segment_seq s' = current_segment_seq s"
    and f: "payloads_fit rs'" "torn crc32 t'" "length (seg_image crc32 rs') < 2 ^ 64"
      "wf_data f = seg_image crc32 rs' @ t'" "HEADER_LEN \<le> wf_synced f" "wf_synced f \<le> length (wf_data f)"
  shows "disk_rep crc32 segs cur rs' t' s'"
proof -
  note D = disk_repD [OF rep]
  have "sealed crc32 s' g" if "g \<in> set segs" for g
    using D(4) [OF that] s' by (auto simp: sealed_def)
  moreover have "active_file s' = f" using D(6) s' by simp
  moreover have "\<forall>name \<in> hm_keys (wal_names s'). \<forall>seq. parse_segment_seq name = Some seq \<longrightarrow>
        name = segment_name seq \<and> seq \<in> set (map fst segs @ [cur])" using D(3) s' by simp
  ultimately show ?thesis
    unfolding disk_rep_def using D(1,2,5-7) f s' by simp
qed

lemma sync_file_rep:
  assumes rep: "disk_rep crc32 segs cur rs t s"
  shows "disk_rep crc32 segs cur rs t (sync_file s)"
    "wf_synced (active_file (sync_file s)) = length (wf_data (active_file (sync_file s)))"
proof -
  note D = disk_repD [OF rep]
  show "disk_rep crc32 segs cur rs t (sync_file s)"
    by (rule disk_rep_active [OF rep,
          where f = "(active_file s)\<lparr>wf_synced := length (wf_data (active_file s))\<rparr>"])
      (use D in \<open>auto simp: sync_file_def HEADER_LEN_def\<close>)
  show "wf_synced (active_file (sync_file s)) = length (wf_data (active_file (sync_file s)))"
    using D(6) by (simp add: sync_file_def)
qed

text \<open>What \<open>flush_file\<close> does to the fields that the representation reads.\<close>
lemma flush_file_fields:
  assumes "flush_file text now err s = (r, s')"
  shows "wr_pos s' = wr_pos s" "current_offset s' = current_offset s" "wal_index s' = wal_index s"
    "wr_error s' = None" "pending_durable_acks s' = []" "wal_names s' = wal_names s"
    "wr_file s' = wr_file s" "current_segment_seq s' = current_segment_seq s"
    "r \<noteq> Panic" "r = Ok () \<Longrightarrow> wr_error s = None"
    "wal_inodes s' = (if r = Ok () then wal_inodes (sync_file s) else wal_inodes s)"
  using assms by (auto simp: flush_file_def sync_file_def Let_def split: option.splits)

lemma flush_file_rep:
  assumes "flush_file text now err s = (r, s')" "disk_rep crc32 segs cur rs t s"
  shows "disk_rep crc32 segs cur rs t s'"
    "r = Ok () \<Longrightarrow> wf_synced (active_file s') = length (wf_data (active_file s'))"
    "wf_synced (active_file s) \<le> wf_synced (active_file s')"
    "writer_live crc32 segs cur rs s \<Longrightarrow> writer_live crc32 segs cur rs s'"
proof -
  note F = flush_file_fields [OF assms(1)] and D = disk_repD [OF assms(2)]
  have sy: "wr_file (sync_file s) = wr_file s" by (simp add: sync_file_def)
  have "disk_rep crc32 segs cur rs t (if r = Ok () then sync_file s else s)"
    using assms(2) sync_file_rep by auto
  then show "disk_rep crc32 segs cur rs t s'"
    by (rule disk_rep_cong) (simp_all add: F, simp_all add: sync_file_def)
  show "wf_synced (active_file s') = length (wf_data (active_file s'))" if "r = Ok ()"
    using sync_file_rep(2) [OF assms(2)] that sy by (simp add: F(7,11))
  show "wf_synced (active_file s) \<le> wf_synced (active_file s')"
    using D(6,13) by (simp add: F(7,11) sync_file_def)
  show "writer_live crc32 segs cur rs s \<Longrightarrow> writer_live crc32 segs cur rs s'"
    by (simp add: writer_live_def F)
qed

lemma hm_get_fold_same:
  "hm_get (fold (\<lambda>k. hm_insert k v) ks m) x = (if x \<in> set ks then Some v else hm_get m x)"
  by (induction ks arbitrary: m) auto

text \<open>A flush answers every waiting append, with \<open>Ok\<close> exactly when it succeeds.\<close>
lemma flush_file_signals:
  assumes "flush_file text now err s = (r, s')"
  shows "tok \<notin> set (pending_durable_acks s) \<Longrightarrow> hm_get (signals s') tok = hm_get (signals s) tok"
    "tok \<in> set (pending_durable_acks s) \<Longrightarrow>
       \<exists>x. hm_get (signals s') tok = Some x \<and> (x = Ok () \<longleftrightarrow> r = Ok ())"
  using assms by (auto simp: flush_file_def sync_file_def Let_def hm_get_fold_same split: option.splits)

text \<open>Bytes written at the end of the active segment.\<close>
lemma write_bytes_rep:
  assumes rep: "disk_rep crc32 segs cur rs [] s" and pos: "wr_pos s = length (seg_image crc32 rs)"
    and bs: "bs = encode_records crc32 rs' @ t'" "torn crc32 t'" "payloads_fit rs'"
      "length (seg_image crc32 (rs @ rs')) < 2 ^ 64"
  shows "disk_rep crc32 segs cur (rs @ rs') t' (write_bytes bs s)"
    "wf_synced (active_file (write_bytes bs s)) = wf_synced (active_file s)"
    "wr_pos (write_bytes bs s) = length (seg_image crc32 (rs @ rs') @ t')"
    "wr_error (write_bytes bs s) = wr_error s" "current_offset (write_bytes bs s) = current_offset s"
    "wal_index (write_bytes bs s) = wal_index s" "pending_durable_acks (write_bytes bs s) = pending_durable_acks s"
proof -
  note D = disk_repD [OF rep]
  have len: "length (wf_data (active_file s)) = wr_pos s" using D(11) pos by simp
  let ?f = "\<lparr>wf_data = seg_image crc32 (rs @ rs') @ t', wf_synced = wf_synced (active_file s)\<rparr>"
  have syn: "min (wf_synced (active_file s)) (wr_pos s) = wf_synced (active_file s)" using D(13) len by simp
  have ino: "wal_inodes (write_bytes bs s) = (wal_inodes s)[wr_file s := ?f]"
    using D(11) len syn by (simp add: write_bytes_def Let_def bs(1))
  show "disk_rep crc32 segs cur (rs @ rs') t' (write_bytes bs s)"
    by (rule disk_rep_active [OF rep _ ino]) (use D bs in \<open>auto simp: write_bytes_def Let_def\<close>)
  show "wf_synced (active_file (write_bytes bs s)) = wf_synced (active_file s)"
    using D(6) ino by (simp add: write_bytes_def Let_def syn)
qed (use pos bs in \<open>auto simp: write_bytes_def Let_def\<close>)

abbreviation fully_synced :: "wal_state \<Rightarrow> bool" where
  "fully_synced s \<equiv> wf_synced (active_file s) = length (wf_data (active_file s))"

text \<open>The outcomes under which the log stays readable: headers of new segments are written
  completely, and a failed write is reported at once.\<close>
definition io_honest :: "writer_io \<Rightarrow> bool" where
  "io_honest io \<longleftrightarrow> wi_header io = None \<and> (case wi_write io of WriteDeferred _ _ \<Rightarrow> False | _ \<Rightarrow> True)"

lemma disk_repI:
  assumes "hm_ok (wal_names s)" "sorted_wrt (<) (map fst segs @ [cur])"
    "\<And>name seq. name \<in> hm_keys (wal_names s) \<Longrightarrow> parse_segment_seq name = Some seq \<Longrightarrow>
        name = segment_name seq \<and> seq \<in> set (map fst segs @ [cur])"
    "\<And>g. g \<in> set segs \<Longrightarrow> sealed crc32 s g"
    "hm_get (wal_names s) (segment_name cur) = Some (wr_file s)" "wr_file s < length (wal_inodes s)"
    "current_segment_seq s = cur" "payloads_fit rs" "torn crc32 t" "length (seg_image crc32 rs) < 2 ^ 64"
    "wf_data (active_file s) = seg_image crc32 rs @ t" "HEADER_LEN \<le> wf_synced (active_file s)"
    "wf_synced (active_file s) \<le> length (wf_data (active_file s))"
  shows "disk_rep crc32 segs cur rs t s"
  using assms unfolding disk_rep_def by blast

lemma roll_segment_rep:
  assumes roll: "roll_segment io now s = (r, s')" and rep: "disk_rep crc32 segs cur rs [] s"
    and live: "writer_live crc32 segs cur rs s" and io: "io_honest io"
  shows "r \<noteq> Ok () \<Longrightarrow> disk_rep crc32 segs cur rs [] s'"
    "r = Ok () \<Longrightarrow> disk_rep crc32 (segs @ [(cur, rs)]) (cur + 1) [] [] s' \<and>
       writer_live crc32 (segs @ [(cur, rs)]) (cur + 1) [] s'"
    "r \<noteq> Ok () \<Longrightarrow> wf_synced (active_file s) \<le> wf_synced (active_file s')"
    "pending_durable_acks s' = []" "r = Ok () \<Longrightarrow> fully_synced s'" "r \<noteq> Panic"
proof -
  obtain r1 s1 where fl: "flush_file (wi_text io) now (wi_roll_sync io) s = (r1, s1)" by force
  note F = flush_file_fields [OF fl] flush_file_rep [OF fl rep]
  show "r \<noteq> Ok () \<Longrightarrow> disk_rep crc32 segs cur rs [] s'" "r \<noteq> Panic"
    "r \<noteq> Ok () \<Longrightarrow> wf_synced (active_file s) \<le> wf_synced (active_file s')"
    using roll F fl io
    by (auto simp: roll_segment_def header_file_def io_honest_def Let_def
        split: result.splits if_splits option.splits)
  show "pending_durable_acks s' = []"
    using roll F fl io
    by (auto simp: roll_segment_def header_file_def io_honest_def Let_def
        split: result.splits if_splits option.splits)
  assume r: "r = Ok ()"
  define new where "new = \<lparr>wf_data = write_header, wf_synced = length write_header\<rparr>"
  have eqs: "r1 = Ok ()" "cur \<noteq> -1" "hm_get (wal_names s1) (segment_name (cur + 1)) = None"
    "s' = s1\<lparr>wal_names := hm_insert (segment_name (cur + 1)) (length (wal_inodes s1)) (wal_names s1),
       wal_inodes := wal_inodes s1 @ [new], wr_file := length (wal_inodes s1), wr_pos := HEADER_LEN,
       current_segment_seq := cur + 1, current_offset := HEADER_LEN\<rparr>"
    using roll r fl io F(8) disk_repD(7) [OF rep]
    by (auto simp: roll_segment_def header_file_def io_honest_def Let_def new_def
        split: result.splits if_splits option.splits)
  note D = disk_repD [OF F(12)]
  have full: "wal_inodes s1 ! wr_file s1 = \<lparr>wf_data = seg_image crc32 rs, wf_synced = length (seg_image crc32 rs)\<rparr>"
    using F(13) [OF eqs(1)] D(11) by simp
  have less: "cur < cur + 1" using eqs(2) by (rule less_succ_word(1))
  have sealed: "sealed crc32 s' g" if "g \<in> set (segs @ [(cur, rs)])" for g
  proof (cases "g = (cur, rs)")
    case True
    have "hm_get (wal_names s') (segment_name cur) = Some (wr_file s1)" using D(5) less eqs(4) by simp
    with True full D(6,8,10) eqs(4) show ?thesis
      unfolding sealed_def by (auto simp: nth_append intro!: exI [of _ "wr_file s1"])
  next
    case False
    with that D(4) have g: "sealed crc32 s1 g" by auto
    have "hm_get (wal_names s1) (segment_name (fst g)) \<noteq> None" using g by (auto simp: sealed_def)
    with eqs(3) have "fst g \<noteq> cur + 1" by auto
    with g eqs(4) show ?thesis unfolding sealed_def by (auto simp: nth_append)
  qed
  have ord: "sorted_wrt (<) (map fst (segs @ [(cur, rs)]) @ [cur + 1])"
    using D(2) less by (auto simp: sorted_wrt_append)
  have keys: "\<forall>name \<in> hm_keys (wal_names s'). \<forall>seq. parse_segment_seq name = Some seq \<longrightarrow>
        name = segment_name seq \<and> seq \<in> set (map fst (segs @ [(cur, rs)]) @ [cur + 1])"
    using D(3) eqs(4) by auto
  have "hm_ok (wal_names s')" using D(1) eqs(4) by simp
  have "disk_rep crc32 (segs @ [(cur, rs)]) (cur + 1) [] [] s'"
  proof (rule disk_repI [OF \<open>hm_ok (wal_names s')\<close> ord _ sealed])
    show "\<And>name seq. name \<in> hm_keys (wal_names s') \<Longrightarrow> parse_segment_seq name = Some seq \<Longrightarrow>
        name = segment_name seq \<and> seq \<in> set (map fst (segs @ [(cur, rs)]) @ [cur + 1])"
      using keys by blast
  qed (simp_all add: eqs(4) new_def nth_append torn_def HEADER_LEN_def)
  moreover have "writer_live crc32 (segs @ [(cur, rs)]) (cur + 1) [] s'"
    using F(3,4) live by (simp add: writer_live_def eqs(4) HEADER_LEN_def seg_entries_def)
  ultimately show "disk_rep crc32 (segs @ [(cur, rs)]) (cur + 1) [] [] s' \<and>
       writer_live crc32 (segs @ [(cur, rs)]) (cur + 1) [] s'" by blast
  show "fully_synced s'" using eqs(4) by (simp add: new_def nth_append)
qed

section \<open>A batch\<close>

text \<open>The requests of a batch: well formed, and with ids that the log does not hold.\<close>
definition batch_ok :: "(bytes \<Rightarrow> u32) \<Rightarrow> (u64 \<times> (u64 \<times> bytes) list) list \<Rightarrow> wal_write_request list \<Rightarrow> bool" where
  "batch_ok crc32 gs reqs \<longleftrightarrow>
     (\<forall>r \<in> set reqs. req_ok crc32 r) \<and> distinct (map req_id reqs) \<and>
     req_id ` set reqs \<inter> fst ` set (log_records gs) = {}"

abbreviation batch_tokens :: "wal_write_request list \<Rightarrow> nat list" where
  "batch_tokens reqs \<equiv> List.map_filter req_durable_ack reqs"

text \<open>How a state of the writer follows from another: the log grows at its end, nothing on disk is lost.\<close>
definition log_grows ::
  "(u64 \<times> (u64 \<times> bytes) list) list \<Rightarrow> u64 \<Rightarrow> (u64 \<times> bytes) list \<Rightarrow> wal_state \<Rightarrow>
   (u64 \<times> (u64 \<times> bytes) list) list \<Rightarrow> u64 \<Rightarrow> (u64 \<times> bytes) list \<Rightarrow> wal_state \<Rightarrow> bool" where
  "log_grows segs cur rs s segs' cur' rs' s' \<longleftrightarrow>
     (segs' = segs \<and> cur' = cur \<and> take (length rs) rs' = rs \<and>
       wf_synced (active_file s) \<le> wf_synced (active_file s')) \<or>
     segs' = segs @ [(cur, rs)]"

lemma maybe_sync_cases:
  assumes "maybe_sync io now s = (r, s')"
  shows "r = Ok () \<and> s' = s \<or> flush_file (wi_text io) now (wi_sync io) s = (r, s')"
  using assms unfolding maybe_sync_def Let_def by (simp split: if_splits)

lemma append_batch_failed:
  assumes "append_batch io now reqs s = (r, s')" "io_honest io" "wr_error s = None" "wi_write io \<noteq> Written"
  shows "\<exists>n e. r = Err (WalIo e) \<and> s' = write_bytes (take n (batch_bytes reqs)) s"
  using assms by (auto simp: append_batch_def write_all_def io_honest_def split: write_outcome.splits)

lemma append_batch_written:
  assumes "append_batch io now reqs s = (r, s')" "wr_error s = None" "wi_write io = Written"
    "pending_durable_acks s = []"
    and s1: "s1 = note_batch (current_segment_seq s) (current_offset s) reqs (write_bytes (batch_bytes reqs) s)"
  shows "flush_file (wi_text io) now (wi_sync io) s1 = (r, s') \<or> batch_tokens reqs = [] \<and> r = Ok () \<and> s' = s1"
    "pending_durable_acks s1 = batch_tokens reqs" "signals s1 = signals s"
proof -
  show p: "pending_durable_acks s1 = batch_tokens reqs" "signals s1 = signals s"
    using assms(4) by (simp_all add: s1 note_batch_def write_bytes_def Let_def)
  have "(if batch_tokens reqs \<noteq> [] then flush_file (wi_text io) now (wi_sync io) s1
         else maybe_sync io now s1) = (r, s')"
    using assms(1-3) p unfolding append_batch_def write_all_def Let_def by (simp add: s1 split: if_splits)
  then show "flush_file (wi_text io) now (wi_sync io) s1 = (r, s') \<or> batch_tokens reqs = [] \<and> r = Ok () \<and> s' = s1"
    using maybe_sync_cases [of io now s1 r s'] by (simp split: if_splits) blast
qed

lemma torn_Nil [simp]: "torn crc32 []"
  by (simp add: torn_def)

lemma length_encode_take: "length (encode_records crc32 (take k rs)) \<le> length (encode_records crc32 rs)"
proof (induction rs arbitrary: k)
  case (Cons r rs)
  then show ?case by (cases k) (auto split: prod.splits)
qed simp

lemma keys_log_entries: "hm_keys (log_entries gs) = fst ` set (log_records gs)"
  by (metis fst_log_entries set_map)

lemma fst_batch_offsets [simp]: "map fst (batch_offsets seq off reqs) = map req_id reqs"
  by (induction seq off reqs rule: batch_offsets.induct) auto

text \<open>The state right after a batch was written completely.\<close>
lemma note_batch_rep:
  assumes rep: "disk_rep crc32 segs cur rs [] s" and live: "writer_live crc32 segs cur rs s"
    and ok: "batch_ok crc32 (segs @ [(cur, rs)]) reqs"
    and room: "length (seg_image crc32 (rs @ map req_record reqs)) < 2 ^ 64"
    and s1: "s1 = note_batch (current_segment_seq s) (current_offset s) reqs (write_bytes (batch_bytes reqs) s)"
  shows "disk_rep crc32 segs cur (rs @ map req_record reqs) [] s1"
    "wf_synced (active_file s1) = wf_synced (active_file s)"
    "writer_live crc32 segs cur (rs @ map req_record reqs) s1"
proof -
  from live have L: "wr_error s = None" "wr_pos s = length (seg_image crc32 rs)" "current_offset s = wr_pos s"
    "wal_index s = log_entries (segs @ [(cur, rs)])" by (simp_all add: writer_live_def)
  from ok have R: "\<forall>r \<in> set reqs. req_ok crc32 r" by (simp add: batch_ok_def)
  have fits: "payloads_fit (map req_record reqs)" using R by (auto simp: req_ok_def)
  have bs: "batch_bytes reqs = encode_records crc32 (map req_record reqs) @ []"
    using batch_bytes_encode [OF R] by simp
  note W = write_bytes_rep [OF rep L(2) bs torn_Nil fits room]
  show "disk_rep crc32 segs cur (rs @ map req_record reqs) [] s1"
    by (rule disk_rep_cong [OF W(1)]) (simp_all add: s1 note_batch_def Let_def)
  show "wf_synced (active_file s1) = wf_synced (active_file s)"
    using W(2) by (simp add: s1 note_batch_def Let_def)
  have "wal_index s1 = fold (\<lambda>(i, loc). hm_insert i loc) (batch_offsets cur (current_offset s) reqs) (wal_index s)"
    using W(6) disk_repD(7) [OF rep] by (simp add: s1 note_batch_def Let_def)
  also have "\<dots> = wal_index s @ batch_offsets cur (current_offset s) reqs"
    using ok by (intro fold_insert_fresh) (simp_all only: batch_ok_def L(4) keys_log_entries fst_batch_offsets set_map)
  finally show "writer_live crc32 segs cur (rs @ map req_record reqs) s1"
    using L W(3,4) batch_size_encode [of reqs crc32]
    by (simp add: writer_live_def s1 note_batch_def Let_def seg_entries_append [of cur rs _ crc32]
        batch_offsets_entries)
qed

text \<open>A failed write leaves whole records of the batch and a torn one.\<close>
lemma partial_write_rep:
  assumes rep: "disk_rep crc32 segs cur rs [] s" and live: "writer_live crc32 segs cur rs s"
    and ok: "batch_ok crc32 (segs @ [(cur, rs)]) reqs"
    and room: "length (seg_image crc32 (rs @ map req_record reqs)) < 2 ^ 64"
    and s': "s' = write_bytes (take n (batch_bytes reqs)) s"
  shows "\<exists>k t. disk_rep crc32 segs cur (rs @ map req_record (take k reqs)) t s' \<and>
      wf_synced (active_file s') = wf_synced (active_file s)"
proof -
  from live have pos: "wr_pos s = length (seg_image crc32 rs)" by (simp add: writer_live_def)
  from ok have R: "\<forall>r \<in> set reqs. req_ok crc32 r" by (simp add: batch_ok_def)
  have fits: "payloads_fit (map req_record reqs)" using R by (auto simp: req_ok_def)
  obtain k t where kt: "take n (encode_records crc32 (map req_record reqs) @ []) =
      encode_records crc32 (take k (map req_record reqs)) @ t" "torn crc32 t"
    using take_encode_records [OF fits torn_Nil, of n] by blast
  have fits': "payloads_fit (take k (map req_record reqs))" using fits set_take_subset by fast
  from room length_encode_take [of crc32 k "map req_record reqs"] have room': "length (seg_image crc32 (rs @ take k (map req_record reqs))) < 2 ^ 64" by simp
  have bs: "take n (batch_bytes reqs) = encode_records crc32 (take k (map req_record reqs)) @ t"
    using kt batch_bytes_encode [OF R] by simp
  show ?thesis
    using write_bytes_rep(1,2) [OF rep pos bs kt(2) fits' room'] unfolding s' take_map by blast
qed

text \<open>A batch extends the active segment by a prefix, by all of it when it succeeds.\<close>
lemma append_batch_rep:
  assumes app: "append_batch io now reqs s = (r, s')" and rep: "disk_rep crc32 segs cur rs [] s"
    and live: "writer_live crc32 segs cur rs s" and io: "io_honest io" and pend: "pending_durable_acks s = []"
    and ok: "batch_ok crc32 (segs @ [(cur, rs)]) reqs"
    and room: "length (seg_image crc32 (rs @ map req_record reqs)) < 2 ^ 64"
  shows "\<exists>k t. disk_rep crc32 segs cur (rs @ map req_record (take k reqs)) t s' \<and>
      wf_synced (active_file s) \<le> wf_synced (active_file s') \<and>
      (r = Ok () \<longrightarrow> length reqs \<le> k \<and> t = [] \<and>
         writer_live crc32 segs cur (rs @ map req_record reqs) s' \<and> pending_durable_acks s' = [])"
proof (cases "wi_write io = Written")
  case True
  define s1 where "s1 = note_batch (current_segment_seq s) (current_offset s) reqs (write_bytes (batch_bytes reqs) s)"
  note N = note_batch_rep [OF rep live ok room s1_def]
  from live have "wr_error s = None" by (simp add: writer_live_def)
  note A = append_batch_written [OF app this True pend s1_def]
  from A(1) show ?thesis
  proof
    assume fl: "flush_file (wi_text io) now (wi_sync io) s1 = (r, s')"
    show ?thesis
      using flush_file_rep [OF fl N(1)] flush_file_fields(5) [OF fl] N(2,3)
      by (intro exI [of _ "length reqs"] exI [of _ "[]"]) simp
  next
    assume "batch_tokens reqs = [] \<and> r = Ok () \<and> s' = s1"
    then show ?thesis using N A(2)
      by (intro exI [of _ "length reqs"] exI [of _ "[]"]) simp
  qed
next
  case False
  from live have "wr_error s = None" by (simp add: writer_live_def)
  from append_batch_failed [OF app io this False] obtain n e
    where s': "r = Err (WalIo e)" "s' = write_bytes (take n (batch_bytes reqs)) s" by blast
  from partial_write_rep [OF rep live ok room s'(2)] s'(1) show ?thesis by force
qed

lemma log_grows_refl:
  "wf_synced (active_file s) \<le> wf_synced (active_file s') \<Longrightarrow> log_grows segs cur rs s segs cur rs s'"
  by (simp add: log_grows_def)

text \<open>A record that is on disk: in a sealed segment, or in the synced part of the active one.\<close>
definition on_disk ::
  "(bytes \<Rightarrow> u32) \<Rightarrow> (u64 \<times> (u64 \<times> bytes) list) list \<Rightarrow> (u64 \<times> bytes) list \<Rightarrow> wal_state \<Rightarrow> u64 \<times> bytes \<Rightarrow> bool" where
  "on_disk crc32 segs rs s x \<longleftrightarrow>
     x \<in> set (log_records segs) \<or>
     (\<exists>m. x \<in> set (take m rs) \<and> length (seg_image crc32 (take m rs)) \<le> wf_synced (active_file s))"

lemma on_disk_grows:
  assumes "on_disk crc32 segs rs s x" "log_grows segs cur rs s segs' cur' rs' s'"
  shows "on_disk crc32 segs' rs' s' x"
proof (cases "segs' = segs @ [(cur, rs)]")
  case True
  with assms(1) show ?thesis by (auto simp: on_disk_def dest: in_set_takeD)
next
  case False
  with assms(2) have g: "segs' = segs" "take (length rs) rs' = rs"
    "wf_synced (active_file s) \<le> wf_synced (active_file s')" by (auto simp: log_grows_def)
  have "take (min m (length rs)) rs' = take m rs" for m
    using g(2) by (metis take_take)
  note tk = this
  from assms(1) consider "x \<in> set (log_records segs)"
    | m where "x \<in> set (take m rs)" "length (seg_image crc32 (take m rs)) \<le> wf_synced (active_file s)"
    unfolding on_disk_def by blast
  then show ?thesis
  proof cases
    case (2 m)
    with tk [of m] g(3) have "x \<in> set (take (min m (length rs)) rs') \<and>
        length (seg_image crc32 (take (min m (length rs)) rs')) \<le> wf_synced (active_file s')" by simp
    then show ?thesis unfolding on_disk_def by blast
  qed (simp add: on_disk_def g(1))
qed

lemma on_disk_synced:
  assumes "disk_rep crc32 segs cur rs t s" "fully_synced s" "x \<in> set (log_records (segs @ [(cur, rs)]))"
  shows "on_disk crc32 segs rs s x"
  using assms(2,3) disk_repD(11) [OF assms(1)]
  by (auto simp: on_disk_def intro: exI [of _ "length rs"])

lemma log_grows_append:
  "wf_synced (active_file s) \<le> wf_synced (active_file s') \<Longrightarrow> log_grows segs cur rs s segs cur (rs @ rs') s'"
  by (simp add: log_grows_def)

text \<open>A batch with the roll before it.\<close>
lemma write_batch_rep:
  assumes w: "write_batch io now reqs s = (r, s')" and rep: "disk_rep crc32 segs cur rs [] s"
    and live: "writer_live crc32 segs cur rs s" and io: "io_honest io" and pend: "pending_durable_acks s = []"
    and ok: "batch_ok crc32 (segs @ [(cur, rs)]) reqs"
    and cfg: "unat (segment_bytes (wal_cfg s)) < 2 ^ 64 - 1"
    and room: "length (seg_image crc32 (map req_record reqs)) < 2 ^ 64"
  shows "\<exists>segs' cur' rs' t k. disk_rep crc32 segs' cur' rs' t s' \<and> log_grows segs cur rs s segs' cur' rs' s' \<and>
      log_records (segs' @ [(cur', rs')]) = log_records (segs @ [(cur, rs)]) @ map req_record (take k reqs) \<and>
      (r = Ok () \<longrightarrow> length reqs \<le> k \<and> t = [] \<and> writer_live crc32 segs' cur' rs' s' \<and> pending_durable_acks s' = [])"
proof -
  have off: "current_offset s = length (seg_image crc32 rs)" using live by (simp add: writer_live_def)
  let ?full = "current_offset s > HEADER_LEN \<and> min (2 ^ 64 - 1) (current_offset s +
      sum_list (map (\<lambda>r. RECORD_HEADER_LEN + length (req_payload r)) reqs)) > unat (segment_bytes (wal_cfg s))"
  show ?thesis
  proof (cases ?full)
    case False
    then have app: "append_batch io now reqs s = (r, s')" using w unfolding write_batch_def Let_def saturate_u64_def by argo
    have "L + B < 2 ^ 64" if "L > 32 \<longrightarrow> min (2 ^ 64 - 1) (L + B) \<le> unat (segment_bytes (wal_cfg s))"
      "32 \<le> L" "32 + B < 2 ^ 64" for L B :: nat using that cfg by (cases "L = 32") auto
    note fits = this [of "current_offset s" "length (encode_records crc32 (map req_record reqs))"]
    have "current_offset s + length (encode_records crc32 (map req_record reqs)) < 2 ^ 64"
      using False off room unfolding batch_size_encode [of reqs crc32]
      by (intro fits) (auto simp: HEADER_LEN_def not_less simp del: length_concat)
    then have "length (seg_image crc32 (rs @ map req_record reqs)) < 2 ^ 64" using off by simp
    from append_batch_rep [OF app rep live io pend ok this] obtain k t where
      "disk_rep crc32 segs cur (rs @ map req_record (take k reqs)) t s'"
      "wf_synced (active_file s) \<le> wf_synced (active_file s')"
      "r = Ok () \<longrightarrow> length reqs \<le> k \<and> t = [] \<and>
         writer_live crc32 segs cur (rs @ map req_record reqs) s' \<and> pending_durable_acks s' = []" by blast
    then show ?thesis
      by (intro exI [of _ segs] exI [of _ cur] exI [of _ "rs @ map req_record (take k reqs)"] exI [of _ t]
          exI [of _ k]) (auto simp: log_grows_append)
  next
    case True
    obtain r1 s1 where roll: "roll_segment io now s = (r1, s1)" by force
    note R = roll_segment_rep [OF roll rep live io]
    show ?thesis
    proof (cases "r1 = Ok ()")
      case False
      then have "r = r1" "s' = s1" using w True roll R(6)
        by (auto simp: write_batch_def Let_def split: result.splits)
      with False R(1,3) show ?thesis
        by (intro exI [of _ segs] exI [of _ cur] exI [of _ rs] exI [of _ "[]"] exI [of _ 0])
          (simp add: log_grows_refl)
    next
      case rolled: True
      then have app: "append_batch io now reqs s1 = (r, s')" using w True roll
        by (simp add: write_batch_def Let_def)
      let ?segs = "segs @ [(cur, rs)]"
      have ok': "batch_ok crc32 (?segs @ [(cur + 1, [])]) reqs" using ok by (simp add: batch_ok_def)
      from append_batch_rep [OF app _ _ io R(4) ok'] R(2) [OF rolled] room obtain k t where
        "disk_rep crc32 ?segs (cur + 1) (map req_record (take k reqs)) t s'"
        "r = Ok () \<longrightarrow> length reqs \<le> k \<and> t = [] \<and>
           writer_live crc32 ?segs (cur + 1) (map req_record reqs) s' \<and> pending_durable_acks s' = []" by force
      then show ?thesis
        by (intro exI [of _ ?segs] exI [of _ "cur + 1"] exI [of _ "map req_record (take k reqs)"] exI [of _ t]
            exI [of _ k]) (auto simp: log_grows_def)
    qed
  qed
qed

section \<open>What the waiting senders are told\<close>

lemma flush_file_synced:
  assumes "flush_file text now err s = (Ok (), s')" "wr_file s < length (wal_inodes s)"
  shows "fully_synced s'"
  using flush_file_fields(7,11) [OF assms(1)] assms(2) by (simp add: sync_file_def)

lemma append_batch_signals:
  assumes app: "append_batch io now reqs s = (r, s')" and io: "io_honest io"
    and s: "wr_error s = None" "pending_durable_acks s = []" "wr_file s < length (wal_inodes s)"
  shows "tok \<notin> set (batch_tokens reqs) \<Longrightarrow> hm_get (signals s') tok = hm_get (signals s) tok"
    "tok \<in> set (batch_tokens reqs) \<Longrightarrow> r = Ok () \<Longrightarrow> hm_get (signals s') tok = Some (Ok ())"
    "tok \<in> set (batch_tokens reqs) \<Longrightarrow> hm_get (signals s') tok = Some (Ok ()) \<Longrightarrow>
       hm_get (signals s) tok = Some (Ok ()) \<or> r = Ok () \<and> fully_synced s'"
proof -
  define s1 where "s1 = note_batch (current_segment_seq s) (current_offset s) reqs (write_bytes (batch_bytes reqs) s)"
  have s1: "pending_durable_acks s1 = batch_tokens reqs" "signals s1 = signals s"
    "wr_file s1 < length (wal_inodes s1)"
    using s by (simp_all add: s1_def note_batch_def write_bytes_def Let_def)
  consider (failed) "signals s' = signals s" "r \<noteq> Ok ()" | (quiet) "s' = s1" "batch_tokens reqs = []"
    | (flush) "flush_file (wi_text io) now (wi_sync io) s1 = (r, s')"
    using append_batch_written(1) [OF app s(1) _ s(2) s1_def] append_batch_failed [OF app io s(1)]
    by (cases "wi_write io = Written") (auto simp: write_bytes_frame)
  note cs = this
  show "tok \<notin> set (batch_tokens reqs) \<Longrightarrow> hm_get (signals s') tok = hm_get (signals s) tok"
    by (cases rule: cs) (simp_all add: s1 flush_file_signals(1))
  show "tok \<in> set (batch_tokens reqs) \<Longrightarrow> r = Ok () \<Longrightarrow> hm_get (signals s') tok = Some (Ok ())"
    by (cases rule: cs) (auto simp: s1 dest!: flush_file_signals(2) [where tok = tok])
  show "tok \<in> set (batch_tokens reqs) \<Longrightarrow> hm_get (signals s') tok = Some (Ok ()) \<Longrightarrow>
       hm_get (signals s) tok = Some (Ok ()) \<or> r = Ok () \<and> fully_synced s'"
  proof (cases rule: cs)
    assume a: "tok \<in> set (batch_tokens reqs)" "hm_get (signals s') tok = Some (Ok ())"
    case flush
    with a s1(1) have "r = Ok ()" using flush_file_signals(2) [OF flush, of tok] by auto
    with flush_file_synced [of "wi_text io" now "wi_sync io" s1 s'] flush s1(3) show ?thesis by simp
  qed (simp_all add: s1)
qed

lemma roll_segment_signals:
  assumes "roll_segment io now s = (r, s')" "pending_durable_acks s = []"
  shows "signals s' = signals s"
proof -
  obtain r1 s1 where fl: "flush_file (wi_text io) now (wi_roll_sync io) s = (r1, s1)" by force
  moreover have "signals s1 = signals s"
    using fl assms(2) by (auto simp: flush_file_def sync_file_def Let_def split: option.splits)
  ultimately show ?thesis
    using assms(1) by (auto simp: roll_segment_def Let_def split: prod.splits result.splits if_splits option.splits)
qed

lemma write_batch_signals:
  assumes w: "write_batch io now reqs s = (r, s')" and rep: "disk_rep crc32 segs cur rs [] s"
    and live: "writer_live crc32 segs cur rs s" and io: "io_honest io" and pend: "pending_durable_acks s = []"
  shows "tok \<notin> set (batch_tokens reqs) \<Longrightarrow> hm_get (signals s') tok = hm_get (signals s) tok"
    "tok \<in> set (batch_tokens reqs) \<Longrightarrow> r = Ok () \<Longrightarrow> hm_get (signals s') tok = Some (Ok ())"
    "tok \<in> set (batch_tokens reqs) \<Longrightarrow> hm_get (signals s') tok = Some (Ok ()) \<Longrightarrow>
       hm_get (signals s) tok = Some (Ok ()) \<or> r = Ok () \<and> fully_synced s'"
proof -
  obtain r1 s1 where roll: "roll_segment io now s = (r1, s1)" by force
  note R = roll_segment_rep [OF roll rep live io] roll_segment_signals [OF roll pend]
  have f: "wr_error s = None" "wr_file s < length (wal_inodes s)"
    using live disk_repD(6) [OF rep] by (simp_all add: writer_live_def)
  have f1: "wr_error s1 = None" "wr_file s1 < length (wal_inodes s1)" if "r1 = Ok ()"
    using R(2) [OF that] disk_repD(6) by (auto simp: writer_live_def)
  have "append_batch io now reqs s = (r, s') \<or> r1 = Ok () \<and> append_batch io now reqs s1 = (r, s') \<or>
      r \<noteq> Ok () \<and> s' = s1"
    using w roll by (auto simp: write_batch_def Let_def split: if_splits result.splits)
  then obtain s0 where s0: "append_batch io now reqs s0 = (r, s') \<and> wr_error s0 = None \<and>
      wr_file s0 < length (wal_inodes s0) \<or> r \<noteq> Ok () \<and> s' = s0"
    "signals s0 = signals s" "pending_durable_acks s0 = []"
    using R(4,7) pend f f1 by metis
  then show "tok \<notin> set (batch_tokens reqs) \<Longrightarrow> hm_get (signals s') tok = hm_get (signals s) tok"
    "tok \<in> set (batch_tokens reqs) \<Longrightarrow> r = Ok () \<Longrightarrow> hm_get (signals s') tok = Some (Ok ())"
    "tok \<in> set (batch_tokens reqs) \<Longrightarrow> hm_get (signals s') tok = Some (Ok ()) \<Longrightarrow>
       hm_get (signals s) tok = Some (Ok ()) \<or> r = Ok () \<and> fully_synced s'"
    using append_batch_signals [of io now reqs s0 r s' tok] io by auto
qed

lemma flush_for_rep:
  assumes rep: "disk_rep crc32 segs cur rs t s" and pend: "pending_durable_acks s = []"
  shows "disk_rep crc32 segs cur rs t (flush_for io now tok s)"
    "wf_synced (active_file s) \<le> wf_synced (active_file (flush_for io now tok s))"
    "writer_live crc32 segs cur rs s \<Longrightarrow> writer_live crc32 segs cur rs (flush_for io now tok s)"
    "pending_durable_acks (flush_for io now tok s) = []"
    "hm_get (signals (flush_for io now tok s)) k = Some (Ok ()) \<Longrightarrow> k \<noteq> tok \<Longrightarrow> hm_get (signals s) k = Some (Ok ())"
    "hm_keys (signals (flush_for io now tok s)) = insert tok (hm_keys (signals s))"
proof -
  obtain r s1 where fl: "flush_file (wi_text io) now (wi_flush_sync io) s = (r, s1)" by force
  then have ff: "flush_for io now tok s = s1\<lparr>signals := hm_insert tok r (signals s1)\<rparr>"
    by (simp add: flush_for_def)
  note F = flush_file_rep [OF fl rep] flush_file_fields [OF fl]
  have sg: "signals s1 = signals s"
    using fl pend by (auto simp: flush_file_def sync_file_def Let_def split: option.splits)
  show "disk_rep crc32 segs cur rs t (flush_for io now tok s)"
    unfolding ff by (rule disk_rep_cong [OF F(1)]) simp_all
  show "wf_synced (active_file s) \<le> wf_synced (active_file (flush_for io now tok s))"
    "pending_durable_acks (flush_for io now tok s) = []"
    using F(3,9) by (simp_all add: ff)
  show "writer_live crc32 segs cur rs s \<Longrightarrow> writer_live crc32 segs cur rs (flush_for io now tok s)"
    using F(4) by (simp add: ff writer_live_def)
  show "hm_get (signals (flush_for io now tok s)) k = Some (Ok ()) \<Longrightarrow> k \<noteq> tok \<Longrightarrow> hm_get (signals s) k = Some (Ok ())"
    "hm_keys (signals (flush_for io now tok s)) = insert tok (hm_keys (signals s))"
    by (simp_all add: ff sg)
qed

end
