(* ===== verification/Wal_Sys.thy ===== *)
theory Wal_Sys
  imports Wal_Inv
begin

text \<open>
  The log in use: any number of appenders, flush callers and the writer, interleaved
  in any order. An appender takes its id and sends its request in two steps, so that
  requests may enter the channel in another order than that of their ids. The state
  is the log with the requests built but not yet sent.
\<close>

section \<open>Steps\<close>

inductive wal_step ::
  "(bytes \<Rightarrow> u32) \<Rightarrow> wal_state \<times> wal_write_request list \<Rightarrow> wal_state \<times> wal_write_request list \<Rightarrow> bool"
  for crc32 where
  build: "build_request crc32 data None s = (Ok (i, req), s') \<Longrightarrow> wal_next_id s \<noteq> - 1 \<Longrightarrow>
    wal_step crc32 (s, built) (s', built @ [req])"
| build_durable: "build_request crc32 data (Some (oneshots s)) (s\<lparr>oneshots := oneshots s + 1\<rparr>) = (Ok (i, req), s') \<Longrightarrow>
    wal_next_id s \<noteq> - 1 \<Longrightarrow> wal_step crc32 (s, built) (s', built @ [req])"
| build_failed: "build_request crc32 data ack s = (Err e, s') \<Longrightarrow> wal_next_id s \<noteq> - 1 \<Longrightarrow>
    wal_step crc32 (s, built) (s', built)"
| send: "req \<in> set built \<Longrightarrow> send_request req s = (r, s') \<Longrightarrow>
    wal_step crc32 (s, built) (s', remove1 req built)"
| flush: "flush_start s = (r, s') \<Longrightarrow> wal_step crc32 (s, built) (s', built)"
| writer: "io_honest io \<Longrightarrow> wal_step crc32 (s, built) (writer_step io now s, built)"

abbreviation wal_steps where
  "wal_steps crc32 \<equiv> (wal_step crc32)\<^sup>*\<^sup>*"

section \<open>The invariant\<close>

fun msg_req :: "wal_message \<Rightarrow> wal_write_request list" where
  "msg_req (RecordMsg r) = [r]"
| "msg_req (FlushMsg _) = []"

fun msg_tokens :: "wal_message \<Rightarrow> nat list" where
  "msg_tokens (RecordMsg r) = batch_tokens [r]"
| "msg_tokens (FlushMsg tok) = [tok]"

abbreviation queued :: "wal_message list \<Rightarrow> wal_write_request list" where
  "queued ms \<equiv> concat (map msg_req ms)"

abbreviation queued_tokens :: "wal_message list \<Rightarrow> nat list" where
  "queued_tokens ms \<equiv> concat (map msg_tokens ms)"

text \<open>The configuration under which no offset of a segment overflows.\<close>
definition wal_config_ok :: "wal_config \<Rightarrow> bool" where
  "wal_config_ok cfg \<longleftrightarrow>
     0 < channel_capacity cfg \<and> 32 + channel_capacity cfg * (16 + 2 ^ 32) < 2 ^ 64 \<and>
     48 \<le> unat (segment_bytes cfg) \<and> unat (segment_bytes cfg) < 2 ^ 64 - 1"

definition ids_ok :: "(u64 \<times> bytes) list \<Rightarrow> wal_write_request list \<Rightarrow> u64 \<Rightarrow> bool" where
  "ids_ok recs reqs next_id \<longleftrightarrow>
     distinct (map fst recs @ map req_id reqs) \<and> (\<forall>i \<in> set (map fst recs @ map req_id reqs). i < next_id)"

definition tokens_ok :: "nat list \<Rightarrow> (nat, 'a) hash_map \<Rightarrow> nat \<Rightarrow> bool" where
  "tokens_ok toks sgs n \<longleftrightarrow>
     distinct toks \<and> set toks \<inter> hm_keys sgs = {} \<and> (\<forall>tok \<in> set toks \<union> hm_keys sgs. tok < n)"

definition wal_inv ::
  "(bytes \<Rightarrow> u32) \<Rightarrow> (u64 \<times> (u64 \<times> bytes) list) list \<Rightarrow> u64 \<Rightarrow> (u64 \<times> bytes) list \<Rightarrow> wal_state \<Rightarrow>
   wal_write_request list \<Rightarrow> bool" where
  "wal_inv crc32 segs cur rs s built \<longleftrightarrow>
     (\<exists>t. disk_rep crc32 segs cur rs t s \<and>
        (wr_running s \<longrightarrow> t = [] \<and> writer_live crc32 segs cur rs s \<and> pending_durable_acks s = [])) \<and>
     wal_config_ok (wal_cfg s) \<and> length (wal_channel s) \<le> channel_capacity (wal_cfg s) \<and>
     (\<forall>r \<in> set (queued (wal_channel s) @ built). req_ok crc32 r) \<and>
     ids_ok (log_records (segs @ [(cur, rs)])) (queued (wal_channel s) @ built) (wal_next_id s) \<and>
     tokens_ok (queued_tokens (wal_channel s) @ batch_tokens built) (signals s) (oneshots s)"

lemma wal_invD:
  assumes "wal_inv crc32 segs cur rs s built"
  shows "\<exists>t. disk_rep crc32 segs cur rs t s \<and>
        (wr_running s \<longrightarrow> t = [] \<and> writer_live crc32 segs cur rs s \<and> pending_durable_acks s = [])"
    "wal_config_ok (wal_cfg s)" "length (wal_channel s) \<le> channel_capacity (wal_cfg s)"
    "\<And>r. r \<in> set (queued (wal_channel s) @ built) \<Longrightarrow> req_ok crc32 r"
    "ids_ok (log_records (segs @ [(cur, rs)])) (queued (wal_channel s) @ built) (wal_next_id s)"
    "tokens_ok (queued_tokens (wal_channel s) @ batch_tokens built) (signals s) (oneshots s)"
  using assms unfolding wal_inv_def by blast+

lemma wal_invI:
  assumes "disk_rep crc32 segs cur rs t s"
    "wr_running s \<Longrightarrow> t = [] \<and> writer_live crc32 segs cur rs s \<and> pending_durable_acks s = []"
    "wal_config_ok (wal_cfg s)" "length (wal_channel s) \<le> channel_capacity (wal_cfg s)"
    "\<And>r. r \<in> set (queued (wal_channel s) @ built) \<Longrightarrow> req_ok crc32 r"
    "ids_ok (log_records (segs @ [(cur, rs)])) (queued (wal_channel s) @ built) (wal_next_id s)"
    "tokens_ok (queued_tokens (wal_channel s) @ batch_tokens built) (signals s) (oneshots s)"
  shows "wal_inv crc32 segs cur rs s built"
  using assms unfolding wal_inv_def by blast

lemma collect_batch_split:
  assumes "collect_batch r q = (reqs, fl, rest)"
  shows "RecordMsg r # q = map RecordMsg reqs @ (case fl of None \<Rightarrow> [] | Some tok \<Rightarrow> [FlushMsg tok]) @ rest"
proof -
  let ?P = "\<lambda>m. case m of RecordMsg _ \<Rightarrow> True | FlushMsg _ \<Rightarrow> False"
  let ?f = "\<lambda>m. case m of RecordMsg r \<Rightarrow> Some r | FlushMsg _ \<Rightarrow> None"
  have recs: "map RecordMsg (List.map_filter ?f (takeWhile ?P q)) = takeWhile ?P q" for q
    by (induction q) (auto simp: List.map_filter_simps split: wal_message.splits)
  have dr: "drop (length (takeWhile ?P q)) q = dropWhile ?P q" for q by (simp add: dropWhile_eq_drop)
  have split: "map RecordMsg (List.map_filter ?f (takeWhile ?P q)) @ dropWhile ?P q = q"
    unfolding recs by simp
  have "dropWhile ?P q = [] \<or> (\<exists>tok rest. dropWhile ?P q = FlushMsg tok # rest)"
    by (induction q) (auto split: wal_message.splits)
  then show ?thesis
  proof (elim disjE exE)
    assume d: "dropWhile ?P q = []"
    then show ?thesis using assms split unfolding collect_batch_def Let_def dr d by auto
  next
    fix tok rest' assume d: "dropWhile ?P q = FlushMsg tok # rest'"
    then show ?thesis using assms split unfolding collect_batch_def Let_def dr d by auto
  qed
qed

lemma queued_simps [simp]:
  "concat (map (msg_req \<circ> RecordMsg) reqs) = reqs"
  "concat (map (msg_tokens \<circ> RecordMsg) reqs) = batch_tokens reqs"
  by (induction reqs) (auto simp: List.map_filter_simps split: option.splits)

lemma batch_tokens_append [simp]: "batch_tokens (xs @ ys) = batch_tokens xs @ batch_tokens ys"
  by (induction xs) (auto simp: List.map_filter_simps split: option.splits)

section \<open>Preservation\<close>

lemma ids_ok_batch: "ids_ok recs (reqs @ other) n \<Longrightarrow> ids_ok (recs @ map req_record (take k reqs)) other n"
proof -
  assume a: "ids_ok recs (reqs @ other) n"
  have "map req_id reqs = map req_id (take k reqs) @ map req_id (drop k reqs)"
    by (metis append_take_drop_id map_append)
  with a show ?thesis by (auto simp: ids_ok_def o_def)
qed

lemma ids_ok_drop: "ids_ok recs (a @ b) n \<Longrightarrow> ids_ok recs b n"
  by (auto simp: ids_ok_def)

lemma ids_batch_ok:
  "ids_ok (log_records gs) (reqs @ other) n \<Longrightarrow> \<forall>r \<in> set reqs. req_ok crc32 r \<Longrightarrow> batch_ok crc32 gs reqs"
  unfolding ids_ok_def batch_ok_def distinct_append map_append set_append set_map by blast

lemma tokens_ok_told:
  assumes "tokens_ok (a @ b) sgs n" "hm_keys sgs' \<subseteq> hm_keys sgs \<union> set a"
  shows "tokens_ok b sgs' n"
proof -
  define K K' where "K = hm_keys sgs" and "K' = hm_keys sgs'"
  have "K' \<subseteq> K \<union> set a" "set a \<inter> set b = {}" "(set a \<union> set b) \<inter> K = {}" "distinct b"
    "\<forall>tok \<in> set a \<union> set b \<union> K. tok < n"
    using assms by (simp_all add: tokens_ok_def K_def K'_def)
  then have "distinct b \<and> set b \<inter> K' = {} \<and> (\<forall>tok \<in> set b \<union> K'. tok < n)" by blast
  then show ?thesis by (simp add: tokens_ok_def K'_def)
qed

lemma batch_room:
  assumes "\<forall>r \<in> set reqs. req_ok crc32 r" "length reqs \<le> cap" "32 + cap * (16 + 2 ^ 32) < 2 ^ 64"
  shows "length (seg_image crc32 (map req_record reqs)) < 2 ^ 64"
proof -
  have "length (encode_records crc32 (map req_record reqs)) \<le> length reqs * (16 + 2 ^ 32)"
    using assms(1) by (induction reqs) (auto simp: req_ok_def)
  also have "\<dots> \<le> cap * (16 + 2 ^ 32)" using assms(2) by (rule mult_le_mono1)
  finally show ?thesis using assms(3) by simp
qed

lemma write_batch_keys:
  assumes "write_batch io now reqs s = (r, s')" "disk_rep crc32 segs cur rs [] s"
    "writer_live crc32 segs cur rs s" "io_honest io" "pending_durable_acks s = []"
  shows "hm_keys (signals s') \<subseteq> hm_keys (signals s) \<union> set (batch_tokens reqs)"
  using write_batch_signals(1) [OF assms] by (metis UnCI hm_get_None_iff subsetI)

text \<open>The writer takes a batch: the log grows, and who is told \<open>Ok\<close> has its record on disk.\<close>
lemma writer_batch_inv:
  assumes inv: "wal_inv crc32 segs cur rs s built" and run: "wr_running s" and io: "io_honest io"
    and chan: "wal_channel s = map RecordMsg reqs @ fl @ rest"
    and w: "write_batch io now reqs (s\<lparr>wal_channel := rest\<rparr>) = (r, s')"
    and s2: "s2 = (if r = Ok () then s' else writer_stopped s')"
  shows "\<exists>segs' cur' rs'. wal_inv crc32 segs' cur' rs' s2 built \<and> log_grows segs cur rs s segs' cur' rs' s2 \<and>
      (\<forall>q \<in> set reqs. \<forall>tok. req_durable_ack q = Some tok \<longrightarrow> hm_get (signals s2) tok = Some (Ok ()) \<longrightarrow>
         on_disk crc32 segs' rs' s2 (req_record q)) \<and>
      (\<forall>tok. tok \<notin> set (batch_tokens reqs) \<longrightarrow> hm_get (signals s2) tok = hm_get (signals s) tok) \<and>
      tokens_ok (queued_tokens (fl @ wal_channel s2) @ batch_tokens built) (signals s2) (oneshots s2)"
proof -
  let ?s = "s\<lparr>wal_channel := rest\<rparr>"
  note I = wal_invD [OF inv]
  from I(1) run have rep: "disk_rep crc32 segs cur rs [] s" and live: "writer_live crc32 segs cur rs s"
    and pend: "pending_durable_acks s = []" by auto
  have rep0: "disk_rep crc32 segs cur rs [] ?s" by (rule disk_rep_cong [OF rep]) simp_all
  have live0: "writer_live crc32 segs cur rs ?s" and pend0: "pending_durable_acks ?s = []"
    using live pend by (simp_all add: writer_live_def)
  have reqs: "\<forall>r \<in> set reqs. req_ok crc32 r" using I(4) chan by auto
  have ids: "ids_ok (log_records (segs @ [(cur, rs)])) (reqs @ queued (fl @ rest) @ built) (wal_next_id s)"
    using I(5) chan by simp
  have toks: "tokens_ok (batch_tokens reqs @ queued_tokens (fl @ rest) @ batch_tokens built) (signals s) (oneshots s)"
    using I(6) chan by simp
  have "length reqs \<le> channel_capacity (wal_cfg s)" using I(3) chan by simp
  then have room: "length (seg_image crc32 (map req_record reqs)) < 2 ^ 64"
    using I(2) reqs by (intro batch_room) (auto simp: wal_config_ok_def)
  have cfg: "unat (segment_bytes (wal_cfg ?s)) < 2 ^ 64 - 1" using I(2) by (simp add: wal_config_ok_def)
  from write_batch_rep [OF w rep0 live0 io pend0 ids_batch_ok [OF ids reqs] cfg room]
  obtain segs' cur' rs' t k where W: "disk_rep crc32 segs' cur' rs' t s'" "log_grows segs cur rs ?s segs' cur' rs' s'"
    "log_records (segs' @ [(cur', rs')]) = log_records (segs @ [(cur, rs)]) @ map req_record (take k reqs)"
    "r = Ok () \<Longrightarrow> length reqs \<le> k \<and> t = [] \<and> writer_live crc32 segs' cur' rs' s' \<and> pending_durable_acks s' = []"
    by blast
  note S = write_batch_signals [OF w rep0 live0 io pend0] write_batch_keys [OF w rep0 live0 io pend0]
  note F = write_batch_frame [OF w]
  have st: "disk_rep crc32 segs' cur' rs' t s2" "signals s2 = signals s'" "active_file s2 = active_file s'"
    using disk_rep_cong [OF W(1), of "writer_stopped s'"] W(1) by (auto simp: s2 writer_stopped_def)
  have "tokens_ok (queued_tokens (fl @ rest) @ batch_tokens built) (signals s2) (oneshots s2)"
    using tokens_ok_told [OF toks] S(4) F unfolding st(2) s2 by (auto simp: writer_stopped_def)
  moreover have "tokens_ok (queued_tokens (fl @ []) @ batch_tokens built) (signals s2) (oneshots s2)"
    if "tokens_ok (queued_tokens (fl @ rest) @ batch_tokens built) (signals s2) (oneshots s2)"
    using that by (auto simp: tokens_ok_def)
  ultimately have toks2: "tokens_ok (queued_tokens (fl @ wal_channel s2) @ batch_tokens built) (signals s2) (oneshots s2)"
    using F by (auto simp: s2 writer_stopped_def split: if_splits)
  have "wal_inv crc32 segs' cur' rs' s2 built"
  proof (rule wal_invI [OF st(1)])
    show "ids_ok (log_records (segs' @ [(cur', rs')])) (queued (wal_channel s2) @ built) (wal_next_id s2)"
      using ids_ok_drop [of _ "queued fl" "queued rest @ built"] ids_ok_drop [of _ "queued (fl @ rest)" built]
        ids_ok_batch [OF ids, of k] F
      unfolding W(3) s2 by (simp add: writer_stopped_def)
    show "tokens_ok (queued_tokens (wal_channel s2) @ batch_tokens built) (signals s2) (oneshots s2)"
      using tokens_ok_told [of "queued_tokens fl" _ "signals s2" _ "signals s2"] toks2 by simp
  qed (use W(4) F I(2-4) chan in \<open>auto simp: s2 writer_stopped_def split: if_splits\<close>)
  moreover have "log_grows segs cur rs s segs' cur' rs' s2" using W(2) by (simp add: log_grows_def st(3))
  moreover have "on_disk crc32 segs' rs' s2 (req_record q)"
    if q: "q \<in> set reqs" "req_durable_ack q = Some tok" "hm_get (signals s2) tok = Some (Ok ())" for q tok
  proof (rule on_disk_synced [OF st(1)])
    have tok: "tok \<in> set (batch_tokens reqs)" using q(1,2) by (force simp: List.map_filter_def)
    with toks have "hm_get (signals s) tok = None" by (auto simp: tokens_ok_def hm_get_None_iff)
    with S(3) [OF tok] q(3) st(2) have "r = Ok ()" "fully_synced s'" by auto
    then show "fully_synced s2" "req_record q \<in> set (log_records (segs' @ [(cur', rs')]))"
      using W(3,4) q(1) st(3) by auto
  qed
  ultimately show ?thesis using S(1) st(2) toks2 by (intro exI [of _ segs'] exI [of _ cur'] exI [of _ rs']) auto
qed

text \<open>A flush message: nothing is written, nothing on disk is lost.\<close>
lemma flush_for_inv:
  assumes inv: "wal_inv crc32 segs cur rs s built" and run: "wr_running s"
    and toks: "tokens_ok (tok # queued_tokens (wal_channel s) @ batch_tokens built) (signals s) (oneshots s)"
    and s2: "s2 = flush_for io now tok s"
  shows "wal_inv crc32 segs cur rs s2 built" "log_grows segs cur rs s segs cur rs s2"
    "k \<noteq> tok \<Longrightarrow> hm_get (signals s2) k = Some (Ok ()) \<Longrightarrow> hm_get (signals s) k = Some (Ok ())"
proof -
  note I = wal_invD [OF inv]
  from I(1) run have rep: "disk_rep crc32 segs cur rs [] s" and live: "writer_live crc32 segs cur rs s"
    and pend: "pending_durable_acks s = []" by auto
  note F = flush_for_rep [OF rep pend, of io now tok] and G = flush_for_frame [of io now tok s]
  show "k \<noteq> tok \<Longrightarrow> hm_get (signals s2) k = Some (Ok ()) \<Longrightarrow> hm_get (signals s) k = Some (Ok ())"
    unfolding s2 by (rule F(5))
  show "log_grows segs cur rs s segs cur rs s2" unfolding s2 by (rule log_grows_refl [OF F(2)])
  show "wal_inv crc32 segs cur rs s2 built"
  proof (rule wal_invI)
    show "disk_rep crc32 segs cur rs [] s2" unfolding s2 by (rule F(1))
    show "tokens_ok (queued_tokens (wal_channel s2) @ batch_tokens built) (signals s2) (oneshots s2)"
      using tokens_ok_told [of "[tok]" _ "signals s" _ "signals s2"] toks F(6) G by (simp add: s2)
  qed (use F(3,4) live I G in \<open>auto simp: s2\<close>)
qed

text \<open>A request that was told \<open>Ok\<close> by a step is on disk after it.\<close>
definition told_on_disk ::
  "(bytes \<Rightarrow> u32) \<Rightarrow> (u64 \<times> (u64 \<times> bytes) list) list \<Rightarrow> (u64 \<times> bytes) list \<Rightarrow> wal_state \<Rightarrow> wal_state \<Rightarrow> bool" where
  "told_on_disk crc32 segs rs s s' \<longleftrightarrow>
     (\<forall>q \<in> set (queued (wal_channel s)). \<forall>tok. req_durable_ack q = Some tok \<longrightarrow>
        hm_get (signals s') tok = Some (Ok ()) \<longrightarrow> on_disk crc32 segs rs s' (req_record q)) \<and>
     (\<forall>tok. hm_get (signals s') tok = Some (Ok ()) \<longrightarrow>
        hm_get (signals s) tok = Some (Ok ()) \<or> tok \<in> set (queued_tokens (wal_channel s)))"

lemma token_of_queued: "q \<in> set (queued ms) \<Longrightarrow> req_durable_ack q = Some tok \<Longrightarrow> tok \<in> set (queued_tokens ms)"
proof (induction ms)
  case (Cons m ms)
  then show ?case by (cases m) (auto simp: List.map_filter_simps)
qed simp

lemma queued_not_told:
  assumes "wal_inv crc32 segs cur rs s built" "tok \<in> set (queued_tokens (wal_channel s) @ batch_tokens built)"
  shows "hm_get (signals s) tok = None"
  using wal_invD(6) [OF assms(1)] assms(2) by (auto simp: tokens_ok_def hm_get_None_iff)

lemma writer_flush_msg:
  assumes inv: "wal_inv crc32 segs cur rs s built" and run: "wr_running s"
    and chan: "wal_channel s = FlushMsg tok # queue"
    and s2: "s2 = flush_for io now tok (s\<lparr>wal_channel := queue\<rparr>)"
  shows "wal_inv crc32 segs cur rs s2 built \<and> log_grows segs cur rs s segs cur rs s2 \<and> told_on_disk crc32 segs rs s s2"
proof -
  let ?s = "s\<lparr>wal_channel := queue\<rparr>"
  note I = wal_invD [OF inv]
  from I(1) obtain t where t: "disk_rep crc32 segs cur rs t s"
    "wr_running s \<longrightarrow> t = [] \<and> writer_live crc32 segs cur rs s \<and> pending_durable_acks s = []" by blast
  have toks: "tokens_ok (tok # queued_tokens queue @ batch_tokens built) (signals s) (oneshots s)"
    using I(6) chan by simp
  have "wal_inv crc32 segs cur rs ?s built"
  proof (rule wal_invI [OF disk_rep_cong [OF t(1)]])
    show "tokens_ok (queued_tokens (wal_channel ?s) @ batch_tokens built) (signals ?s) (oneshots ?s)"
      using tokens_ok_told [of "[tok]" "queued_tokens queue @ batch_tokens built" "signals s" _ "signals s"] toks
      by auto
  qed (use t(2) I(2-5) chan in \<open>auto simp: writer_live_def\<close>)
  note F = flush_for_inv [OF this _ _ s2] and N = queued_not_told [OF inv]
  have F1: "wal_inv crc32 segs cur rs s2 built" and F2: "log_grows segs cur rs ?s segs cur rs s2"
    and F3: "\<And>k. k \<noteq> tok \<Longrightarrow> hm_get (signals s2) k = Some (Ok ()) \<Longrightarrow> hm_get (signals s) k = Some (Ok ())"
    using F run toks by simp_all
  have "told_on_disk crc32 segs rs s s2"
    unfolding told_on_disk_def
  proof (intro conjI ballI allI impI)
    fix q k assume q: "q \<in> set (queued (wal_channel s))" "req_durable_ack q = Some k"
      "hm_get (signals s2) k = Some (Ok ())"
    from q(1) chan have k: "k \<in> set (queued_tokens queue)" using q(2) token_of_queued [of q queue] by simp
    with toks have "k \<noteq> tok" by (auto simp: tokens_ok_def)
    with F3 q(3) N [of k] k chan show "on_disk crc32 segs rs s2 (req_record q)" by auto
  qed (use F3 chan in auto)
  with F1 F2 show ?thesis by (simp add: log_grows_def)
qed

lemma told_flush:
  assumes inv: "wal_inv crc32 segs cur rs s2 built" "wr_running s2"
    "tokens_ok (tok # queued_tokens (wal_channel s2) @ batch_tokens built) (signals s2) (oneshots s2)"
    and told: "told_on_disk crc32 segs rs s s2"
    and tok: "tok \<in> set (queued_tokens (wal_channel s))" "\<forall>q \<in> set (queued (wal_channel s)). req_durable_ack q \<noteq> Some tok"
  shows "told_on_disk crc32 segs rs s (flush_for io now tok s2)"
  unfolding told_on_disk_def
proof (intro conjI ballI allI impI)
  note F = flush_for_inv [OF inv refl, where io = io and now = now]
  let ?s3 = "flush_for io now tok s2"
  fix q k assume q: "q \<in> set (queued (wal_channel s))" "req_durable_ack q = Some k"
    "hm_get (signals ?s3) k = Some (Ok ())"
  with tok(2) have "k \<noteq> tok" by auto
  with F(3) q told on_disk_grows [OF _ F(2)] show "on_disk crc32 segs rs ?s3 (req_record q)"
    unfolding told_on_disk_def by blast
next
  fix k assume "hm_get (signals (flush_for io now tok s2)) k = Some (Ok ())"
  then show "hm_get (signals s) k = Some (Ok ()) \<or> k \<in> set (queued_tokens (wal_channel s))"
    using flush_for_inv(3) [OF inv refl, where io = io and now = now and k = k] told tok(1) unfolding told_on_disk_def by (cases "k = tok") auto
qed

lemma told_batch:
  assumes toks: "distinct (batch_tokens reqs @ queued_tokens rest)"
    and chan: "wal_channel s = map RecordMsg reqs @ rest"
    and none: "\<And>tok. tok \<in> set (queued_tokens (wal_channel s)) \<Longrightarrow> hm_get (signals s) tok = None"
    and disk: "\<And>q tok. q \<in> set reqs \<Longrightarrow> req_durable_ack q = Some tok \<Longrightarrow> hm_get (signals s2) tok = Some (Ok ()) \<Longrightarrow>
         on_disk crc32 segs rs s2 (req_record q)"
    and same: "\<And>tok. tok \<notin> set (batch_tokens reqs) \<Longrightarrow> hm_get (signals s2) tok = hm_get (signals s) tok"
  shows "told_on_disk crc32 segs rs s s2"
  unfolding told_on_disk_def
proof (intro conjI ballI allI impI)
  fix q k assume q: "q \<in> set (queued (wal_channel s))" "req_durable_ack q = Some k"
    "hm_get (signals s2) k = Some (Ok ())"
  then have k: "k \<in> set (batch_tokens reqs)" using same none token_of_queued [OF q(1,2)] by force
  have "q \<in> set reqs"
  proof (rule ccontr)
    assume "q \<notin> set reqs"
    with q(1) have "q \<in> set (queued rest)" unfolding chan by auto
    from token_of_queued [OF this q(2)] k toks show False by auto
  qed
  with disk q(2,3) show "on_disk crc32 segs rs s2 (req_record q)" by blast
next
  fix k assume "hm_get (signals s2) k = Some (Ok ())"
  then show "hm_get (signals s) k = Some (Ok ()) \<or> k \<in> set (queued_tokens (wal_channel s))"
    using same [of k] unfolding chan by auto
qed

lemma writer_record_msg:
  assumes inv: "wal_inv crc32 segs cur rs s built" and run: "wr_running s" and io: "io_honest io"
    and chan: "wal_channel s = RecordMsg record # queue"
  shows "\<exists>segs' cur' rs'. wal_inv crc32 segs' cur' rs' (writer_step io now s) built \<and>
      log_grows segs cur rs s segs' cur' rs' (writer_step io now s) \<and>
      told_on_disk crc32 segs' rs' s (writer_step io now s)"
proof -
  obtain reqs fl rest where cb: "collect_batch record queue = (reqs, fl, rest)" by (cases "collect_batch record queue")
  let ?fl = "case fl of None \<Rightarrow> [] | Some tok \<Rightarrow> [FlushMsg tok]"
  obtain r s1 where w: "write_batch io now reqs (s\<lparr>wal_channel := rest\<rparr>) = (r, s1)" by force
  define s2 where "s2 = (if r = Ok () then s1 else writer_stopped s1)"
  have ws: "writer_step io now s = (if r = Ok () then case fl of Some tok \<Rightarrow> flush_for io now tok s2 | None \<Rightarrow> s2 else s2)"
    using run chan cb w by (auto simp: writer_step_def s2_def split: result.splits option.splits)
  note split = collect_batch_split [OF cb, folded chan]
  from writer_batch_inv [OF inv run io split w s2_def] obtain segs' cur' rs' where B:
    "wal_inv crc32 segs' cur' rs' s2 built" "log_grows segs cur rs s segs' cur' rs' s2"
    "\<And>q tok. q \<in> set reqs \<Longrightarrow> req_durable_ack q = Some tok \<Longrightarrow> hm_get (signals s2) tok = Some (Ok ()) \<Longrightarrow>
         on_disk crc32 segs' rs' s2 (req_record q)"
    "\<And>tok. tok \<notin> set (batch_tokens reqs) \<Longrightarrow> hm_get (signals s2) tok = hm_get (signals s) tok"
    "tokens_ok (queued_tokens (?fl @ wal_channel s2) @ batch_tokens built) (signals s2) (oneshots s2)" by blast
  have toks: "distinct (batch_tokens reqs @ queued_tokens (?fl @ rest))"
    using wal_invD(6) [OF inv] unfolding split by (auto simp: tokens_ok_def)
  have "hm_get (signals s) tok = None" if "tok \<in> set (queued_tokens (wal_channel s))" for tok
    using queued_not_told [OF inv] that by simp
  from told_batch [OF toks split this B(3,4)] have told: "told_on_disk crc32 segs' rs' s s2" .
  show ?thesis
  proof (cases "r = Ok () \<and> fl \<noteq> None")
    case False
    then have "writer_step io now s = s2" by (auto simp: ws)
    with B(1,2) told show ?thesis by metis
  next
    case True
    then obtain tok where tok: "fl = Some tok" by auto
    have run2: "wr_running s2" using write_batch_frame [OF w] run True by (simp add: s2_def)
    have "\<forall>q \<in> set (queued (wal_channel s)). req_durable_ack q \<noteq> Some tok"
      using toks token_of_queued [of _ "map RecordMsg reqs" tok] token_of_queued [of _ rest tok]
      unfolding split by (auto simp: tok)
    note T = told_flush [OF B(1) run2 _ told _ this, where io = io and now = now]
    note F = flush_for_inv(1,2) [OF B(1) run2 _ refl, where tok = tok and io = io and now = now]
    have "log_grows segs cur rs s segs' cur' rs' (flush_for io now tok s2)"
      using B(2) F(2) B(5) by (auto simp: log_grows_def tok)
    with T F(1) B(5) True tok ws show ?thesis unfolding split by auto
  qed
qed

lemma writer_step_frame:
  "set (wal_channel (writer_step io now s)) \<subseteq> set (wal_channel s)"
  "oneshots (writer_step io now s) = oneshots s" "wal_cfg (writer_step io now s) = wal_cfg s"
proof -
  have "set rest \<subseteq> set queue" if "collect_batch r queue = (reqs, fl, rest)" for r queue reqs fl rest
    using that by (auto simp: collect_batch_def Let_def split: list.splits wal_message.splits
        dest!: arg_cong [of _ _ set] dest: in_set_dropD)
  then show "set (wal_channel (writer_step io now s)) \<subseteq> set (wal_channel s)"
    by (auto simp: writer_step_def writer_stopped_def flush_for_frame
        split: list.splits wal_message.splits prod.splits result.splits option.splits
        dest!: write_batch_frame; blast)
  show "oneshots (writer_step io now s) = oneshots s" "wal_cfg (writer_step io now s) = wal_cfg s"
    by (auto simp: writer_step_def writer_stopped_def flush_for_frame
        split: list.splits wal_message.splits prod.splits result.splits option.splits dest!: write_batch_frame)
qed

lemma writer_step_inv:
  assumes inv: "wal_inv crc32 segs cur rs s built" and io: "io_honest io"
  shows "\<exists>segs' cur' rs'. wal_inv crc32 segs' cur' rs' (writer_step io now s) built \<and>
      log_grows segs cur rs s segs' cur' rs' (writer_step io now s) \<and>
      told_on_disk crc32 segs' rs' s (writer_step io now s)"
proof (cases "wr_running s \<and> wal_channel s \<noteq> []")
  case False
  then have ws: "writer_step io now s = s" by (auto simp: writer_step_def)
  have "told_on_disk crc32 segs rs s s"
    using queued_not_told [OF inv] token_of_queued by (fastforce simp: told_on_disk_def)
  with inv show ?thesis unfolding ws by (metis log_grows_refl order.refl)
next
  case True
  then obtain m queue where chan: "wal_channel s = m # queue" by (cases "wal_channel s") auto
  show ?thesis
  proof (cases m)
    case (RecordMsg r)
    with writer_record_msg [OF inv _ io] True chan show ?thesis by blast
  next
    case (FlushMsg tok)
    with True chan have "writer_step io now s = flush_for io now tok (s\<lparr>wal_channel := queue\<rparr>)"
      by (simp add: writer_step_def)
    with writer_flush_msg [OF inv _ chan [unfolded FlushMsg]] True show ?thesis by metis
  qed
qed

text \<open>Steps that leave the directory and the writer alone.\<close>
lemma wal_inv_queue:
  assumes inv: "wal_inv crc32 segs cur rs s built"
    and s': "s' = s\<lparr>wal_channel := c, wal_next_id := n, oneshots := k\<rparr>"
    and chan: "length c \<le> channel_capacity (wal_cfg s)"
    and reqs: "\<And>r. r \<in> set (queued c @ built') \<Longrightarrow> req_ok crc32 r"
    and ids: "ids_ok (log_records (segs @ [(cur, rs)])) (queued c @ built') n"
    and toks: "tokens_ok (queued_tokens c @ batch_tokens built') (signals s) k"
  shows "wal_inv crc32 segs cur rs s' built'"
proof -
  note I = wal_invD [OF inv]
  from I(1) obtain t where t: "disk_rep crc32 segs cur rs t s"
    "wr_running s \<longrightarrow> t = [] \<and> writer_live crc32 segs cur rs s \<and> pending_durable_acks s = []" by blast
  show ?thesis
    by (rule wal_invI [OF disk_rep_cong [OF t(1)]])
      (use t(2) I(2) chan reqs ids toks in \<open>auto simp: s' writer_live_def\<close>)
qed

lemma ids_ok_new:
  assumes "ids_ok recs reqs n" "n \<noteq> - 1" "req_id r = n"
  shows "ids_ok recs (reqs @ [r]) (n + 1)"
  using assms less_succ_word [OF assms(2)] by (auto simp: ids_ok_def)

lemma ids_ok_skip: "ids_ok recs reqs n \<Longrightarrow> n \<noteq> - 1 \<Longrightarrow> ids_ok recs reqs (n + 1)"
  using less_succ_word [of n] by (auto simp: ids_ok_def)

lemma tokens_ok_new: "tokens_ok toks sgs n \<Longrightarrow> tokens_ok (toks @ [n]) sgs (n + 1)"
  unfolding tokens_ok_def by (force intro: less_SucI)

lemma tokens_ok_perm: "tokens_ok a sgs n \<Longrightarrow> mset a = mset b \<Longrightarrow> tokens_ok b sgs n"
  unfolding tokens_ok_def by (metis mset_eq_imp_distinct_iff set_mset_mset)

lemma tokens_ok_mono: "tokens_ok a sgs n \<Longrightarrow> n \<le> m \<Longrightarrow> tokens_ok a sgs m"
  unfolding tokens_ok_def by (meson order_less_le_trans)

lemma ids_ok_perm:
  assumes "ids_ok recs a n" "mset a = mset b"
  shows "ids_ok recs b n"
proof -
  have m: "mset (map req_id a) = mset (map req_id b)" using assms(2) by simp
  have "set (map req_id a) = set (map req_id b)" "distinct (map req_id a) = distinct (map req_id b)"
    using mset_eq_setD [OF m] mset_eq_imp_distinct_iff [OF m] by simp_all
  then have "ids_ok recs a n = ids_ok recs b n" by (simp only: ids_ok_def distinct_append set_append)
  with assms(1) show ?thesis by simp
qed

lemma build_requestD:
  assumes "build_request crc32 data ack s = (Ok (i, req), s')"
  shows "req_ok crc32 req" "req_id req = wal_next_id s" "req_durable_ack req = ack"
    "s' = s\<lparr>wal_next_id := wal_next_id s + 1\<rparr>" "req_payload req = data" "i = wal_next_id s"
  using assms by (auto simp: build_request_def req_ok_def Let_def u32_try_from_def split: if_splits)

text \<open>Building a request.\<close>
lemma build_inv:
  assumes inv: "wal_inv crc32 segs cur rs s built" and ids: "wal_next_id s \<noteq> - 1"
    and b: "build_request crc32 data ack (s\<lparr>oneshots := k\<rparr>) = (Ok (i, req), s')"
    and ack: "ack = None \<and> k = oneshots s \<or> ack = Some (oneshots s) \<and> k = oneshots s + 1"
  shows "wal_inv crc32 segs cur rs s' (built @ [req])"
proof -
  note B = build_requestD [OF b] and I = wal_invD [OF inv]
  show ?thesis
  proof (rule wal_inv_queue [OF inv])
    show "s' = s\<lparr>wal_channel := wal_channel s, wal_next_id := wal_next_id s + 1, oneshots := k\<rparr>"
      using B(4) by simp
    show "ids_ok (log_records (segs @ [(cur, rs)])) (queued (wal_channel s) @ built @ [req]) (wal_next_id s + 1)"
      using ids_ok_new [OF I(5) ids, of req] B(2) by simp
    show "tokens_ok (queued_tokens (wal_channel s) @ batch_tokens (built @ [req])) (signals s) k"
      using ack I(6) tokens_ok_new [OF I(6)] B(3) by (auto simp: List.map_filter_simps)
  qed (use I(3,4) B(1) in auto)
qed

lemma send_inv:
  assumes inv: "wal_inv crc32 segs cur rs s built" and req: "req \<in> set built"
    and snd: "send_request req s = (r, s')"
  shows "wal_inv crc32 segs cur rs s' (remove1 req built)"
proof -
  note I = wal_invD [OF inv]
  from snd have s': "s' = s\<lparr>wal_channel := wal_channel s @ c, wal_next_id := wal_next_id s, oneshots := oneshots s\<rparr> \<and>
      (length (wal_channel s @ c) \<le> channel_capacity (wal_cfg s))"
    if "c = (if r = Ok () then [RecordMsg req] else [])" for c
    using that I(3) by (auto simp: send_request_def split: if_splits)
  define c where "c = (if r = Ok () then [RecordMsg req] else [])"
  have perm: "mset built = mset (req # remove1 req built)" using req by simp
  then have mt: "mset (batch_tokens built) = mset (batch_tokens (req # remove1 req built))"
  proof -
    have "mset (batch_tokens xs) = mset (batch_tokens ys)" if "mset xs = mset ys" for xs ys
      unfolding List.map_filter_def using that by (metis (no_types, lifting) mset_filter mset_map)
    from this [OF perm] show ?thesis .
  qed
  let ?ids = "ids_ok (log_records (segs @ [(cur, rs)]))" and ?bt = "batch_tokens (remove1 req built)"
  have q: "?ids (q @ remove1 req built) (wal_next_id s)"
    if "mset (queued (wal_channel s) @ req # remove1 req built) = mset (p @ q @ remove1 req built)" for p q
    by (rule ids_ok_drop [of _ p], rule ids_ok_perm [OF I(5)]) (use perm that in simp)
  have tk: "tokens_ok (q @ ?bt) (signals s) (oneshots s)"
    if "mset (queued_tokens (wal_channel s) @ batch_tokens [req] @ ?bt) = mset (p @ q @ ?bt)" for p q
    by (rule tokens_ok_told [of p _ "signals s"], rule tokens_ok_perm [OF I(6)])
      (use mt that in \<open>auto simp: List.map_filter_simps split: option.splits\<close>)
  show ?thesis
  proof (rule wal_inv_queue [OF inv])
    show "s' = s\<lparr>wal_channel := wal_channel s @ c, wal_next_id := wal_next_id s, oneshots := oneshots s\<rparr>"
      "length (wal_channel s @ c) \<le> channel_capacity (wal_cfg s)" using s' [OF c_def] by simp_all
    show "?ids (queued (wal_channel s @ c) @ remove1 req built) (wal_next_id s)"
      by (rule q [of "if r = Ok () then [] else [req]"]) (simp add: c_def)
    show "tokens_ok (queued_tokens (wal_channel s @ c) @ ?bt) (signals s) (oneshots s)"
      by (rule tk [of "if r = Ok () then [] else batch_tokens [req]"]) (simp add: c_def)
  qed (use I(4) req in \<open>auto simp: c_def dest: notin_set_remove1 split: if_splits\<close>)
qed

text \<open>Every step keeps the invariant, extends the log and loses nothing on disk.\<close>
lemma wal_step_inv:
  assumes step: "wal_step crc32 (s, built) (s', built')" and inv: "wal_inv crc32 segs cur rs s built"
  shows "\<exists>segs' cur' rs'. wal_inv crc32 segs' cur' rs' s' built' \<and> log_grows segs cur rs s segs' cur' rs' s' \<and>
      told_on_disk crc32 segs' rs' s s'"
proof -
  have quiet: ?thesis if "wal_inv crc32 segs cur rs s' built'" "signals s' = signals s"
    "wal_inodes s' = wal_inodes s" "wr_file s' = wr_file s"
  proof -
    have "told_on_disk crc32 segs rs s s'"
      using queued_not_told [OF inv] token_of_queued that(2) by (fastforce simp: told_on_disk_def)
    moreover have "log_grows segs cur rs s segs cur rs s'" using that(3,4) by (intro log_grows_refl) simp
    ultimately show ?thesis using that(1) by blast
  qed
  note I = wal_invD [OF inv]
  from step show ?thesis
  proof cases
    case (build data i req)
    then have b: "build_request crc32 data None (s\<lparr>oneshots := oneshots s\<rparr>) = (Ok (i, req), s')" by simp
    show ?thesis
      by (rule quiet) (use build_inv [OF inv _ b] build build_requestD(4) [OF b] in simp_all)
  next
    case (build_durable data i req)
    show ?thesis
      by (rule quiet) (use build_inv [OF inv build_durable(3,2)] build_durable(1) build_requestD(4) [OF build_durable(2)] in simp_all)
  next
    case (build_failed data ack e)
    then have s': "s' = s\<lparr>wal_channel := wal_channel s, wal_next_id := wal_next_id s + 1, oneshots := oneshots s\<rparr>"
      by (auto simp: build_request_def Let_def)
    show ?thesis
      by (rule quiet, rule wal_inv_queue [OF inv s'])
        (use I(3-6) ids_ok_skip build_failed in \<open>simp_all add: s'\<close>)
  next
    case (send req r)
    then have "signals s' = signals s" "wal_inodes s' = wal_inodes s" "wr_file s' = wr_file s"
      by (auto simp: send_request_def split: if_splits)
    then show ?thesis using quiet send_inv [OF inv] send by auto
  next
    case (flush r)
    show ?thesis
    proof (cases "s' = s")
      case True
      with quiet inv flush show ?thesis by simp
    next
      case False
      with flush have s': "s' = s\<lparr>wal_channel := wal_channel s @ [FlushMsg (oneshots s)],
          wal_next_id := wal_next_id s, oneshots := oneshots s + 1\<rparr>"
        "length (wal_channel s @ [FlushMsg (oneshots s)]) \<le> channel_capacity (wal_cfg s)"
        by (auto simp: flush_start_def split: if_splits)
      have "tokens_ok (queued_tokens (wal_channel s @ [FlushMsg (oneshots s)]) @ batch_tokens built)
          (signals s) (oneshots s + 1)"
        by (rule tokens_ok_perm [OF tokens_ok_new [OF I(6)]]) simp
      then show ?thesis
        by (intro quiet wal_inv_queue [OF inv s'(1) s'(2)]) (use I(4,5) flush in \<open>auto simp: s'(1)\<close>)
    qed
  next
    case (writer io now)
    with writer_step_inv [OF inv] show ?thesis by simp
  qed
qed

end
