(* ===== verification/Wal_Crash.thy ===== *)
theory Wal_Crash
  imports Wal_Sys
begin

text \<open>
  Crashes, opening the log again, and reading it. A crash cuts every file anywhere
  behind the prefix that was synced; names are kept. Opening such a directory
  rebuilds the index of the whole records that are left.
\<close>

section \<open>Directories that hold a log\<close>

definition disk_image ::
  "(bytes \<Rightarrow> u32) \<Rightarrow> (u64 \<times> (u64 \<times> bytes) list) list \<Rightarrow> bytes \<Rightarrow> wal_files \<Rightarrow> bool" where
  "disk_image crc32 gs t files \<longleftrightarrow>
     gs \<noteq> [] \<and> hm_ok files \<and> sorted_wrt (<) (map fst gs) \<and> torn crc32 t \<and>
     (\<forall>name \<in> hm_keys files. \<forall>seq. parse_segment_seq name = Some seq \<longrightarrow>
        name = segment_name seq \<and> seq \<in> fst ` set gs) \<and>
     (\<forall>g \<in> set gs. payloads_fit (snd g) \<and> length (seg_image crc32 (snd g)) < 2 ^ 64 \<and>
        (\<exists>f. hm_get files (segment_name (fst g)) = Some f \<and>
           wf_data f = seg_image crc32 (snd g) @ (if fst g = fst (last gs) then t else [])))"

lemma disk_imageD:
  assumes "disk_image crc32 gs t files"
  shows "gs \<noteq> []" "hm_ok files" "sorted_wrt (<) (map fst gs)" "torn crc32 t"
    "\<And>name seq. name \<in> hm_keys files \<Longrightarrow> parse_segment_seq name = Some seq \<Longrightarrow>
        name = segment_name seq \<and> seq \<in> fst ` set gs"
    "\<And>g. g \<in> set gs \<Longrightarrow> payloads_fit (snd g)" "\<And>g. g \<in> set gs \<Longrightarrow> length (seg_image crc32 (snd g)) < 2 ^ 64"
    "\<And>g. g \<in> set gs \<Longrightarrow> \<exists>f t'. hm_get files (segment_name (fst g)) = Some f \<and> torn crc32 t' \<and>
           wf_data f = seg_image crc32 (snd g) @ t'"
proof -
  show t: "gs \<noteq> []" "hm_ok files" "sorted_wrt (<) (map fst gs)" "torn crc32 t"
    using assms unfolding disk_image_def by blast+
  show "\<And>name seq. name \<in> hm_keys files \<Longrightarrow> parse_segment_seq name = Some seq \<Longrightarrow>
        name = segment_name seq \<and> seq \<in> fst ` set gs"
    using assms unfolding disk_image_def by blast
  fix g assume "g \<in> set gs"
  with assms obtain f where f: "hm_get files (segment_name (fst g)) = Some f"
      "wf_data f = seg_image crc32 (snd g) @ (if fst g = fst (last gs) then t else [])"
    and "payloads_fit (snd g)" "length (seg_image crc32 (snd g)) < 2 ^ 64"
    unfolding disk_image_def by blast
  then show "payloads_fit (snd g)" "length (seg_image crc32 (snd g)) < 2 ^ 64" by blast+
  have "torn crc32 (if fst g = fst (last gs) then t else [])" using t(4) by simp
  with f show "\<exists>f t'. hm_get files (segment_name (fst g)) = Some f \<and> torn crc32 t' \<and>
           wf_data f = seg_image crc32 (snd g) @ t'" by blast
qed

text \<open>The listing of such a directory, sorted, gives its segments in order.\<close>
lemma listed_segments:
  assumes img: "disk_image crc32 gs t files"
  shows "sort (List.map_filter (\<lambda>(name, _). parse_segment_seq name) files) = map fst gs"
proof -
  note D = disk_imageD [OF img]
  let ?seqs = "List.map_filter (\<lambda>(name, _). parse_segment_seq name) files"
  have mem: "seq \<in> set ?seqs \<longleftrightarrow> (\<exists>name \<in> hm_keys files. parse_segment_seq name = Some seq)" for seq
    by (force simp: List.map_filter_def)
  have set: "set ?seqs = set (map fst gs)"
  proof (intro set_eqI iffI)
    fix seq assume "seq \<in> set (map fst gs)"
    then obtain g where "g \<in> set gs" "seq = fst g" by auto
    with D(8) show "seq \<in> set ?seqs" unfolding mem by (metis hm_get_Some_key parse_segment_name)
  qed (use D(5) mem in auto)
  have "distinct (List.map_filter (\<lambda>(name, _). parse_segment_seq name) fs)"
    if "hm_ok fs" "hm_keys fs \<subseteq> hm_keys files" for fs :: wal_files
    using that
  proof (induction fs)
    case (Cons a fs)
    have "seq \<notin> set (List.map_filter (\<lambda>(name, _). parse_segment_seq name) fs)"
      if "parse_segment_seq (fst a) = Some seq" for seq
    proof
      assume "seq \<in> set (List.map_filter (\<lambda>(name, _). parse_segment_seq name) fs)"
      then obtain b where "b \<in> set fs" "parse_segment_seq (fst b) = Some seq" by (force simp: List.map_filter_def)
      with that D(5) Cons.prems have "fst a = fst b" by (metis image_eqI list.set_intros subsetD)
      with Cons.prems(1) \<open>b \<in> set fs\<close> show False by force
    qed
    with Cons show ?case by (cases a) (auto simp: List.map_filter_simps split: option.splits)
  qed (simp add: List.map_filter_simps)
  from this [OF D(2)] have "distinct ?seqs" by simp
  moreover have "sorted (map fst gs)" "distinct (map fst gs)"
    using D(3) by (auto simp: strict_sorted_iff)
  ultimately show ?thesis using set by (intro sorted_distinct_set_unique) auto
qed

section \<open>Opening\<close>

lemma index_records:
  "fst (foldl (index_record seq) acc es) =
     fold (\<lambda>(i, loc). hm_insert i loc) (map (\<lambda>(i, off). (i, \<lparr>segment_seq = seq, offset_in_segment = off\<rparr>)) es) (fst acc)"
proof (induction es arbitrary: acc)
  case (Cons e es)
  then show ?case by (cases acc, cases e) (auto simp: index_record_def)
qed simp

lemma index_records_next:
  assumes "- 1 \<notin> fst ` set es"
  shows "snd acc \<le> snd (foldl (index_record seq) acc es) \<and> (\<forall>i \<in> fst ` set es. i < snd (foldl (index_record seq) acc es))"
  using assms
proof (induction es arbitrary: acc)
  case (Cons e es)
  obtain m n i off where a: "acc = (m, n)" "e = (i, off)" by (cases acc, cases e)
  have "i \<noteq> - 1" using Cons.prems a by auto
  then have "n \<le> snd (index_record seq acc e)" "i < snd (index_record seq acc e)"
    using less_succ_word [of i] by (auto simp: a index_record_def)
  moreover have "snd (index_record seq acc e) \<le> snd (foldl (index_record seq) (index_record seq acc e) es)"
    "\<forall>j \<in> fst ` set es. j < snd (foldl (index_record seq) (index_record seq acc e) es)"
    using Cons.IH [of "index_record seq acc e"] Cons.prems by simp_all
  ultimately show ?case using a by auto
qed simp

lemma load_segments_image:
  assumes img: "disk_image crc32 gs t files" and io: "\<And>seq. read_err seq = None"
    and sub: "set gs' \<subseteq> set gs" and ids: "distinct (map fst (fst acc) @ map fst (log_records gs'))"
  shows "\<exists>n. load_segments crc32 read_err files (map fst gs') acc tail =
      Ok ((fst acc @ log_entries gs', n),
          if gs' = [] then tail else (fst (last gs'), length (seg_image crc32 (snd (last gs'))))) \<and>
      (- 1 \<notin> fst ` set (log_records gs') \<longrightarrow> snd acc \<le> n \<and> (\<forall>i \<in> fst ` set (log_records gs'). i < n))"
  using sub ids
proof (induction gs' arbitrary: acc tail)
  case (Cons g gs')
  note D = disk_imageD [OF img]
  from Cons.prems have g: "g \<in> set gs" by simp
  from D(8) [OF g] obtain f t' where f: "hm_get files (segment_name (fst g)) = Some f" "torn crc32 t'"
    "wf_data f = seg_image crc32 (snd g) @ t'" by blast
  from rebuild_segment_index_encoded [OF D(6) [OF g] f(2) D(7) [OF g]] f(3) obtain nid where rb:
    "rebuild_segment_index crc32 (wf_data f) = Ok (map (\<lambda>(i, _, off). (i, off)) (located HEADER_LEN (snd g)), nid,
        HEADER_LEN + length (encode_records crc32 (snd g)))" by auto
  define acc' where "acc' = foldl (index_record (fst g)) acc (map (\<lambda>(i, _, off). (i, off)) (located HEADER_LEN (snd g)))"
  have "fst acc' = fold (\<lambda>(i, loc). hm_insert i loc) (seg_entries g) (fst acc)"
    using index_records by (simp add: acc'_def seg_entries_def o_def case_prod_unfold)
  also have "\<dots> = fst acc @ seg_entries g"
    using Cons.prems(2) by (intro fold_insert_fresh) (auto simp flip: set_map)
  finally have acc': "fst acc' = fst acc @ seg_entries g" .
  have "validate_header (wf_data f) = Ok ()" unfolding f(3) by (simp add: validate_write_header)
  then have ld: "load_segments crc32 read_err files (map fst (g # gs')) acc tail =
      load_segments crc32 read_err files (map fst gs') acc' (fst g, length (seg_image crc32 (snd g)))"
    using f(1) io rb by (simp add: acc'_def HEADER_LEN_def)
  have "\<exists>n. load_segments crc32 read_err files (map fst gs') acc' (fst g, length (seg_image crc32 (snd g))) =
      Ok ((fst acc' @ log_entries gs', n), if gs' = [] then (fst g, length (seg_image crc32 (snd g)))
        else (fst (last gs'), length (seg_image crc32 (snd (last gs'))))) \<and>
      (- 1 \<notin> fst ` set (log_records gs') \<longrightarrow> snd acc' \<le> n \<and> (\<forall>i \<in> fst ` set (log_records gs'). i < n))"
    using Cons.prems by (intro Cons.IH) (auto simp: acc')
  then obtain n where n: "load_segments crc32 read_err files (map fst gs') acc' (fst g, length (seg_image crc32 (snd g))) =
      Ok ((fst acc' @ log_entries gs', n), if gs' = [] then (fst g, length (seg_image crc32 (snd g)))
        else (fst (last gs'), length (seg_image crc32 (snd (last gs')))))"
    "- 1 \<notin> fst ` set (log_records gs') \<longrightarrow> snd acc' \<le> n \<and> (\<forall>i \<in> fst ` set (log_records gs'). i < n)" by blast
  have "snd acc \<le> snd acc' \<and> (\<forall>i \<in> fst ` set (snd g). i < snd acc')" if "- 1 \<notin> fst ` set (snd g)"
  proof -
    have "fst ` set (map (\<lambda>(i, _, off). (i, off)) (located off rs)) = fst ` set rs" for off rs
      by (induction off rs rule: located.induct) auto
    note k = this [of HEADER_LEN "snd g"]
    show ?thesis
      using index_records_next [of "map (\<lambda>(i, _, off). (i, off)) (located HEADER_LEN (snd g))" acc "fst g"] that
      unfolding k acc'_def by blast
  qed
  with n(2) have "snd acc \<le> n \<and> (\<forall>i \<in> fst ` set (log_records (g # gs')). i < n)"
    if "- 1 \<notin> fst ` set (log_records (g # gs'))"
    using that unfolding list.map concat.simps set_append image_Un Un_iff ball_Un
    by (meson order.trans less_le_trans)
  with ld n(1) show ?case by (intro exI [of _ n]) (simp add: acc')
qed (simp add: prod_eq_iff)

text \<open>The outcomes of opening without an I/O error.\<close>
definition open_io_ok :: "open_io \<Rightarrow> bool" where
  "open_io_ok io \<longleftrightarrow> oi_mkdir io = None \<and> oi_list io = None \<and> (\<forall>seq. oi_read io seq = None) \<and>
     oi_create io = None \<and> oi_header io = None \<and> oi_tail io = None"

definition dir_io_ok :: "dir_io \<Rightarrow> bool" where
  "dir_io_ok io \<longleftrightarrow> di_list io = None \<and> (\<forall>seq. di_file io seq = None)"

text \<open>A log that can be read: its index and its directory show the same segments.\<close>
definition readable ::
  "(bytes \<Rightarrow> u32) \<Rightarrow> (u64 \<times> (u64 \<times> bytes) list) list \<Rightarrow> wal_state \<Rightarrow> bool" where
  "readable crc32 gs s \<longleftrightarrow>
     wal_index s = log_entries gs \<and> (\<exists>t. disk_image crc32 gs t (files_of s)) \<and> distinct (map fst (log_records gs))"

lemma segment_bytes_guard: "48 \<le> unat (w :: u64) \<Longrightarrow> \<not> w < of_nat (HEADER_LEN + RECORD_HEADER_LEN)"
  by (simp add: HEADER_LEN_def RECORD_HEADER_LEN_def word_less_nat_alt)

lemma files_of_opened [simp]: "files_of (wal_opened cfg now files acc seq file off) = files"
  by (rule nth_equalityI) (simp_all add: wal_opened_def)

lemma open_image:
  assumes img: "disk_image crc32 gs t files" and io: "open_io_ok io" and cfg: "wal_config_ok cfg"
    and ids: "distinct (map fst (log_records gs))"
  shows "\<exists>s. open_with_config crc32 display cfg io now (PathIsDir files) = (Ok s, PathIsDir files) \<and> readable crc32 gs s"
proof -
  note D = disk_imageD [OF img]
  let ?seqs = "List.map_filter (\<lambda>(name, _). parse_segment_seq name) files"
  from load_segments_image [OF img _ order.refl, of "oi_read io" "([], 1)" "(last (map fst gs), HEADER_LEN)"] io ids
  obtain n where ld: "load_segments crc32 (oi_read io) files (map fst gs) ([], 1) (last (map fst gs), HEADER_LEN) =
      Ok ((log_entries gs, n), (fst (last gs), length (seg_image crc32 (snd (last gs)))))"
    using D(1) by (auto simp: open_io_ok_def)
  define s where "s = wal_opened cfg now files (log_entries gs, n) (fst (last gs))
      (file_index files (segment_name (fst (last gs)))) (length (seg_image crc32 (snd (last gs))))"
  have "open_with_config crc32 display cfg io now (PathIsDir files) = (Ok s, PathIsDir files)"
    using cfg io D(1) ld segment_bytes_guard [of "segment_bytes cfg"] listed_segments [OF img]
    by (simp add: open_with_config_def list_segment_seqs_def open_existing_def open_io_ok_def wal_config_ok_def
        s_def last_map flip: listed_segments)
  moreover have "readable crc32 gs s"
    using img ids unfolding readable_def by (auto simp: s_def) (simp add: wal_opened_def)
  ultimately show ?thesis by blast
qed

section \<open>Reading\<close>

abbreviation as_records :: "(u64 \<times> bytes) list \<Rightarrow> wal_record list" where
  "as_records rs \<equiv> map (\<lambda>(i, p). \<lparr>rec_id = i, rec_payload = p\<rparr>) rs"

lemma records_of_located:
  "map (\<lambda>(i, p, _). \<lparr>rec_id = i, rec_payload = p\<rparr>) (filter (\<lambda>(i, _, _). i \<ge> k) (located off rs)) =
     as_records (filter (\<lambda>(i, _). i \<ge> k) rs)"
  by (induction off rs rule: located.induct) auto

lemma read_segments_image:
  assumes img: "disk_image crc32 gs t files" and io: "dir_io_ok io"
    and sub: "set gs' \<subseteq> set gs" and q: "q \<notin> fst ` set gs'"
  shows "read_segments crc32 io files q off min_id (map fst gs') =
      Ok (as_records (filter (\<lambda>(i, _). i \<ge> min_id) (log_records gs')))"
  using sub q
proof (induction gs')
  case (Cons g gs')
  note D = disk_imageD [OF img]
  from Cons.prems have g: "g \<in> set gs" by simp
  from D(8) [OF g] obtain f t' where f: "hm_get files (segment_name (fst g)) = Some f" "torn crc32 t'"
    "wf_data f = seg_image crc32 (snd g) @ t'" by blast
  with scan_segment [OF D(6) [OF g] f(2) D(7) [OF g]] Cons io show ?case
    by (auto simp: dir_io_ok_def records_of_located)
qed simp

lemma located_mem:
  "(i, \<lparr>segment_seq = q, offset_in_segment = HEADER_LEN + length (encode_records crc32 r1)\<rparr>) \<in>
     set (seg_entries (q, r1 @ (i, p) # r2))"
  by (simp add: seg_entries_def located_append [of HEADER_LEN r1 _ crc32])

lemma hd_sort_key_unique:
  assumes "distinct (map fst es)" "(i, v) \<in> set es" "\<forall>e \<in> set es. i \<le> fst e"
  shows "hd (sort_key fst es) = (i :: 'a :: linorder, v)"
proof -
  have ne: "sort_key fst es \<noteq> []" using assms(2) by (metis empty_iff set_empty set_sort)
  then have m: "hd (sort_key fst es) \<in> set es" by (metis hd_in_set set_sort)
  have "(i, v) \<in> set (sort_key fst es)" using assms(2) by simp
  with ne sorted_sort_key [of fst es] have "fst (hd (sort_key fst es)) \<le> i"
    by (cases "sort_key fst es") auto
  with assms(3) m have "fst (hd (sort_key fst es)) = i" by (meson antisym)
  with m assms(1,2) show ?thesis by (metis eq_key_imp_eq_value prod.collapse)
qed

lemma iterate_from_start:
  assumes "m = filter (\<lambda>(j, _). k \<le> j) (wal_index s)" "hd (sort_key fst m) = (i, loc)" "m \<noteq> []" "di_list io = None"
  shows "iterate_from crc32 io k s =
      read_segments crc32 io (files_of s) (segment_seq loc) (offset_in_segment loc) i
        (filter (\<lambda>seq. seq \<ge> segment_seq loc) (sort (List.map_filter (\<lambda>(name, _). parse_segment_seq name) (files_of s))))"
  using assms(2-4) unfolding iterate_from_def list_segment_seqs_def assms(1) [symmetric] by simp

text \<open>Reading starts at the record with the smallest id and goes to the end of the log.\<close>
lemma iterate_from_readable:
  assumes rd: "readable crc32 (g1 @ (q, r1 @ (i, p) # r2) # g2) s" and io: "dir_io_ok io"
    and low: "k \<le> i" "\<forall>j \<in> fst ` set (log_records (g1 @ (q, r1 @ (i, p) # r2) # g2)). k \<le> j \<longrightarrow> i \<le> j"
  shows "iterate_from crc32 io k s =
      Ok (as_records (filter (\<lambda>(j, _). i \<le> j) ((i, p) # r2 @ log_records g2)))"
proof -
  let ?gs = "g1 @ (q, r1 @ (i, p) # r2) # g2"
  let ?loc = "\<lparr>segment_seq = q, offset_in_segment = HEADER_LEN + length (encode_records crc32 r1)\<rparr>"
  let ?m = "filter (\<lambda>(j, _). k \<le> j) (log_entries ?gs)"
  from rd obtain t where img: "disk_image crc32 ?gs t (files_of s)" and idx: "wal_index s = log_entries ?gs"
    and ids: "distinct (map fst (log_records ?gs))" by (auto simp: readable_def)
  note D = disk_imageD [OF img]
  have mem: "(i, ?loc) \<in> set ?m" using located_mem [of i q crc32 r1 p r2] low(1) by auto
  have h: "hd (sort_key fst ?m) = (i, ?loc)"
  proof (rule hd_sort_key_unique [OF _ mem])
    have "distinct (map fst (log_entries ?gs))" using ids by (simp only: fst_log_entries)
    then show "distinct (map fst ?m)" by (rule distinct_map_filter)
    show "\<forall>e \<in> set ?m. i \<le> fst e"
    proof
      fix e assume "e \<in> set ?m"
      then have "k \<le> fst e" "fst e \<in> hm_keys (log_entries ?gs)" by (simp_all only: set_filter) auto
      with low(2) show "i \<le> fst e" unfolding keys_log_entries by blast
    qed
  qed
  have ne: "?m \<noteq> []" using mem by (rule length_pos_if_in_set [THEN length_greater_0_conv [THEN iffD1]])
  have dl: "di_list io = None" using io by (simp add: dir_io_ok_def)
  note it = iterate_from_start [of ?m k s i ?loc io crc32,
      unfolded listed_segments [OF img] idx record_location.simps, OF refl h ne dl]
  have srt: "filter (\<lambda>seq. seq \<ge> q) (map fst ?gs) = map fst ((q, r1 @ (i, p) # r2) # g2)"
  proof -
    have "\<forall>x \<in> set g1. fst x < q" "\<forall>x \<in> set g2. q < fst x" using D(3) by (auto simp: sorted_wrt_append)
    then have "filter (\<lambda>seq. seq \<ge> q) (map fst g1) = []" "filter (\<lambda>seq. seq \<ge> q) (map fst g2) = map fst g2"
      by (auto simp: filter_empty_conv not_le intro!: filter_True order.strict_implies_order)
    then show ?thesis by simp
  qed
  have q: "q \<notin> fst ` set g2" using D(3) by (auto simp: sorted_wrt_append)
  have g: "(q, r1 @ (i, p) # r2) \<in> set ?gs" by simp
  from D(8) [OF g] obtain f t' where f: "hm_get (files_of s) (segment_name q) = Some f" "torn crc32 t'"
    "wf_data f = seg_image crc32 (r1 @ (i, p) # r2) @ t'" by auto
  from scan_segment_from [of r1 "(i, p) # r2" crc32 t'] D(6,7) [OF g] f obtain e where
    sc: "scan_from crc32 (wf_data f) (HEADER_LEN + length (encode_records crc32 r1)) =
      Ok (located (HEADER_LEN + length (encode_records crc32 r1)) ((i, p) # r2), e)" by auto
  show ?thesis
    unfolding it srt using read_segments_image [OF img io _ q, of "HEADER_LEN + length (encode_records crc32 r1)" i] f(1) sc io
    by (simp add: dir_io_ok_def records_of_located del: located.simps) (simp add: subset_iff)
qed

section \<open>Crashes\<close>

text \<open>A file after a crash: what was synced, and any part of what followed it. What is left is on disk.\<close>
definition crash_file :: "wal_file \<Rightarrow> wal_file \<Rightarrow> bool" where
  "crash_file f f' \<longleftrightarrow>
     take (length (wf_data f')) (wf_data f) = wf_data f' \<and> wf_synced f \<le> length (wf_data f') \<and>
     wf_synced f' = length (wf_data f')"

definition crash :: "wal_state \<Rightarrow> wal_files \<Rightarrow> bool" where
  "crash s files \<longleftrightarrow> list_all2 (\<lambda>(n, f) (n', f'). n' = n \<and> crash_file f f') (files_of s) files"

lemma hm_get_files_of: "hm_get (files_of s) name = map_option (\<lambda>i. wal_inodes s ! i) (hm_get (wal_names s) name)"
proof -
  have "hm_get (map (\<lambda>(n, i). (n, wal_inodes s ! i)) ns) name = map_option (\<lambda>i. wal_inodes s ! i) (hm_get ns name)"
    for ns :: "(rstring, nat) hash_map" by (induction ns) auto
  then show ?thesis .
qed

lemma crash_files:
  assumes "crash s files"
  shows "map fst files = map fst (wal_names s)"
    "hm_get (files_of s) name = Some f \<Longrightarrow> \<exists>f'. hm_get files name = Some f' \<and> crash_file f f'"
proof -
  have "map fst files = map fst fs \<and>
      (\<forall>f. hm_get fs name = Some f \<longrightarrow> (\<exists>f'. hm_get files name = Some f' \<and> crash_file f f'))"
    if "list_all2 (\<lambda>(n, f) (n', f'). n' = n \<and> crash_file f f') fs files" for fs
    using that by (induction rule: list_all2_induct) auto
  from this [of "files_of s"] assms
  show "map fst files = map fst (wal_names s)"
    "hm_get (files_of s) name = Some f \<Longrightarrow> \<exists>f'. hm_get files name = Some f' \<and> crash_file f f'"
    by (auto simp: crash_def o_def case_prod_unfold)
qed

lemma crash_active:
  assumes rep: "disk_rep crc32 segs cur rs t s" and f: "crash_file (active_file s) f"
  shows "\<exists>k t'. wf_data f = seg_image crc32 (take k rs) @ t' \<and> torn crc32 t' \<and>
      (\<forall>m. length (seg_image crc32 (take m rs)) \<le> wf_synced (active_file s) \<longrightarrow> take m rs = take m (take k rs))"
proof -
  note D = disk_repD [OF rep]
  define n where "n = length (wf_data f)"
  from f D(11,12) have n: "HEADER_LEN \<le> n" "wf_data f = take n (seg_image crc32 rs @ t)"
    "wf_synced (active_file s) \<le> n" by (simp_all add: crash_file_def n_def)
  from take_encode_records [OF D(8,9), of "n - HEADER_LEN"] obtain k t' where k:
    "take (n - HEADER_LEN) (encode_records crc32 rs @ t) = encode_records crc32 (take k rs) @ t'" "torn crc32 t'"
    "\<And>m. length (encode_records crc32 (take m rs)) \<le> n - HEADER_LEN \<Longrightarrow> take m rs = take (min m k) rs" by blast
  have "take m rs = take m (take k rs)" if "length (seg_image crc32 (take m rs)) \<le> wf_synced (active_file s)" for m
    using that n(3) k(3) [of m] by (simp add: HEADER_LEN_def)
  then show ?thesis using n k(1,2) by (intro exI [of _ k] exI [of _ t']) (simp add: HEADER_LEN_def)
qed

text \<open>After a crash the directory holds the log up to some record, with all that was on disk.\<close>
lemma crash_image:
  assumes rep: "disk_rep crc32 segs cur rs t s" and cr: "crash s files"
  shows "\<exists>k t'. disk_image crc32 (segs @ [(cur, take k rs)]) t' files \<and>
      (\<forall>x. on_disk crc32 segs rs s x \<longrightarrow> x \<in> set (log_records (segs @ [(cur, take k rs)])))"
proof -
  note D = disk_repD [OF rep] and C = crash_files [OF cr]
  from C(2) [of "segment_name cur"] D(5) obtain f where f: "hm_get files (segment_name cur) = Some f"
    "crash_file (active_file s) f" by (auto simp: hm_get_files_of)
  from crash_active [OF rep f(2)] obtain k t' where k: "wf_data f = seg_image crc32 (take k rs) @ t'" "torn crc32 t'"
    "\<And>m. length (seg_image crc32 (take m rs)) \<le> wf_synced (active_file s) \<Longrightarrow> take m rs = take m (take k rs)" by blast
  let ?gs = "segs @ [(cur, take k rs)]"
  have less: "fst g \<noteq> cur" if "g \<in> set segs" for g using D(2) that by (auto simp: sorted_wrt_append)
  have keys: "hm_keys files = hm_keys (wal_names s)" using arg_cong [OF C(1), of set] by simp
  have seg: "payloads_fit (snd g) \<and> length (seg_image crc32 (snd g)) < 2 ^ 64 \<and>
        (\<exists>f. hm_get files (segment_name (fst g)) = Some f \<and>
           wf_data f = seg_image crc32 (snd g) @ (if fst g = fst (last ?gs) then t' else []))" if g: "g \<in> set ?gs" for g
  proof (cases "g \<in> set segs")
    case True
    from D(4) [OF this] obtain ino where ino: "payloads_fit (snd g)" "length (seg_image crc32 (snd g)) < 2 ^ 64"
      "hm_get (wal_names s) (segment_name (fst g)) = Some ino"
      "wal_inodes s ! ino = \<lparr>wf_data = seg_image crc32 (snd g), wf_synced = length (seg_image crc32 (snd g))\<rparr>"
      by (auto simp: sealed_def)
    from C(2) [of "segment_name (fst g)" "wal_inodes s ! ino"] ino(3) obtain f' where
      "hm_get files (segment_name (fst g)) = Some f'" "crash_file (wal_inodes s ! ino) f'" by (auto simp: hm_get_files_of)
    with ino(1,2,4) less [OF True] show ?thesis by (auto simp: crash_file_def)
  next
    case False
    with g have "g = (cur, take k rs)" by simp
    moreover have "payloads_fit (take k rs)" using D(8) set_take_subset by fast
    ultimately show ?thesis using f(1) k(1) length_encode_take [of crc32 k rs] D(10) by auto
  qed
  have "disk_image crc32 ?gs t' files"
    unfolding disk_image_def
  proof (intro conjI)
    show "hm_ok files" using D(1) C(1) by simp
    show "\<forall>name \<in> hm_keys files. \<forall>seq. parse_segment_seq name = Some seq \<longrightarrow>
        name = segment_name seq \<and> seq \<in> fst ` set ?gs" unfolding keys using D(3) by auto
  qed (use D(2) k(2) seg in auto)
  moreover have "x \<in> set (take k rs)" if "x \<in> set (take m rs)"
    "length (seg_image crc32 (take m rs)) \<le> wf_synced (active_file s)" for x m
    using that(1) k(3) [OF that(2)] by (metis in_set_takeD)
  ultimately show ?thesis unfolding on_disk_def by (intro exI [of _ k] exI [of _ t']) auto
qed

section \<open>The state after opening\<close>

text \<open>A directory of whole records that are all on disk, as a clean shutdown leaves it.\<close>
definition clean_dir :: "(bytes \<Rightarrow> u32) \<Rightarrow> (u64 \<times> (u64 \<times> bytes) list) list \<Rightarrow> wal_files \<Rightarrow> bool" where
  "clean_dir crc32 gs files \<longleftrightarrow>
     disk_image crc32 gs [] files \<and>
     (\<forall>g \<in> set gs. \<forall>f. hm_get files (segment_name (fst g)) = Some f \<longrightarrow> wf_synced f = length (wf_data f))"

lemma file_index_get:
  assumes "hm_get files name = Some f"
  shows "file_index files name < length files" "files ! file_index files name = (name, f)"
proof -
  have "file_index files name < length files \<and> files ! file_index files name = (name, f)"
    using assms by (induction files) (auto simp: file_index_def split: if_splits)
  then show "file_index files name < length files" "files ! file_index files name = (name, f)" by auto
qed

lemma hm_get_numbered:
  assumes "hm_ok files" "hm_get files name = Some f"
  shows "hm_get (map (\<lambda>i. (fst (files ! i), i)) [0..<length files]) name = Some (file_index files name)"
proof -
  have "map fst (map (\<lambda>i. (fst (files ! i), i)) [0..<length files]) = map fst files"
    by (rule nth_equalityI) simp_all
  with assms(1) have "hm_ok (map (\<lambda>i. (fst (files ! i), i)) [0..<length files])" by simp
  moreover have "(name, file_index files name) \<in> set (map (\<lambda>i. (fst (files ! i), i)) [0..<length files])"
    using file_index_get [OF assms(2)] by (auto simp: image_iff)
  ultimately show ?thesis by (simp only: hm_mem_iff_get)
qed

lemma wal_opened_inv:
  assumes dir: "clean_dir crc32 (segs @ [(cur, rs)]) files" and cfg: "wal_config_ok cfg"
    and ids: "distinct (map fst (log_records (segs @ [(cur, rs)])))" "\<forall>i \<in> fst ` set (log_records (segs @ [(cur, rs)])). i < n"
  shows "wal_inv crc32 segs cur rs (wal_opened cfg now files (log_entries (segs @ [(cur, rs)]), n) cur
      (file_index files (segment_name cur)) (length (seg_image crc32 rs))) []"
    (is "wal_inv _ _ _ _ ?s _")
proof -
  let ?gs = "segs @ [(cur, rs)]"
  from dir have img: "disk_image crc32 ?gs [] files"
    and syn: "\<And>g f. g \<in> set ?gs \<Longrightarrow> hm_get files (segment_name (fst g)) = Some f \<Longrightarrow> wf_synced f = length (wf_data f)"
    unfolding clean_dir_def by blast+
  note D = disk_imageD [OF img]
  have get: "hm_get (wal_names ?s) (segment_name (fst g)) = Some (file_index files (segment_name (fst g)))"
    "file_index files (segment_name (fst g)) < length (wal_inodes ?s)"
    "wal_inodes ?s ! file_index files (segment_name (fst g)) =
      \<lparr>wf_data = seg_image crc32 (snd g), wf_synced = length (seg_image crc32 (snd g))\<rparr>"
    if g: "g \<in> set ?gs" for g
  proof -
    from g img obtain f where f: "hm_get files (segment_name (fst g)) = Some f" "wf_data f = seg_image crc32 (snd g)"
      unfolding disk_image_def by fastforce
    with hm_get_numbered [OF D(2) f(1)] file_index_get [OF f(1)] syn [OF g f(1)]
    show "hm_get (wal_names ?s) (segment_name (fst g)) = Some (file_index files (segment_name (fst g)))"
      "file_index files (segment_name (fst g)) < length (wal_inodes ?s)"
      "wal_inodes ?s ! file_index files (segment_name (fst g)) =
        \<lparr>wf_data = seg_image crc32 (snd g), wf_synced = length (seg_image crc32 (snd g))\<rparr>"
      by (simp_all add: wal_opened_def)
  qed
  have inj: "file_index files (segment_name (fst g)) \<noteq> file_index files (segment_name cur)" if g: "g \<in> set segs" for g
  proof -
    have "fst g \<noteq> cur" using D(3) g by (auto simp: sorted_wrt_append)
    moreover obtain f f' where "hm_get files (segment_name (fst g)) = Some f" "hm_get files (segment_name cur) = Some f'"
      using D(8) [of g] D(8) [of "(cur, rs)"] g by auto
    ultimately show ?thesis using file_index_get(2) by (metis fst_conv segment_name_inj)
  qed
  have map: "map fst (wal_names ?s) = map fst files"
    by (rule nth_equalityI) (simp_all add: wal_opened_def)
  have keys: "hm_keys (wal_names ?s) = hm_keys files" using arg_cong [OF map, of set] by simp
  have "disk_rep crc32 segs cur rs [] ?s"
  proof (rule disk_repI)
    show "\<And>name seq. name \<in> hm_keys (wal_names ?s) \<Longrightarrow> parse_segment_seq name = Some seq \<Longrightarrow>
        name = segment_name seq \<and> seq \<in> set (map fst segs @ [cur])" unfolding keys using D(5) by fastforce
    show "sealed crc32 ?s g" if "g \<in> set segs" for g
      unfolding sealed_def using get [of g] inj [OF that] D(6,7) [of g] that by (auto simp: wal_opened_def)
    show "hm_ok (wal_names ?s)" using map D(2) by simp
  qed (use D(3) D(6,7) [of "(cur, rs)"] get [of "(cur, rs)"] in \<open>simp_all add: wal_opened_def HEADER_LEN_def\<close>)
  then show ?thesis
    by (rule wal_invI) (use cfg ids in \<open>auto simp: wal_opened_def writer_live_def ids_ok_def tokens_ok_def List.map_filter_simps\<close>)
qed

end
