(* ===== verification/Wal_Props.thy ===== *)
theory Wal_Props
  imports Wal_Crash
begin

text \<open>
  Properties of the write-ahead log: what an acknowledged append guarantees across a
  crash, what reading returns, that the writer answers everyone, compaction, and the
  cases in which records are lost.
\<close>

section \<open>Reachable states\<close>

definition no_segments :: "wal_path \<Rightarrow> bool" where
  "no_segments path = (case path of
     PathMissing \<Rightarrow> True | PathIsFile \<Rightarrow> False
   | PathIsDir files \<Rightarrow> hm_ok files \<and> (\<forall>name \<in> hm_keys files. parse_segment_seq name = None))"

text \<open>The log opened in a fresh directory or in one left by a clean shutdown, and then used.\<close>
inductive wal_reach :: "(bytes \<Rightarrow> u32) \<Rightarrow> wal_state \<times> wal_write_request list \<Rightarrow> bool" for crc32 where
  fresh: "open_with_config crc32 display cfg io now path = (Ok s, path') \<Longrightarrow> no_segments path \<Longrightarrow>
    open_io_ok io \<Longrightarrow> wal_config_ok cfg \<Longrightarrow> wal_reach crc32 (s, [])"
| reopened: "open_with_config crc32 display cfg io now (PathIsDir files) = (Ok s, path') \<Longrightarrow> clean_dir crc32 gs files \<Longrightarrow>
    distinct (map fst (log_records gs)) \<Longrightarrow> - 1 \<notin> fst ` set (log_records gs) \<Longrightarrow>
    open_io_ok io \<Longrightarrow> wal_config_ok cfg \<Longrightarrow> wal_reach crc32 (s, [])"
| step: "wal_reach crc32 x \<Longrightarrow> wal_step crc32 x y \<Longrightarrow> wal_reach crc32 y"

lemma open_fresh_inv:
  assumes op: "open_with_config crc32 display cfg io now path = (Ok s, path')" and path: "no_segments path"
    and io: "open_io_ok io" and cfg: "wal_config_ok cfg"
  shows "wal_inv crc32 [] 1 [] s []"
proof -
  define files where "files = (case path of PathIsDir fs \<Rightarrow> fs | _ \<Rightarrow> [])"
  define f where "f = \<lparr>wf_data = write_header, wf_synced = length write_header\<rparr>"
  have none: "hm_ok files" "\<And>name. name \<in> hm_keys files \<Longrightarrow> parse_segment_seq name = None"
    using path by (auto simp: files_def no_segments_def split: wal_path.splits)
  have lst: "List.map_filter (\<lambda>(name, _). parse_segment_seq name) files = []"
    using none(2) by (force simp: List.map_filter_def filter_empty_conv)
  have seg: "hm_get files (segment_name 1) = None" using none(2) [of "segment_name 1"] by (auto simp: hm_get_None_iff)
  have "path \<noteq> PathIsFile" using path by (auto simp: no_segments_def)
  then have s: "s = wal_opened cfg now (files @ [(segment_name 1, f)]) ([], 1) 1 (length files) HEADER_LEN"
    using op io cfg segment_bytes_guard [of "segment_bytes cfg"] lst seg
    by (auto simp: open_with_config_def open_fresh_def header_file_def list_segment_seqs_def open_io_ok_def
        wal_config_ok_def Let_def f_def files_def split: if_splits)
  have new: "hm_get (files @ [(segment_name 1, f)]) (segment_name 1) = Some f"
    using seg by (simp add: map_add_Some_iff)
  have img: "disk_image crc32 [(1, [])] [] (files @ [(segment_name 1, f)])"
    unfolding disk_image_def using none seg new by (auto simp: f_def hm_get_None_iff)
  then have "clean_dir crc32 ([] @ [(1, [])]) (files @ [(segment_name 1, f)])"
    using new by (simp add: clean_dir_def f_def)
  note inv = wal_opened_inv [OF this cfg, of 1 now]
  have "file_index (files @ [(segment_name 1, f)]) (segment_name 1) = length files"
    using seg by (induction files) (auto simp: file_index_def split: if_splits)
  with inv show ?thesis by (simp add: s HEADER_LEN_def seg_entries_def)
qed

lemma open_clean_inv:
  assumes op: "open_with_config crc32 display cfg io now (PathIsDir files) = (Ok s, path')"
    and dir: "clean_dir crc32 gs files" and ids: "distinct (map fst (log_records gs))" "- 1 \<notin> fst ` set (log_records gs)"
    and io: "open_io_ok io" and cfg: "wal_config_ok cfg"
  shows "\<exists>segs cur rs. wal_inv crc32 segs cur rs s []"
proof -
  have img: "disk_image crc32 gs [] files" using dir by (simp add: clean_dir_def)
  note D = disk_imageD [OF img]
  obtain segs cur rs where gs: "gs = segs @ [(cur, rs)]"
    using D(1) by (metis append_butlast_last_id surj_pair)
  from load_segments_image [OF img _ order.refl, of "oi_read io" "([], 1)" "(last (map fst gs), HEADER_LEN)"] io ids
  obtain n where ld: "load_segments crc32 (oi_read io) files (map fst gs) ([], 1) (last (map fst gs), HEADER_LEN) =
      Ok ((log_entries gs, n), (cur, length (seg_image crc32 rs)))" "\<forall>i \<in> fst ` set (log_records gs). i < n"
    using D(1) gs by (auto simp: open_io_ok_def simp del: set_concat)
  have "s = wal_opened cfg now files (log_entries gs, n) cur (file_index files (segment_name cur)) (length (seg_image crc32 rs))"
    using op cfg io D(1) ld(1) segment_bytes_guard [of "segment_bytes cfg"] listed_segments [OF img]
    by (simp add: open_with_config_def list_segment_seqs_def open_existing_def open_io_ok_def wal_config_ok_def)
  with wal_opened_inv [OF dir [unfolded gs] cfg ids(1) [unfolded gs] ld(2) [unfolded gs]] gs show ?thesis by auto
qed

lemma wal_reach_inv:
  assumes "wal_reach crc32 x"
  shows "\<exists>segs cur rs. wal_inv crc32 segs cur rs (fst x) (snd x)"
  using assms
proof induction
  case (fresh display cfg io now path s path')
  from open_fresh_inv [OF fresh] show ?case by auto
next
  case (reopened display cfg io now files s path' gs)
  from open_clean_inv [OF reopened] show ?case by auto
next
  case (step x y)
  then show ?case using wal_step_inv [of crc32 "fst x" "snd x" "fst y" "snd y"] by (metis prod.collapse)
qed

section \<open>Following one durable append\<close>

text \<open>The only holder of a sender is the request it was made for.\<close>
definition owner :: "nat \<Rightarrow> wal_write_request \<Rightarrow> wal_state \<Rightarrow> wal_write_request list \<Rightarrow> bool" where
  "owner tok req s built \<longleftrightarrow>
     tok < oneshots s \<and> FlushMsg tok \<notin> set (wal_channel s) \<and>
     (\<forall>r \<in> set (queued (wal_channel s) @ built). req_durable_ack r = Some tok \<longrightarrow> r = req)"

lemma owner_queued:
  assumes "owner tok req s built" "tok \<in> set (queued_tokens (wal_channel s))"
  shows "req \<in> set (queued (wal_channel s)) \<and> req_durable_ack req = Some tok"
proof -
  from assms(2) obtain m where m: "m \<in> set (wal_channel s)" "tok \<in> set (msg_tokens m)" by auto
  with assms(1) obtain r where r: "m = RecordMsg r" "req_durable_ack r = Some tok"
    by (cases m) (auto simp: owner_def List.map_filter_def split: if_splits)
  with m(1) have "r \<in> set (queued (wal_channel s))" by force
  with assms(1) r(2) show ?thesis by (auto simp: owner_def)
qed

lemma queued_mono: "set ms \<subseteq> set ms' \<Longrightarrow> set (queued ms) \<subseteq> set (queued ms')"
  by auto

lemma owner_step:
  assumes step: "wal_step crc32 (s, built) (s', built')" and own: "owner tok req s built"
  shows "owner tok req s' built'"
  using step
proof cases
  case (writer io now)
  then have "set (wal_channel s') \<subseteq> set (wal_channel s)" "oneshots s' = oneshots s" "built' = built"
    using writer_step_frame by simp_all
  note W = this queued_mono [OF this(1)]
  have "r = req" if "r \<in> set (queued (wal_channel s') @ built')" "req_durable_ack r = Some tok" for r
  proof -
    have "r \<in> set (queued (wal_channel s) @ built)" using that(1) W(3,4) by (simp only: set_append) blast
    with own that(2) show ?thesis unfolding owner_def by blast
  qed
  moreover have "FlushMsg tok \<notin> set (wal_channel s')" "tok < oneshots s'" using own W(1,2) by (auto simp: owner_def)
  ultimately show ?thesis unfolding owner_def by blast
next
  case (build data i req)
  with own show ?thesis using build_requestD [OF build(2)] by (auto simp: owner_def)
next
  case (build_durable data i req)
  with own show ?thesis using build_requestD [OF build_durable(2)] by (auto simp: owner_def)
qed (use own in \<open>auto simp: owner_def ball_Un build_request_def send_request_def flush_start_def Let_def
      split: if_splits dest: notin_set_remove1\<close>)

lemma batch_tokens_inj:
  "distinct (batch_tokens reqs) \<Longrightarrow> r \<in> set reqs \<Longrightarrow> r' \<in> set reqs \<Longrightarrow> req_durable_ack r = Some tok \<Longrightarrow>
     req_durable_ack r' = Some tok \<Longrightarrow> r = r'"
proof (induction reqs)
  case (Cons a reqs)
  have "tok \<in> set (batch_tokens reqs)" if "x \<in> set reqs" "req_durable_ack x = Some tok" for x
    using that by (force simp: List.map_filter_def)
  with Cons show ?case by (auto simp: List.map_filter_simps split: option.splits)
qed simp

lemma owner_built:
  assumes inv: "wal_inv crc32 segs cur rs s built" and req: "req \<in> set built" "req_durable_ack req = Some tok"
  shows "owner tok req s built" "hm_get (signals s) tok = None"
proof -
  note T = wal_invD(6) [OF inv, unfolded tokens_ok_def]
  have tok: "tok \<in> set (batch_tokens built)" using req by (force simp: List.map_filter_def)
  have q: "tok \<notin> set (queued_tokens (wal_channel s))" using T tok by auto
  have "r = req" if r: "r \<in> set built" "req_durable_ack r = Some tok" for r
    by (rule batch_tokens_inj [OF _ r(1) req(1) r(2) req(2)]) (use T in simp)
  moreover have "FlushMsg tok \<notin> set (wal_channel s)" using q by force
  moreover have "r \<notin> set (queued (wal_channel s))" if "req_durable_ack r = Some tok" for r
    using q token_of_queued that by blast
  ultimately show "owner tok req s built" using T tok by (auto simp: owner_def)
  show "hm_get (signals s) tok = None" using T tok by (auto simp: hm_get_None_iff)
qed

text \<open>Once its sender was told \<open>Ok\<close>, the record is on disk, and stays there.\<close>
lemma durable_steps:
  assumes steps: "wal_steps crc32 (s, built) (s', built')" and inv: "wal_inv crc32 segs cur rs s built"
    and own: "owner tok req s built" and ack: "hm_get (signals s) tok = Some (Ok ()) \<Longrightarrow> on_disk crc32 segs rs s (req_record req)"
  shows "\<exists>segs' cur' rs'. wal_inv crc32 segs' cur' rs' s' built' \<and>
      (hm_get (signals s') tok = Some (Ok ()) \<longrightarrow> on_disk crc32 segs' rs' s' (req_record req))"
proof -
  have "\<exists>segs' cur' rs'. wal_inv crc32 segs' cur' rs' (fst y) (snd y) \<and> owner tok req (fst y) (snd y) \<and>
      (hm_get (signals (fst y)) tok = Some (Ok ()) \<longrightarrow> on_disk crc32 segs' rs' (fst y) (req_record req))"
    if "wal_steps crc32 (s, built) y" for y
    using that
  proof (induction rule: rtranclp_induct)
    case base
    then show ?case using inv own ack by auto
  next
    case (step y z)
    obtain s1 b1 s2 b2 where yz: "y = (s1, b1)" "z = (s2, b2)" by force
    from step.IH obtain g c r where I: "wal_inv crc32 g c r s1 b1" "owner tok req s1 b1"
      "hm_get (signals s1) tok = Some (Ok ()) \<longrightarrow> on_disk crc32 g r s1 (req_record req)" by (auto simp: yz)
    from wal_step_inv [OF step.hyps(2) [unfolded yz] I(1)] obtain g' c' r' where J: "wal_inv crc32 g' c' r' s2 b2"
      "log_grows g c r s1 g' c' r' s2" "told_on_disk crc32 g' r' s1 s2" by blast
    have "on_disk crc32 g' r' s2 (req_record req)" if ok: "hm_get (signals s2) tok = Some (Ok ())"
    proof (cases "hm_get (signals s1) tok = Some (Ok ())")
      case True
      with I(3) on_disk_grows [OF _ J(2)] show ?thesis by blast
    next
      case False
      with J(3) ok have "tok \<in> set (queued_tokens (wal_channel s1))" unfolding told_on_disk_def by blast
      from owner_queued [OF I(2) this] J(3) ok show ?thesis unfolding told_on_disk_def by blast
    qed
    with J(1) owner_step [OF step.hyps(2) [unfolded yz] I(2)] show ?case by (auto simp: yz)
  qed
  from this [OF steps] show ?thesis by auto
qed

section \<open>Durability\<close>

lemma log_records_split:
  assumes "x \<in> set (log_records gs)"
  shows "\<exists>g1 q r1 r2 g2. gs = g1 @ (q, r1 @ x # r2) # g2"
proof -
  from assms obtain g where "g \<in> set gs" "x \<in> set (snd g)" by auto
  then obtain g1 g2 r1 r2 where "gs = g1 @ g # g2" "snd g = r1 @ x # r2" by (meson split_list)
  then show ?thesis by (metis prod.collapse)
qed

lemma ids_ok_recovered:
  assumes "ids_ok (log_records (segs @ [(cur, rs)])) reqs n"
  shows "distinct (map fst (log_records (segs @ [(cur, take k rs)])))"
proof -
  have "map fst rs = map fst (take k rs) @ map fst (drop k rs)" by (metis append_take_drop_id map_append)
  then have "map fst (log_records (segs @ [(cur, rs)])) =
      map fst (log_records (segs @ [(cur, take k rs)])) @ map fst (drop k rs)" by simp
  with assms show ?thesis by (simp only: ids_ok_def distinct_append)
qed

text \<open>C0: Once \<open>append_durable\<close> was told that its record is synced, the record survives: whatever
  appenders, flushes and the writer do before and after, in any order and with any write or sync
  failing, after a crash at any moment the log opens again and reading it from the id of the record
  returns that record first.\<close>
theorem wal_durable:
  assumes reach: "wal_reach crc32 (s, built)" and req: "req \<in> set built" "req_durable_ack req = Some tok"
    and steps: "wal_steps crc32 (s, built) (s', built')" and ack: "await_ack tok s' = Some (Ok ())"
    and cr: "crash s' files" and io: "open_io_ok io" "dir_io_ok dio" and cfg: "wal_config_ok cfg"
  shows "\<exists>s'' rs. open_with_config crc32 display cfg io now (PathIsDir files) = (Ok s'', PathIsDir files) \<and>
    iterate_from crc32 dio (req_id req) s'' = Ok (\<lparr>rec_id = req_id req, rec_payload = req_payload req\<rparr> # rs)"
proof -
  from wal_reach_inv [OF reach] obtain segs cur rs where inv: "wal_inv crc32 segs cur rs s built" by auto
  note O = owner_built [OF inv req]
  from durable_steps [OF steps inv O(1)] O(2) obtain segs' cur' rs' where J: "wal_inv crc32 segs' cur' rs' s' built'"
    "hm_get (signals s') tok = Some (Ok ()) \<longrightarrow> on_disk crc32 segs' rs' s' (req_record req)" by auto
  have "hm_get (signals s') tok = Some (Ok ())"
    using ack by (auto simp: await_ack_def split: option.splits if_splits)
  with J(2) have disk: "on_disk crc32 segs' rs' s' (req_record req)" by blast
  from wal_invD(1) [OF J(1)] obtain t where rep: "disk_rep crc32 segs' cur' rs' t s'" by blast
  from crash_image [OF rep cr] disk obtain k t' where img: "disk_image crc32 (segs' @ [(cur', take k rs')]) t' files"
    and mem: "req_record req \<in> set (log_records (segs' @ [(cur', take k rs')]))" by blast
  from open_image [OF img io(1) cfg ids_ok_recovered [OF wal_invD(5) [OF J(1)]]] obtain s'' where
    op: "open_with_config crc32 display cfg io now (PathIsDir files) = (Ok s'', PathIsDir files)"
    and rd: "readable crc32 (segs' @ [(cur', take k rs')]) s''" by blast
  from log_records_split [OF mem] obtain g1 q r1 r2 g2 where
    gs: "segs' @ [(cur', take k rs')] = g1 @ (q, r1 @ req_record req # r2) # g2" by blast
  from iterate_from_readable [OF rd [unfolded gs] io(2), of "req_id req"] op show ?thesis by simp
qed

section \<open>A small log\<close>

definition demo_crc :: "bytes \<Rightarrow> u32" where
  "demo_crc bs = of_nat (Suc (sum_list (map unat bs)))"

definition demo_cfg :: wal_config where
  "demo_cfg = \<lparr>fsync_every_n = None, fsync_interval = None, channel_capacity = 4, segment_bytes = 100\<rparr>"

definition demo_open_io :: open_io where
  "demo_open_io = \<lparr>oi_mkdir = None, oi_list = None, oi_read = (\<lambda>_. None), oi_create = None, oi_header = None, oi_tail = None\<rparr>"

definition demo_io :: writer_io where
  "demo_io = \<lparr>wi_roll_sync = None, wi_create = None, wi_header = None, wi_write = Written, wi_sync = None,
     wi_flush_sync = None, wi_text = (\<lambda>_. [])\<rparr>"

definition demo_dir_io :: dir_io where
  "demo_dir_io = \<lparr>di_list = None, di_file = (\<lambda>_. None)\<rparr>"

definition demo_wal :: wal_state where
  "demo_wal = wal_opened demo_cfg 0 [(segment_name 1, \<lparr>wf_data = write_header, wf_synced = 32\<rparr>)] ([], 1) 1 0 32"

definition demo_durable :: wal_state where
  "demo_durable = writer_step demo_io 0 (snd (append_durable_start demo_crc [7, 8] demo_wal))"

lemma demo_oks [simp]:
  "wal_config_ok demo_cfg" "open_io_ok demo_open_io" "dir_io_ok demo_dir_io" "io_honest demo_io"
  by (simp_all add: wal_config_ok_def demo_cfg_def open_io_ok_def demo_open_io_def dir_io_ok_def demo_dir_io_def
      io_honest_def demo_io_def)

lemma demo_wal_open: "open_with_config demo_crc [] demo_cfg demo_open_io 0 PathMissing =
    (Ok demo_wal, PathIsDir [(segment_name 1, \<lparr>wf_data = write_header, wf_synced = 32\<rparr>)])"
  by code_simp

lemma demo_wal_reach: "wal_reach demo_crc (demo_wal, [])"
  by (rule wal_reach.fresh [OF demo_wal_open]) (simp_all add: no_segments_def)

definition demo_built :: "wal_write_request \<times> wal_state" where
  "demo_built = (case build_request demo_crc [7, 8] (Some 0) (demo_wal\<lparr>oneshots := 1\<rparr>) of
     (Ok (_, req), s) \<Rightarrow> (req, s) | (_, s) \<Rightarrow> (\<lparr>req_id = 0, req_header = [], req_payload = [], req_durable_ack = None\<rparr>, s))"

lemma demo_built_step: "wal_step demo_crc (demo_wal, []) (snd demo_built, [fst demo_built])"
proof -
  have "build_request demo_crc [7, 8] (Some (oneshots demo_wal)) (demo_wal\<lparr>oneshots := oneshots demo_wal + 1\<rparr>) =
      (Ok (1, fst demo_built), snd demo_built)" by code_simp
  then have "wal_step demo_crc (demo_wal, []) (snd demo_built, [] @ [fst demo_built])"
    by (rule wal_step.build_durable) code_simp
  then show ?thesis by simp
qed

lemma demo_durable_steps: "wal_steps demo_crc (snd demo_built, [fst demo_built]) (demo_durable, [])"
proof -
  let ?s = "snd (send_request (fst demo_built) (snd demo_built))"
  have "wal_step demo_crc (snd demo_built, [fst demo_built]) (?s, remove1 (fst demo_built) [fst demo_built])"
    by (rule wal_step.send) (simp_all add: prod_eq_iff)
  moreover have "wal_step demo_crc (?s, []) (writer_step demo_io 0 ?s, [])" by (rule wal_step.writer) simp
  moreover have "writer_step demo_io 0 ?s = demo_durable" by code_simp
  ultimately show ?thesis by simp
qed

theorem wal_durable_witness:
  "\<exists>s'' rs. open_with_config demo_crc [] demo_cfg demo_open_io 0 (PathIsDir (files_of demo_durable)) =
      (Ok s'', PathIsDir (files_of demo_durable)) \<and>
    iterate_from demo_crc demo_dir_io 1 s'' = Ok (\<lparr>rec_id = 1, rec_payload = [7, 8]\<rparr> # rs)"
proof -
  have r: "req_durable_ack (fst demo_built) = Some 0" "req_id (fst demo_built) = 1"
    "req_payload (fst demo_built) = [7, 8]" by code_simp+
  have a: "await_ack 0 demo_durable = Some (Ok ())" and c: "crash demo_durable (files_of demo_durable)" by code_simp+
  show ?thesis
    using wal_durable [OF wal_reach.step [OF demo_wal_reach demo_built_step] _ r(1) demo_durable_steps a c,
        of demo_open_io demo_dir_io demo_cfg "[]" 0]
    by (simp add: r(2,3))
qed

section \<open>The writer answers everyone\<close>

lemma hm_keys_fold_same: "hm_keys (fold (\<lambda>k. hm_insert k v) ks m) = hm_keys m \<union> set ks"
  by (induction ks arbitrary: m) auto

lemma flush_file_keys:
  assumes "flush_file text now err s = (r, s')"
  shows "hm_keys (signals s') = hm_keys (signals s) \<union> set (pending_durable_acks s)"
proof -
  have "\<exists>v. signals s' = fold (\<lambda>k. hm_insert k v) (pending_durable_acks s) (signals s)"
    using assms by (auto simp: flush_file_def sync_file_def Let_def split: option.splits)
  then show ?thesis using hm_keys_fold_same by metis
qed

lemma append_batch_keys:
  assumes "append_batch io now reqs s = (r, s')"
  shows "hm_keys (signals s) \<subseteq> hm_keys (signals s')"
    "r = Ok () \<Longrightarrow> set (batch_tokens reqs) \<subseteq> hm_keys (signals s')"
proof -
  obtain r1 s1 where w: "write_all (wi_write io) (batch_bytes reqs) s = (r1, s1)" by force
  define s2 where "s2 = note_batch (current_segment_seq s) (current_offset s) reqs s1"
  have s2: "signals s2 = signals s" "set (batch_tokens reqs) \<subseteq> set (pending_durable_acks s2)"
    using write_all_frame [OF w] by (auto simp: s2_def note_batch_def Let_def)
  have "flush_file (wi_text io) now (wi_sync io) s2 = (r, s') \<or> pending_durable_acks s2 = [] \<and> s' = s2 \<or>
      r \<noteq> Ok () \<and> s' = s1"
    using assms w maybe_sync_cases [of io now s2 r s']
    by (auto simp: append_batch_def s2_def Let_def split: result.splits if_splits)
  with s2 write_all_frame [OF w] flush_file_keys [of "wi_text io" now "wi_sync io" s2 r s']
  show "hm_keys (signals s) \<subseteq> hm_keys (signals s')"
    "r = Ok () \<Longrightarrow> set (batch_tokens reqs) \<subseteq> hm_keys (signals s')" by auto
qed

lemma write_batch_told:
  assumes "write_batch io now reqs s = (r, s')"
  shows "hm_keys (signals s) \<subseteq> hm_keys (signals s')"
    "r = Ok () \<Longrightarrow> set (batch_tokens reqs) \<subseteq> hm_keys (signals s')"
proof -
  obtain r1 s1 where roll: "roll_segment io now s = (r1, s1)" by force
  obtain r2 s2 where fl: "flush_file (wi_text io) now (wi_roll_sync io) s = (r2, s2)" by force
  have "signals s1 = signals s2"
    using roll fl by (auto simp: roll_segment_def Let_def split: result.splits if_splits option.splits prod.splits)
  with flush_file_keys [OF fl] have k: "hm_keys (signals s) \<subseteq> hm_keys (signals s1)" by simp
  have "append_batch io now reqs s = (r, s') \<or> append_batch io now reqs s1 = (r, s') \<or> r \<noteq> Ok () \<and> s' = s1"
    using assms roll by (auto simp: write_batch_def Let_def split: if_splits result.splits)
  then have "hm_keys (signals s) \<subseteq> hm_keys (signals s') \<and> (r = Ok () \<longrightarrow> set (batch_tokens reqs) \<subseteq> hm_keys (signals s'))"
  proof (elim disjE conjE)
    assume a: "append_batch io now reqs s = (r, s')"
    show ?thesis using append_batch_keys [OF a] by simp
  next
    assume a: "append_batch io now reqs s1 = (r, s')"
    show ?thesis using append_batch_keys [OF a] order.trans [OF k append_batch_keys(1) [OF a]] by simp
  qed (use k in simp)
  then show "hm_keys (signals s) \<subseteq> hm_keys (signals s')"
    "r = Ok () \<Longrightarrow> set (batch_tokens reqs) \<subseteq> hm_keys (signals s')" by simp_all
qed

lemma flush_for_keys: "insert tok (hm_keys (signals s)) \<subseteq> hm_keys (signals (flush_for io now tok s))"
proof -
  obtain r s' where fl: "flush_file (wi_text io) now (wi_flush_sync io) s = (r, s')" by force
  then show ?thesis using flush_file_keys [OF fl] by (auto simp: flush_for_def)
qed

text \<open>A round of the writer answers a message, keeps it, or stops.\<close>
lemma writer_step_answers:
  assumes "tok \<in> set (queued_tokens (wal_channel s)) \<union> hm_keys (signals s)"
  shows "\<not> wr_running (writer_step io now s) \<or>
    tok \<in> set (queued_tokens (wal_channel (writer_step io now s))) \<union> hm_keys (signals (writer_step io now s))"
proof (cases "wr_running s \<and> wal_channel s \<noteq> []")
  case False
  with assms show ?thesis by (auto simp: writer_step_def)
next
  case True
  then obtain m queue where chan: "wal_channel s = m # queue" by (cases "wal_channel s") auto
  show ?thesis
  proof (cases m)
    case (FlushMsg k)
    with assms True chan flush_for_keys [of k "s\<lparr>wal_channel := queue\<rparr>" io now] show ?thesis
      by (auto simp: writer_step_def flush_for_frame)
  next
    case (RecordMsg rq)
    obtain reqs fl rest where cb: "collect_batch rq queue = (reqs, fl, rest)" by (cases "collect_batch rq queue")
    obtain r s1 where w: "write_batch io now reqs (s\<lparr>wal_channel := rest\<rparr>) = (r, s1)" by force
    note T = write_batch_told [OF w] and F = write_batch_frame [OF w]
    have ws: "writer_step io now s = (if r = Ok () then case fl of Some k \<Rightarrow> flush_for io now k s1 | None \<Rightarrow> s1
        else writer_stopped s1)"
      using True chan RecordMsg cb w by (auto simp: writer_step_def split: result.splits option.splits)
    have "set (queued_tokens (wal_channel s)) =
        set (batch_tokens reqs) \<union> (case fl of None \<Rightarrow> {} | Some k \<Rightarrow> {k}) \<union> set (queued_tokens rest)"
      unfolding chan RecordMsg collect_batch_split [OF cb] by (auto split: option.splits)
    note Q = this
    show ?thesis
    proof (cases "r = Ok ()")
      case ok: True
      have k1: "tok \<in> hm_keys (signals s1) \<or> fl = Some tok \<or> tok \<in> set (queued_tokens rest)"
        using assms Q T(1) T(2) [OF ok] by (cases fl) auto
      show ?thesis
      proof (cases fl)
        case None
        with k1 ws ok F show ?thesis by auto
      next
        case (Some k)
        with k1 ws ok F flush_for_keys [of k s1 io now] show ?thesis by (auto simp: flush_for_frame)
      qed
    qed (simp add: ws writer_stopped_def)
  qed
qed

text \<open>C0: The writer's loop ends, and it leaves no append or flush waiting: from any state, with any
  outcome of every I/O operation, it stops after finitely many rounds with an empty channel or because
  of an error, and every request that was in the channel has its answer.\<close>
theorem run_writer_answers:
  assumes "tok \<in> set (queued_tokens (wal_channel s))"
  shows "(wal_channel (run_writer ios now s) = [] \<or> \<not> wr_running (run_writer ios now s)) \<and>
    await_ack tok (run_writer ios now s) \<noteq> None"
proof -
  have "(wal_channel (run_writer ios now s) = [] \<or> \<not> wr_running (run_writer ios now s)) \<and>
      (\<not> wr_running (run_writer ios now s) \<or> tok \<in> hm_keys (signals (run_writer ios now s)))"
    if "\<not> wr_running s \<or> tok \<in> set (queued_tokens (wal_channel s)) \<union> hm_keys (signals s)" for ios s
    using that
  proof (induction ios now s rule: run_writer.induct)
    case (1 ios now s)
    show ?case
    proof (cases "wr_running s \<and> wal_channel s \<noteq> []")
      case True
      with 1 writer_step_answers [of tok s "ios 0" now] show ?thesis by (subst (1 2 3 4) run_writer.simps) auto
    next
      case False
      with 1 show ?thesis by (subst (1 2 3 4) run_writer.simps) auto
    qed
  qed
  from this [of s ios] assms show ?thesis by (auto simp: await_ack_def split: option.splits simp: hm_get_None_iff)
qed

end
