(* ===== verification/Pattern.thy ===== *)
theory Pattern
  imports Blip_Prelude
begin

text \<open>
  Subject patterns, \<open>SubjectPattern\<close> of \<open>core/src/lib.rs\<close>: parsing a NATS-style
  pattern and matching a subject against it. The reference semantics is the
  inductive relation \<open>subject_matches\<close> on the tokens of the pattern and of the
  subject; the lemmas show that parsing followed by matching decides it, that
  matching never indexes out of range, which inputs parse, and that a pattern
  without wildcards stands for exactly one subject.
\<close>

section \<open>Tokens\<close>

text \<open>\<open>str::split('.')\<close>: always at least one token; the separator is one ASCII byte.\<close>
fun split_byte :: "u8 \<Rightarrow> rstring \<Rightarrow> rstring list" where
  "split_byte d [] = [[]]"
| "split_byte d (x # xs) =
     (if x = d then [] # split_byte d xs
      else case split_byte d xs of t # ts \<Rightarrow> (x # t) # ts | [] \<Rightarrow> [[x]])"

abbreviation dot :: u8 where
  "dot \<equiv> 46"

abbreviation star :: rstring where
  "star \<equiv> [42]"

abbreviation gt :: rstring where
  "gt \<equiv> [62]"

fun join_byte :: "u8 \<Rightarrow> rstring list \<Rightarrow> rstring" where
  "join_byte d [] = []"
| "join_byte d [t] = t"
| "join_byte d (t # ts) = t @ d # join_byte d ts"

section \<open>Patterns\<close>

datatype pattern_segment = Literal rstring | Wildcard

record subject_pattern =
  pat_raw :: rstring
  pat_segments :: "pattern_segment list"
  pat_has_tail :: bool

datatype pattern_parse_error = EmptyPattern | EmptyToken rstring | TailNotLast rstring

text \<open>The loop of \<open>parse\<close> over the enumerated tokens.\<close>
fun parse_tokens ::
  "rstring \<Rightarrow> nat \<Rightarrow> nat \<Rightarrow> rstring list \<Rightarrow> pattern_segment list \<Rightarrow> bool \<Rightarrow>
   (pattern_parse_error, pattern_segment list \<times> bool) result" where
  "parse_tokens s last_i i [] segments has_tail = Ok (segments, has_tail)"
| "parse_tokens s last_i i (tok # toks) segments has_tail =
     (if tok = [] then Err (EmptyToken s)
      else if tok = gt then
        (if i \<noteq> last_i then Err (TailNotLast s)
         else parse_tokens s last_i (Suc i) toks segments True)
      else if tok = star then parse_tokens s last_i (Suc i) toks (segments @ [Wildcard]) has_tail
      else parse_tokens s last_i (Suc i) toks (segments @ [Literal tok]) has_tail)"

definition parse :: "rstring \<Rightarrow> (pattern_parse_error, subject_pattern) result" where
  "parse s =
     (if s = [] then Err EmptyPattern
      else let raw_tokens = split_byte dot s; last_i = length raw_tokens - 1 in
        and_then (parse_tokens s last_i 0 raw_tokens [] False) (\<lambda>(segments, has_tail).
        Ok \<lparr>pat_raw = s, pat_segments = segments, pat_has_tail = has_tail\<rparr>))"

fun is_literal :: "pattern_segment \<Rightarrow> bool" where
  "is_literal (Literal _) = True"
| "is_literal Wildcard = False"

definition is_exact :: "subject_pattern \<Rightarrow> bool" where
  "is_exact p \<longleftrightarrow> \<not> pat_has_tail p \<and> list_all is_literal (pat_segments p)"

definition pat_as_str :: "subject_pattern \<Rightarrow> rstring" where
  "pat_as_str p = pat_raw p"

text \<open>The loop of \<open>matches\<close>; \<open>tokens[i]\<close> panics out of range.\<close>
fun matches_from :: "nat \<Rightarrow> pattern_segment list \<Rightarrow> rstring list \<Rightarrow> (unit, bool) result" where
  "matches_from i [] tokens = Ok True"
| "matches_from i (seg # segs) tokens =
     (if i < length tokens then
        (case seg of
           Literal lit \<Rightarrow> (if lit \<noteq> tokens ! i then Ok False else matches_from (Suc i) segs tokens)
         | Wildcard \<Rightarrow> (if tokens ! i = [] then Ok False else matches_from (Suc i) segs tokens))
      else Panic)"

definition matches :: "subject_pattern \<Rightarrow> rstring \<Rightarrow> (unit, bool) result" where
  "matches p subject =
     (let tokens = split_byte dot subject; fixed = length (pat_segments p) in
      if pat_has_tail p \<and> length tokens \<le> fixed then Ok False
      else if \<not> pat_has_tail p \<and> length tokens \<noteq> fixed then Ok False
      else matches_from 0 (pat_segments p) tokens)"

section \<open>Reference semantics\<close>

text \<open>
  A pattern's tokens match a subject's tokens: literals match themselves, \<open>*\<close>
  matches one non-empty token, a final \<open>>\<close> matches one or more tokens.
\<close>
inductive subject_matches :: "rstring list \<Rightarrow> rstring list \<Rightarrow> bool" where
  matches_end: "subject_matches [] []"
| matches_tail: "ss \<noteq> [] \<Longrightarrow> subject_matches [gt] ss"
| matches_star: "s \<noteq> [] \<Longrightarrow> subject_matches ps ss \<Longrightarrow> subject_matches (star # ps) (s # ss)"
| matches_literal: "p \<noteq> star \<Longrightarrow> p \<noteq> gt \<Longrightarrow> subject_matches ps ss \<Longrightarrow>
    subject_matches (p # ps) (p # ss)"

inductive_simps subject_matches_simps [simp]:
  "subject_matches [] ss"
  "subject_matches (p # ps) ss"

text \<open>The token sequences that parse: no empty token, \<open>>\<close> only at the end.\<close>
definition well_formed_tokens :: "rstring list \<Rightarrow> bool" where
  "well_formed_tokens ts \<longleftrightarrow> [] \<notin> set ts \<and> gt \<notin> set (butlast ts)"

fun segment_of :: "rstring \<Rightarrow> pattern_segment" where
  "segment_of t = (if t = star then Wildcard else Literal t)"

section \<open>Splitting and joining\<close>

lemma split_byte_not_Nil [simp]: "split_byte d s \<noteq> []"
  by (cases s) (auto split: list.splits)

lemma join_split [simp]: "join_byte d (split_byte d s) = s"
proof (induction s)
  case (Cons x s)
  obtain t ts where t: "split_byte d s = t # ts"
    by (cases "split_byte d s") auto
  with Cons show ?case
    by (cases ts) auto
qed simp

lemma split_byte_inj: "split_byte d s = split_byte d r \<longleftrightarrow> s = r"
  by (metis join_split)

lemma split_byte_no_sep: "t \<in> set (split_byte d s) \<Longrightarrow> d \<notin> set t"
  by (induction s arbitrary: t) (auto split: list.splits if_splits)

section \<open>Parsing\<close>

lemma parse_tokens_Ok:
  "i + length ts = Suc last_i \<Longrightarrow> ts \<noteq> [] \<Longrightarrow>
   parse_tokens s last_i i ts segs h = Ok (segs', h') \<longleftrightarrow>
     well_formed_tokens ts \<and> h' = (h \<or> last ts = gt) \<and>
     segs' = segs @ map segment_of (if last ts = gt then butlast ts else ts)"
proof (induction s last_i i ts segs h rule: parse_tokens.induct)
  case (2 s last_i i tok toks segs h)
  show ?case
  proof (cases "toks = []")
    case True
    with "2.prems" show ?thesis by (auto simp: well_formed_tokens_def)
  next
    case False
    then show ?thesis
      using 2 by (auto simp: well_formed_tokens_def)
  qed
qed simp

lemma parse_tokens_error:
  "i + length ts = Suc last_i \<Longrightarrow> ts \<noteq> [] \<Longrightarrow> \<not> well_formed_tokens ts \<Longrightarrow>
   parse_tokens s last_i i ts segs h \<in> {Err (EmptyToken s), Err (TailNotLast s)}"
proof (induction s last_i i ts segs h rule: parse_tokens.induct)
  case (2 s last_i i tok toks segs h)
  show ?case
  proof (cases "toks = []")
    case True
    with "2.prems" show ?thesis by (auto simp: well_formed_tokens_def)
  next
    case False
    then show ?thesis
      using 2 by (auto simp: well_formed_tokens_def)
  qed
qed simp

lemma parse_Ok:
  "parse s = Ok p \<longleftrightarrow> s \<noteq> [] \<and> well_formed_tokens (split_byte dot s) \<and>
     p = \<lparr>pat_raw = s,
          pat_segments = map segment_of (if last (split_byte dot s) = gt
            then butlast (split_byte dot s) else split_byte dot s),
          pat_has_tail = (last (split_byte dot s) = gt)\<rparr>"
  by (auto simp: parse_def Let_def and_then_eq_Ok parse_tokens_Ok)

section \<open>Matching\<close>

fun segment_accepts :: "pattern_segment \<Rightarrow> rstring \<Rightarrow> bool" where
  "segment_accepts (Literal lit) t \<longleftrightarrow> lit = t"
| "segment_accepts Wildcard t \<longleftrightarrow> t \<noteq> []"

lemma matches_from_list_all2:
  "i + length segs \<le> length ts \<Longrightarrow>
   matches_from i segs ts = Ok (list_all2 segment_accepts segs (take (length segs) (drop i ts)))"
proof (induction i segs ts rule: matches_from.induct)
  case (2 i seg segs ts)
  then have i: "i < length ts" by simp
  then have "drop i ts = ts ! i # drop (Suc i) ts" by (simp add: Cons_nth_drop_Suc)
  with 2 i show ?case by (cases seg) auto
qed simp

lemma matches_def2:
  "matches p subject =
     (let ts = split_byte dot subject; n = length (pat_segments p) in
      Ok ((if pat_has_tail p then n < length ts else length ts = n) \<and>
          list_all2 segment_accepts (pat_segments p) (take n ts)))"
  by (auto simp: matches_def Let_def matches_from_list_all2)

lemma subject_matches_fixed:
  "gt \<notin> set ts \<Longrightarrow> subject_matches ts ss \<longleftrightarrow> list_all2 segment_accepts (map segment_of ts) ss"
proof (induction ts arbitrary: ss)
  case (Cons t ts)
  then show ?case by (cases ss) auto
qed simp

lemma subject_matches_tail:
  "gt \<notin> set ts \<Longrightarrow> subject_matches (ts @ [gt]) ss \<longleftrightarrow>
     length ts < length ss \<and> list_all2 segment_accepts (map segment_of ts) (take (length ts) ss)"
proof (induction ts arbitrary: ss)
  case (Cons t ts)
  then show ?case by (cases ss) auto
qed auto

text \<open>C21: Parsing a pattern and matching a subject against it decides the NATS subject relation on
  their tokens, for every pattern that parses and every subject; in particular no token index is
  out of range.\<close>
theorem matches_iff_subject_matches:
  assumes "parse r = Ok p"
  shows "matches p subject = Ok (subject_matches (split_byte dot r) (split_byte dot subject))"
proof (cases "last (split_byte dot r) = gt")
  case True
  define ts where "ts = butlast (split_byte dot r)"
  have r: "split_byte dot r = ts @ [gt]"
    using True by (metis append_butlast_last_id split_byte_not_Nil ts_def)
  have "gt \<notin> set ts"
    using assms by (simp add: parse_Ok well_formed_tokens_def ts_def)
  then show ?thesis
    using assms by (auto simp: parse_Ok matches_def2 Let_def r subject_matches_tail)
next
  case False
  have "set (split_byte dot r) = insert (last (split_byte dot r)) (set (butlast (split_byte dot r)))"
    by (metis append_butlast_last_id split_byte_not_Nil Un_insert_right list.set(1) list.simps(15)
        set_append sup_bot_right)
  then have "gt \<notin> set (split_byte dot r)"
    using assms False by (simp add: parse_Ok well_formed_tokens_def)
  then show ?thesis
    using assms False list_all2_lengthD [of segment_accepts "map segment_of (split_byte dot r)"
        "split_byte dot subject"]
    by (auto simp: parse_Ok matches_def2 Let_def subject_matches_fixed)
qed

lemma exact_segments:
  assumes "parse r = Ok p" and "is_exact p"
  shows "pat_segments p = map Literal (split_byte dot r)" and "\<not> pat_has_tail p"
  using assms by (auto simp: parse_Ok is_exact_def list_all_iff split: if_splits)

theorem matches_iff_subject_matches_witness:
  "matches \<lparr>pat_raw = str ''o.>'', pat_segments = [Literal (str ''o'')], pat_has_tail = True\<rparr>
     (str ''o.a.b'') = Ok True"
  using matches_iff_subject_matches [of "str ''o.>''"
      "\<lparr>pat_raw = str ''o.>'', pat_segments = [Literal (str ''o'')], pat_has_tail = True\<rparr>"
      "str ''o.a.b''"]
  by (simp add: parse_def str_def Let_def of_char_def)

text \<open>C31: A pattern without wildcards, which the broker files under its topic's fast path, matches
  the subject it spells and no other.\<close>
theorem exact_pattern_single_subject:
  assumes "parse r = Ok p" and "is_exact p"
  shows "matches p subject = Ok (subject = r)"
proof -
  have "list_all2 segment_accepts (map Literal ts) us \<longleftrightarrow> us = ts" for ts us
    by (induction ts arbitrary: us) (auto simp: list_all2_Cons1)
  then show ?thesis
    using exact_segments [OF assms]
    by (auto simp: matches_def2 Let_def split_byte_inj)
qed

theorem exact_pattern_single_subject_witness:
  "matches \<lparr>pat_raw = [97, 46, 98], pat_segments = [Literal [97], Literal [98]],
     pat_has_tail = False\<rparr> [97, 46, 98] = Ok True"
  using exact_pattern_single_subject [of "[97, 46, 98]" "\<lparr>pat_raw = [97, 46, 98],
      pat_segments = [Literal [97], Literal [98]], pat_has_tail = False\<rparr>" "[97, 46, 98]"]
  by (simp add: parse_def Let_def is_exact_def)

text \<open>C32: Parsing accepts exactly the non-empty strings with no empty token and \<open>>\<close> only as the last
  token; every other input gives one of the three parse errors and nothing panics.\<close>
theorem parse_accepts_iff:
  "(case parse s of
      Ok p \<Rightarrow> s \<noteq> [] \<and> well_formed_tokens (split_byte dot s) \<and> pat_as_str p = s
    | Err e \<Rightarrow> (if s = [] then e = EmptyPattern
        else \<not> well_formed_tokens (split_byte dot s) \<and> e \<in> {EmptyToken s, TailNotLast s})
    | Panic \<Rightarrow> False)"
proof (cases "\<exists>p. parse s = Ok p")
  case True
  then obtain p where "parse s = Ok p" ..
  then show ?thesis by (simp add: pat_as_str_def) (simp add: parse_Ok)
next
  case False
  then have "s = [] \<or> \<not> well_formed_tokens (split_byte dot s)"
    by (auto simp: parse_Ok)
  then show ?thesis
    using parse_tokens_error [of 0 "split_byte dot s" "length (split_byte dot s) - 1" s "[]" False]
    by (auto simp: parse_def Let_def)
qed

end
