(* ===== verification/Shards.thy ===== *)
theory Shards
  imports Blip_Prelude
begin

text \<open>
  The sharded structures of \<open>core/src/lib.rs\<close>: \<open>ShardedCounter\<close>, \<open>TopicShards\<close> and
  \<open>SubscriptionShards\<close>. The locale \<open>registry\<close> is the contract of a key-value
  registry and \<open>shard_router\<close> the contract of a shard choice; any router makes
  a registry. Both registries of the broker are interpretations of it, so the
  sharding is invisible to the broker: a sharded registry behaves as one map.
\<close>

section \<open>Sharded counters\<close>

definition COUNTER_SHARDS :: nat where
  "COUNTER_SHARDS = 16"

definition COUNTER_SHARD_MASK :: u64 where
  "COUNTER_SHARD_MASK = of_nat COUNTER_SHARDS - 1"

type_synonym sharded_counter = "u64 list"

text \<open>The shard of a thread, from the ticket it drew from \<open>NEXT_SHARD\<close> on first use.\<close>
definition thread_shard_idx :: "u64 \<Rightarrow> nat" where
  "thread_shard_idx ticket = unat (ticket AND COUNTER_SHARD_MASK)"

definition counter_new :: sharded_counter where
  "counter_new = replicate COUNTER_SHARDS 0"

text \<open>\<open>fetch_add\<close> on the thread's shard: the previous value and the counter after it.\<close>
definition counter_add :: "u64 \<Rightarrow> u64 \<Rightarrow> sharded_counter \<Rightarrow> u64 \<times> sharded_counter" where
  "counter_add ticket n c =
     (let idx = thread_shard_idx ticket in (c ! idx, c[idx := c ! idx + n]))"

definition counter_load :: "sharded_counter \<Rightarrow> u64" where
  "counter_load c = sum_list c"

definition counter_ok :: "sharded_counter \<Rightarrow> bool" where
  "counter_ok c \<longleftrightarrow> length c = COUNTER_SHARDS"

section \<open>Shard routing\<close>

text \<open>Operations on a list of hash maps, given the shard of each key.\<close>
definition shard_get :: "(nat \<Rightarrow> 'k \<Rightarrow> nat) \<Rightarrow> ('k, 'v) hash_map list \<Rightarrow> 'k \<Rightarrow> 'v option" where
  "shard_get index sh k = hm_get (sh ! index (length sh) k) k"

definition shard_put ::
  "(nat \<Rightarrow> 'k \<Rightarrow> nat) \<Rightarrow> 'k \<Rightarrow> 'v \<Rightarrow> ('k, 'v) hash_map list \<Rightarrow> ('k, 'v) hash_map list" where
  "shard_put index k v sh =
     (let i = index (length sh) k in sh[i := hm_insert k v (sh ! i)])"

definition shard_remove ::
  "(nat \<Rightarrow> 'k \<Rightarrow> nat) \<Rightarrow> 'k \<Rightarrow> ('k, 'v) hash_map list \<Rightarrow> ('k, 'v) hash_map list" where
  "shard_remove index k sh = (let i = index (length sh) k in sh[i := hm_remove k (sh ! i)])"

definition shard_count :: "('k, 'v) hash_map list \<Rightarrow> nat" where
  "shard_count sh = sum_list (map length sh)"

definition shards_new :: "nat \<Rightarrow> ('k, 'v) hash_map list" where
  "shards_new n = replicate n []"

text \<open>Every shard is a map, and a key is only in the shard it is routed to.\<close>
definition shards_ok :: "(nat \<Rightarrow> 'k \<Rightarrow> nat) \<Rightarrow> ('k, 'v) hash_map list \<Rightarrow> bool" where
  "shards_ok index sh \<longleftrightarrow> sh \<noteq> [] \<and>
     (\<forall>i < length sh. hm_ok (sh ! i) \<and> (\<forall>k \<in> hm_keys (sh ! i). index (length sh) k = i))"

subsection \<open>The topic registry\<close>

text \<open>\<open>hash\<close> is the AHash of a topic name, a function of the name as its seed is fixed.\<close>
definition topic_shard_index :: "(rstring \<Rightarrow> u64) \<Rightarrow> nat \<Rightarrow> rstring \<Rightarrow> nat" where
  "topic_shard_index hash len topic = unat (hash topic) mod len"

definition topics_get :: "(rstring \<Rightarrow> u64) \<Rightarrow> (rstring, 't) hash_map list \<Rightarrow> rstring \<Rightarrow> 't option" where
  "topics_get hash = shard_get (topic_shard_index hash)"

text \<open>A change to a topic made through its \<open>Arc\<close>.\<close>
definition topics_put ::
  "(rstring \<Rightarrow> u64) \<Rightarrow> rstring \<Rightarrow> 't \<Rightarrow> (rstring, 't) hash_map list \<Rightarrow> (rstring, 't) hash_map list" where
  "topics_put hash = shard_put (topic_shard_index hash)"

definition topics_get_or_insert ::
  "(rstring \<Rightarrow> u64) \<Rightarrow> (rstring \<Rightarrow> 't) \<Rightarrow> rstring \<Rightarrow> (rstring, 't) hash_map list \<Rightarrow>
   't \<times> (rstring, 't) hash_map list" where
  "topics_get_or_insert hash topic_new topic sh =
     (case topics_get hash sh topic of
        Some t \<Rightarrow> (t, sh)
      | None \<Rightarrow> (topic_new topic, topics_put hash topic (topic_new topic) sh))"

definition topics_len :: "(rstring, 't) hash_map list \<Rightarrow> nat" where
  "topics_len = shard_count"

subsection \<open>The subscription registry\<close>

text \<open>\<open>usize::next_power_of_two\<close>.\<close>
fun next_power_of_two :: "nat \<Rightarrow> nat" where
  "next_power_of_two n = (if n \<le> 1 then 1 else 2 * next_power_of_two ((n + 1) div 2))"

declare next_power_of_two.simps [simp del]

record 'v subscription_shards =
  ss_shards :: "(u64, 'v) hash_map list"
  ss_mask :: u64

definition subs_new :: "nat \<Rightarrow> 'v subscription_shards" where
  "subs_new num_shards =
     (let n = next_power_of_two (max num_shards 1)
      in \<lparr>ss_shards = replicate n [], ss_mask = of_nat (n - 1)\<rparr>)"

definition subs_index :: "'v subscription_shards \<Rightarrow> u64 \<Rightarrow> nat" where
  "subs_index s sub_id = unat (sub_id AND ss_mask s)"

definition subs_get :: "'v subscription_shards \<Rightarrow> u64 \<Rightarrow> 'v option" where
  "subs_get s sub_id = hm_get (ss_shards s ! subs_index s sub_id) sub_id"

definition subs_insert :: "u64 \<Rightarrow> 'v \<Rightarrow> 'v subscription_shards \<Rightarrow> 'v subscription_shards" where
  "subs_insert sub_id v s =
     (let i = subs_index s sub_id
      in s\<lparr>ss_shards := (ss_shards s)[i := hm_insert sub_id v (ss_shards s ! i)]\<rparr>)"

definition subs_remove :: "u64 \<Rightarrow> 'v subscription_shards \<Rightarrow> 'v subscription_shards" where
  "subs_remove sub_id s =
     (let i = subs_index s sub_id
      in s\<lparr>ss_shards := (ss_shards s)[i := hm_remove sub_id (ss_shards s ! i)]\<rparr>)"

definition subs_len :: "'v subscription_shards \<Rightarrow> nat" where
  "subs_len s = shard_count (ss_shards s)"

text \<open>Shard routing by mask over \<open>n\<close> shards.\<close>
definition mask_index :: "nat \<Rightarrow> u64 \<Rightarrow> nat" where
  "mask_index n k = unat (k AND of_nat (n - 1))"

definition subs_ok :: "'v subscription_shards \<Rightarrow> bool" where
  "subs_ok s \<longleftrightarrow> shards_ok mask_index (ss_shards s) \<and> length (ss_shards s) < 2 ^ 64 \<and>
     ss_mask s = of_nat (length (ss_shards s) - 1)"

section \<open>Counters are sums\<close>

lemma thread_shard_idx_bound [simp]: "thread_shard_idx ticket < COUNTER_SHARDS"
proof -
  have "ticket AND 15 \<le> 15" by (rule word_and_le1)
  then show ?thesis
    by (simp add: thread_shard_idx_def COUNTER_SHARD_MASK_def COUNTER_SHARDS_def word_le_nat_alt)
qed

lemma sum_list_update_word:
  "i < length c \<Longrightarrow> sum_list (c[i := c ! i + n]) = sum_list c + (n :: u64)"
  by (induction c arbitrary: i) (auto simp: nth_Cons split: nat.splits)

lemma counter_add_ok [simp]: "counter_ok c \<Longrightarrow> counter_ok (snd (counter_add t n c))"
  by (simp add: counter_ok_def counter_add_def Let_def)

lemma counter_new_ok [simp]: "counter_ok counter_new"
  by (simp add: counter_ok_def counter_new_def)

lemma counter_load_add [simp]:
  "counter_ok c \<Longrightarrow> counter_load (snd (counter_add t n c)) = counter_load c + n"
  by (simp add: counter_load_def counter_add_def counter_ok_def Let_def sum_list_update_word)

lemma counter_load_new [simp]: "counter_load counter_new = 0"
  by (simp add: counter_load_def counter_new_def sum_list_replicate)

section \<open>The registry contract\<close>

locale registry =
  fixes lookup :: "'m \<Rightarrow> 'k \<Rightarrow> 'v option"
    and update :: "'k \<Rightarrow> 'v \<Rightarrow> 'm \<Rightarrow> 'm"
    and delete :: "'k \<Rightarrow> 'm \<Rightarrow> 'm"
    and count :: "'m \<Rightarrow> nat"
    and inv :: "'m \<Rightarrow> bool"
  assumes lookup_update: "inv m \<Longrightarrow> lookup (update k v m) k' = (if k' = k then Some v else lookup m k')"
    and lookup_delete: "inv m \<Longrightarrow> lookup (delete k m) k' = (if k' = k then None else lookup m k')"
    and inv_update: "inv m \<Longrightarrow> inv (update k v m)"
    and inv_delete: "inv m \<Longrightarrow> inv (delete k m)"
    and finite_dom: "inv m \<Longrightarrow> finite (dom (lookup m))"
    and count_card: "inv m \<Longrightarrow> count m = card (dom (lookup m))"
begin

lemma dom_update: "inv m \<Longrightarrow> dom (lookup (update k v m)) = insert k (dom (lookup m))"
  by (auto simp: lookup_update dom_def)

lemma dom_delete: "inv m \<Longrightarrow> dom (lookup (delete k m)) = dom (lookup m) - {k}"
  by (auto simp: lookup_delete dom_def)

lemma count_update:
  "inv m \<Longrightarrow> count (update k v m) = (if lookup m k = None then Suc (count m) else count m)"
  by (auto simp: count_card inv_update dom_update finite_dom insert_absorb domIff)

lemma count_delete:
  "inv m \<Longrightarrow> count (delete k m) = (if lookup m k = None then count m else count m - 1)"
  by (auto simp: count_card inv_delete dom_delete finite_dom domIff)

lemma delete_all:
  "inv m \<Longrightarrow> inv (fold delete ks m) \<and>
     lookup (fold delete ks m) k = (if k \<in> set ks then None else lookup m k)"
  by (induction ks arbitrary: m) (auto simp: inv_delete lookup_delete)

text \<open>A sequence of updates (\<open>Some\<close>) and deletions (\<open>None\<close>) acts as on a map.\<close>
lemma run_ops:
  "inv m \<Longrightarrow>
     inv (fold (\<lambda>(k, vo). case vo of Some v \<Rightarrow> update k v | None \<Rightarrow> delete k) ops m) \<and>
     lookup (fold (\<lambda>(k, vo). case vo of Some v \<Rightarrow> update k v | None \<Rightarrow> delete k) ops m) =
     fold (\<lambda>(k, vo) f. f(k := vo)) ops (lookup m)"
proof (induction ops arbitrary: m)
  case (Cons op ops)
  obtain k vo where "op = (k, vo)" by (cases op)
  moreover have "lookup (update k v m) = (lookup m)(k := Some v)" for v
    using Cons.prems by (auto simp: fun_eq_iff lookup_update)
  moreover have "lookup (delete k m) = (lookup m)(k := None)"
    using Cons.prems by (auto simp: fun_eq_iff lookup_delete)
  ultimately show ?case
    using Cons by (cases vo) (auto simp: inv_update inv_delete)
qed simp

lemma update_delete: "inv m \<Longrightarrow> lookup (delete k (update k v m)) = (lookup m)(k := None)"
  by (auto simp: fun_eq_iff lookup_delete lookup_update inv_update)

end

text \<open>A choice of shard that stays in range.\<close>
locale shard_router =
  fixes index :: "nat \<Rightarrow> 'k \<Rightarrow> nat"
  assumes index_bound: "0 < n \<Longrightarrow> index n k < n"
begin

lemma index_len: "shards_ok index sh \<Longrightarrow> index (length sh) k < length sh"
  by (rule index_bound) (auto simp: shards_ok_def)

lemma get_put:
  "shards_ok index sh \<Longrightarrow>
   shard_get index (shard_put index k v sh) k' = (if k' = k then Some v else shard_get index sh k')"
  by (auto simp: shard_get_def shard_put_def Let_def index_len nth_list_update)

lemma get_remove:
  "shards_ok index sh \<Longrightarrow>
   shard_get index (shard_remove index k sh) k' = (if k' = k then None else shard_get index sh k')"
  by (auto simp: shard_get_def shard_remove_def Let_def index_len nth_list_update)

lemma ok_keys:
  "shards_ok index sh \<Longrightarrow> i < length sh \<Longrightarrow> k \<in> hm_keys (sh ! i) \<Longrightarrow> index (length sh) k = i"
  unfolding shards_ok_def by blast

lemma ok_hm: "shards_ok index sh \<Longrightarrow> i < length sh \<Longrightarrow> hm_ok (sh ! i)"
  unfolding shards_ok_def by blast

lemma ok_list_update:
  assumes "shards_ok index sh" and "hm_ok m" and "\<And>k. k \<in> hm_keys m \<Longrightarrow> index (length sh) k = i"
  shows "shards_ok index (sh[i := m])"
proof -
  have "hm_ok (sh[i := m] ! j) \<and> (\<forall>k \<in> hm_keys (sh[i := m] ! j). index (length sh) k = j)"
    if "j < length sh" for j
    using assms that by (cases "i = j") (simp_all add: shards_ok_def)
  then show ?thesis
    using assms(1) by (simp add: shards_ok_def)
qed

lemma ok_put:
  assumes ok: "shards_ok index sh"
  shows "shards_ok index (shard_put index k v sh)"
  unfolding shard_put_def Let_def
proof (rule ok_list_update [OF ok])
  note i = index_len [OF ok, of k]
  show "hm_ok (hm_insert k v (sh ! index (length sh) k))"
    using ok_hm [OF ok i] by simp
  show "index (length sh) x = index (length sh) k"
    if "x \<in> hm_keys (hm_insert k v (sh ! index (length sh) k))" for x
    using that ok_keys [OF ok i, of x] unfolding hm_keys_insert by blast
qed

lemma ok_remove:
  assumes ok: "shards_ok index sh"
  shows "shards_ok index (shard_remove index k sh)"
  unfolding shard_remove_def Let_def
proof (rule ok_list_update [OF ok])
  note i = index_len [OF ok, of k]
  show "hm_ok (hm_remove k (sh ! index (length sh) k))"
    using ok_hm [OF ok i] by simp
  show "index (length sh) x = index (length sh) k"
    if "x \<in> hm_keys (hm_remove k (sh ! index (length sh) k))" for x
    using that ok_keys [OF ok i, of x] unfolding hm_keys_remove by blast
qed

lemma ok_new: "0 < n \<Longrightarrow> shards_ok index (shards_new n)"
  by (simp add: shards_ok_def shards_new_def)

lemma dom_shards:
  assumes "shards_ok index sh"
  shows "dom (shard_get index sh) = (\<Union>i < length sh. hm_keys (sh ! i))"
proof -
  have "k \<in> dom (shard_get index sh) \<longleftrightarrow> k \<in> hm_keys (sh ! index (length sh) k)" for k
    by (simp add: shard_get_def domIff hm_get_None_iff)
  moreover have "k \<in> hm_keys (sh ! index (length sh) k) \<longleftrightarrow> (\<exists>i < length sh. k \<in> hm_keys (sh ! i))" for k
    using index_len [OF assms] ok_keys [OF assms] by blast
  ultimately show ?thesis
    by blast
qed

lemma count_shards:
  assumes "shards_ok index sh"
  shows "shard_count sh = card (dom (shard_get index sh))"
proof -
  have "card (\<Union>i < length sh. hm_keys (sh ! i)) = (\<Sum>i < length sh. card (hm_keys (sh ! i)))"
    using ok_keys [OF assms] by (intro card_UN_disjoint) (simp, simp, blast)
  also have "\<dots> = (\<Sum>i < length sh. length (sh ! i))"
    using ok_hm [OF assms] by (intro sum.cong) (simp_all add: distinct_card flip: set_map)
  finally show ?thesis
    by (simp add: dom_shards [OF assms] shard_count_def sum_list_sum_nth atLeast0LessThan)
qed

end

sublocale shard_router \<subseteq> reg: registry "shard_get index" "shard_put index" "shard_remove index"
  shard_count "shards_ok index"
  by unfold_locales (auto simp: get_put get_remove ok_put ok_remove count_shards dom_shards)

text \<open>Both registries of the broker route within range, so both are registries.\<close>
lemma mask_index_bound: "0 < n \<Longrightarrow> mask_index n k < n"
proof -
  assume "0 < n"
  have "unat (k AND of_nat (n - 1)) \<le> unat (of_nat (n - 1) :: u64)"
    using word_and_le1 [of k "of_nat (n - 1)"] by (simp add: word_le_nat_alt)
  also have "\<dots> \<le> n - 1"
    by (simp add: unat_of_nat take_bit_nat_less_eq_self)
  finally show ?thesis
    using \<open>0 < n\<close> by (simp add: mask_index_def)
qed

interpretation mask_router: shard_router mask_index
  by unfold_locales (rule mask_index_bound)

interpretation topic_router: shard_router "topic_shard_index hash" for hash
  by unfold_locales (simp add: topic_shard_index_def)

interpretation topic_reg: registry "topics_get hash" "topics_put hash"
  "shard_remove (topic_shard_index hash)" topics_len "shards_ok (topic_shard_index hash)" for hash
  unfolding topics_get_def topics_put_def topics_len_def
  by (rule topic_router.reg.registry_axioms)

lemma subs_index_mask:
  "subs_ok s \<Longrightarrow> subs_index s k = mask_index (length (ss_shards s)) k"
  by (simp add: subs_index_def subs_ok_def mask_index_def)

lemma subs_as_shards:
  assumes "subs_ok s"
  shows "subs_get s k = shard_get mask_index (ss_shards s) k"
    and "ss_shards (subs_insert k v s) = shard_put mask_index k v (ss_shards s)"
    and "ss_shards (subs_remove k s) = shard_remove mask_index k (ss_shards s)"
    and "subs_ok (subs_insert k v s)" and "subs_ok (subs_remove k s)"
  using assms mask_router.ok_put [of "ss_shards s" k v] mask_router.ok_remove [of "ss_shards s" k]
  by (simp_all add: subs_get_def subs_insert_def subs_remove_def shard_get_def shard_put_def
      shard_remove_def subs_index_mask Let_def)
    (auto simp: subs_ok_def subs_index_def mask_index_def shard_put_def shard_remove_def Let_def)

interpretation subs_reg: registry subs_get subs_insert subs_remove subs_len subs_ok
proof
  fix s :: "'v subscription_shards" assume ok: "subs_ok s"
  then have sh: "shards_ok mask_index (ss_shards s)" by (simp add: subs_ok_def)
  have get: "subs_get s = shard_get mask_index (ss_shards s)"
    using subs_as_shards(1) [OF ok] by blast
  show "finite (dom (subs_get s))" "subs_len s = card (dom (subs_get s))"
    by (simp_all add: get subs_len_def mask_router.reg.finite_dom [OF sh]
        mask_router.reg.count_card [OF sh])
  fix k k' v
  show "subs_get (subs_insert k v s) k' = (if k' = k then Some v else subs_get s k')"
    "subs_get (subs_remove k s) k' = (if k' = k then None else subs_get s k')"
    by (simp_all add: subs_as_shards [OF ok] subs_as_shards(1) [OF subs_as_shards(4) [OF ok]]
        subs_as_shards(1) [OF subs_as_shards(5) [OF ok]] mask_router.get_put [OF sh]
        mask_router.get_remove [OF sh])
qed (auto intro: subs_as_shards)

section \<open>Properties\<close>

lemma next_power_of_two_16 [simp]: "next_power_of_two 16 = 16"
  by (simp add: next_power_of_two.simps)

lemma subs_new_ok [simp]: "subs_ok (subs_new 16)"
  using mask_router.ok_new [of 16] by (simp add: subs_ok_def subs_new_def Let_def shards_new_def)

lemma subs_get_new [simp]: "subs_get (subs_new 16) = Map.empty"
proof
  show "subs_get (subs_new 16) k = None" for k :: u64
    using mask_index_bound [of 16 k]
    by (simp add: subs_as_shards(1) shard_get_def) (simp add: subs_new_def Let_def)
qed

lemma topics_new_ok [simp]: "shards_ok (topic_shard_index hash) (shards_new 16)"
  by (rule topic_router.ok_new) simp

lemma topics_get_new [simp]: "topics_get hash (shards_new 16) = Map.empty"
  by (auto simp: fun_eq_iff topics_get_def shard_get_def shards_new_def topic_shard_index_def)

text \<open>C33: The sharded counter counts exactly: after any sequence of additions by any threads its
  value is the sum of the amounts, modulo 2 to the 64; no addition is lost to sharding.\<close>
theorem sharded_counter_exact:
  "counter_load (fold (\<lambda>(ticket, n) c. snd (counter_add ticket n c)) adds counter_new) =
     sum_list (map snd adds)"
proof -
  have "counter_ok c \<Longrightarrow>
      counter_load (fold (\<lambda>(ticket, n) c. snd (counter_add ticket n c)) adds c) =
      counter_load c + sum_list (map snd adds)" for c
    by (induction adds arbitrary: c) (auto simp: add.assoc)
  then show ?thesis by simp
qed

text \<open>C22: Sharding is invisible: after any sequence of insertions and removals, the broker's sharded
  subscription registry (16 shards, routed by mask) and its sharded topic registry (16 shards,
  routed by hash, for every hash function) answer lookups as one flat map does, and their sizes
  are the number of its keys.\<close>
theorem sharded_registries_are_maps:
  "let subs = fold (\<lambda>(k, vo). case vo of Some v \<Rightarrow> subs_insert k v | None \<Rightarrow> subs_remove k) ops
         (subs_new 16);
       flat = fold (\<lambda>(k, vo) f. f(k := vo)) ops Map.empty;
       topics = fold (\<lambda>(k, t). topics_put hash k t) puts (shards_new 16);
       flat_topics = fold (\<lambda>(k, t) f. f(k \<mapsto> t)) puts Map.empty
   in subs_get subs = flat \<and> subs_len subs = card (dom flat) \<and>
      topics_get hash topics = flat_topics \<and> topics_len topics = card (dom flat_topics)"
proof -
  have puts: "fold (\<lambda>(k, t). topics_put hash k t) puts =
      fold (\<lambda>(k, vo). case vo of Some v \<Rightarrow> topics_put hash k v
        | None \<Rightarrow> shard_remove (topic_shard_index hash) k) (map (\<lambda>(k, t). (k, Some t)) puts)"
    by (simp add: fold_map comp_def case_prod_unfold)
  have flat: "fold (\<lambda>(k, t) f. f(k \<mapsto> t)) puts =
      fold (\<lambda>(k, vo) f. f(k := vo)) (map (\<lambda>(k, t). (k, Some t)) puts)"
    by (simp add: fold_map comp_def case_prod_unfold)
  show ?thesis
    unfolding puts flat Let_def
    using subs_reg.run_ops [OF subs_new_ok, of ops]
      topic_reg.run_ops [OF topics_new_ok, of hash "map (\<lambda>(k, t). (k, Some t)) puts"]
    by (simp add: subs_reg.count_card topic_reg.count_card [of hash])
qed

end
