(* ===== verification/WalCodec.thy ===== *)
theory WalCodec
  imports Core_Types
begin

text \<open>
  The broker-level contents of the write-ahead log and of the checkpoint file
  (\<open>WalEntry\<close>, \<open>WalMessageRecord\<close>, \<open>WalAckRecord\<close> and \<open>CheckpointSnapshot\<close> of
  \<open>core/src/lib.rs\<close>). The CRC-32 of the checkpoint trailer is a parameter. The
  lemmas show that the decoders never panic, that entries have exactly one
  spelling, that a checkpoint is read back as it was written, and that a
  checkpoint whose CRC does not match is refused.
\<close>

section \<open>WAL entries\<close>

definition WAL_KIND_MESSAGE :: u8 where
  "WAL_KIND_MESSAGE = 1"

definition WAL_KIND_ACK :: u8 where
  "WAL_KIND_ACK = 2"

record wal_message_record =
  wm_topic :: rstring
  wm_qos :: qos
  wm_payload :: bytes

record wal_ack_record =
  wa_client_id :: rstring
  wa_topic :: rstring
  wa_acked_wal_id :: u64

datatype wal_entry = MessageEntry wal_message_record | AckEntry wal_ack_record

fun qos_byte :: "qos \<Rightarrow> u8" where
  "qos_byte AtMostOnce = 0"
| "qos_byte AtLeastOnce = 1"

definition ack_encode_with_kind :: "wal_ack_record \<Rightarrow> (wal_error, bytes) result" where
  "ack_encode_with_kind a =
     and_then (u16_try_from (corrupt ''client_id too long for WAL ack'') (length (wa_client_id a)))
       (\<lambda>cid_len.
     and_then (u16_try_from (corrupt ''topic too long for WAL ack'') (length (wa_topic a)))
       (\<lambda>topic_len.
     Ok (put_u8 WAL_KIND_ACK @ put_u16 cid_len @ wa_client_id a @ put_u16 topic_len @ wa_topic a @
         put_u64 (wa_acked_wal_id a))))"

definition ack_decode_after_kind :: "bytes \<Rightarrow> (wal_error, wal_ack_record) result" where
  "ack_decode_after_kind bs =
     (if length bs < 2 then Err (corrupt ''ack record too short'')
      else and_then (get_u16 bs) (\<lambda>(cid_len, sl).
        if length sl < unat cid_len + 2 then Err (corrupt ''ack: cid len overflow'')
        else and_then (take_bytes (unat cid_len) sl) (\<lambda>(cid_bytes, sl).
          and_then (string_from_utf8 (corrupt ''ack: invalid client_id utf8'') cid_bytes) (\<lambda>client_id.
          and_then (get_u16 sl) (\<lambda>(topic_len, sl).
          if length sl < unat topic_len + 8 then Err (corrupt ''ack: topic len overflow'')
          else and_then (take_bytes (unat topic_len) sl) (\<lambda>(topic_bytes, sl).
            and_then (string_from_utf8 (corrupt ''ack: invalid topic utf8'') topic_bytes) (\<lambda>topic.
            and_then (get_u64 sl) (\<lambda>(acked_wal_id, _).
            Ok \<lparr>wa_client_id = client_id, wa_topic = topic,
                wa_acked_wal_id = acked_wal_id\<rparr>))))))))"

definition message_encode_with_kind :: "wal_message_record \<Rightarrow> (wal_error, bytes) result" where
  "message_encode_with_kind m =
     and_then (u16_try_from (corrupt ''topic name too long for WAL record'') (length (wm_topic m)))
       (\<lambda>topic_len_u16.
     Ok (put_u8 WAL_KIND_MESSAGE @ put_u8 (qos_byte (wm_qos m)) @ put_u16 topic_len_u16 @
         wm_topic m @ wm_payload m))"

definition wal_qos_of_byte :: "u8 \<Rightarrow> (wal_error, qos) result" where
  "wal_qos_of_byte b =
     (if b = 0 then Ok AtMostOnce else if b = 1 then Ok AtLeastOnce
      else Err (Corruption (str ''invalid QoS value '' @ show_nat (unat b) @ str '' in WAL record'')))"

definition message_decode_after_kind :: "bytes \<Rightarrow> (wal_error, wal_message_record) result" where
  "message_decode_after_kind bs =
     (if length bs < 3 then Err (corrupt ''WAL message record too short'')
      else and_then (get_u8 bs) (\<lambda>(qos_byte, sl).
        and_then (wal_qos_of_byte qos_byte) (\<lambda>qos.
        and_then (get_u16 sl) (\<lambda>(topic_len, sl).
        if length sl < unat topic_len
        then Err (corrupt ''WAL record truncated while reading topic'')
        else and_then (take_bytes (unat topic_len) sl) (\<lambda>(topic_bytes, sl).
          and_then (string_from_utf8 (corrupt ''topic name in WAL record is not valid UTF-8'')
            topic_bytes) (\<lambda>topic.
          and_then (take_bytes (length sl) sl) (\<lambda>(payload, _).
          Ok \<lparr>wm_topic = topic, wm_qos = qos, wm_payload = payload\<rparr>)))))))"

fun wal_entry_encode :: "wal_entry \<Rightarrow> (wal_error, bytes) result" where
  "wal_entry_encode (MessageEntry m) = message_encode_with_kind m"
| "wal_entry_encode (AckEntry a) = ack_encode_with_kind a"

fun wal_entry_decode :: "bytes \<Rightarrow> (wal_error, wal_entry) result" where
  "wal_entry_decode [] = Err (corrupt ''empty WAL entry'')"
| "wal_entry_decode (kind # rest) =
     (if kind = WAL_KIND_MESSAGE then
        and_then (message_decode_after_kind rest) (\<lambda>m. Ok (MessageEntry m))
      else if kind = WAL_KIND_ACK then
        and_then (ack_decode_after_kind rest) (\<lambda>a. Ok (AckEntry a))
      else Err (Corruption (str ''unknown WAL entry kind '' @ show_nat (unat kind))))"

section \<open>Checkpoints\<close>

definition CHECKPOINT_MAGIC :: bytes where
  "CHECKPOINT_MAGIC = str ''BLIPCKPT''"

definition CHECKPOINT_VERSION :: u32 where
  "CHECKPOINT_VERSION = 1"

type_synonym cursor_map = "(rstring \<times> rstring, u64) hash_map"

record checkpoint_snapshot =
  snapshot_id :: u64
  cursors :: cursor_map

definition checkpoint_empty :: checkpoint_snapshot where
  "checkpoint_empty = \<lparr>snapshot_id = 0, cursors = []\<rparr>"

text \<open>The loop of \<open>encode\<close> over the cursors.\<close>
fun encode_cursors :: "cursor_map \<Rightarrow> (wal_error, bytes) result" where
  "encode_cursors [] = Ok []"
| "encode_cursors (((cid, topic), wal_id) # cs) =
     and_then (u16_try_from (corrupt ''client_id too long'') (length cid)) (\<lambda>cid_len.
     and_then (u16_try_from (corrupt ''topic too long'') (length topic)) (\<lambda>topic_len.
     and_then (encode_cursors cs) (\<lambda>rest.
     Ok (put_u16 cid_len @ cid @ put_u16 topic_len @ topic @ put_u64 wal_id @ rest))))"

definition checkpoint_encode ::
  "(bytes \<Rightarrow> u32) \<Rightarrow> checkpoint_snapshot \<Rightarrow> (wal_error, bytes) result" where
  "checkpoint_encode crc32 cp =
     and_then (u32_try_from (corrupt ''too many checkpoint entries'') (length (cursors cp))) (\<lambda>n.
     and_then (encode_cursors (cursors cp)) (\<lambda>entries.
     (let buf = CHECKPOINT_MAGIC @ put_u32 CHECKPOINT_VERSION @ put_u64 (snapshot_id cp) @
                put_u32 n @ entries
      in Ok (buf @ put_u32 (crc32 buf)))))"

text \<open>One iteration of the loop of \<open>decode\<close>: one cursor and the bytes after it.\<close>
definition decode_cursor ::
  "bytes \<Rightarrow> (wal_error, ((rstring \<times> rstring) \<times> u64) \<times> bytes) result" where
  "decode_cursor sl =
     (if length sl < 2 then Err (corrupt ''checkpoint truncated'')
      else and_then (get_u16 sl) (\<lambda>(cid_len, sl).
        if length sl < unat cid_len + 2 then Err (corrupt ''checkpoint truncated'')
        else and_then (take_bytes (unat cid_len) sl) (\<lambda>(cid_bytes, sl).
          and_then (string_from_utf8 (corrupt ''cid not utf8'') cid_bytes) (\<lambda>cid.
          and_then (get_u16 sl) (\<lambda>(topic_len, sl).
          if length sl < unat topic_len + 8 then Err (corrupt ''checkpoint truncated'')
          else and_then (take_bytes (unat topic_len) sl) (\<lambda>(topic_bytes, sl).
            and_then (string_from_utf8 (corrupt ''topic not utf8'') topic_bytes) (\<lambda>topic.
            and_then (get_u64 sl) (\<lambda>(wal_id, sl).
            Ok (((cid, topic), wal_id), sl)))))))))"

fun decode_cursors :: "nat \<Rightarrow> bytes \<Rightarrow> cursor_map \<Rightarrow> (wal_error, cursor_map) result" where
  "decode_cursors 0 sl cs = Ok cs"
| "decode_cursors (Suc n) sl cs =
     and_then (decode_cursor sl) (\<lambda>((key, wal_id), sl). decode_cursors n sl (hm_insert key wal_id cs))"

definition checkpoint_decode ::
  "(bytes \<Rightarrow> u32) \<Rightarrow> bytes \<Rightarrow> (wal_error, checkpoint_snapshot) result" where
  "checkpoint_decode crc32 bs =
     (if length bs < 8 + 4 + 8 + 4 + 4 then Err (corrupt ''checkpoint file too short'')
      else let crc_offset = length bs - 4; body = take crc_offset bs in
        and_then (get_u32 (drop crc_offset bs)) (\<lambda>(stored_crc, _).
        if crc32 body \<noteq> stored_crc then Err (corrupt ''checkpoint CRC mismatch'')
        else and_then (take_bytes 8 body) (\<lambda>(magic, sl).
          if magic \<noteq> CHECKPOINT_MAGIC then Err (corrupt ''checkpoint magic mismatch'')
          else and_then (get_u32 sl) (\<lambda>(version, sl).
            if version \<noteq> CHECKPOINT_VERSION
            then Err (Corruption (str ''unsupported checkpoint version: '' @ show_nat (unat version)))
            else and_then (get_u64 sl) (\<lambda>(sid, sl).
              and_then (get_u32 sl) (\<lambda>(n, sl).
              and_then (decode_cursors (unat n) sl []) (\<lambda>cs.
              Ok \<lparr>snapshot_id = sid, cursors = cs\<rparr>)))))))"

section \<open>Decoders never panic\<close>

lemma wal_qos_of_byte_simps [simp]:
  "wal_qos_of_byte (qos_byte q) = Ok q" "wal_qos_of_byte b \<noteq> Panic"
  by (cases q) (simp_all add: wal_qos_of_byte_def)

lemma ack_decode_no_panic [simp]: "ack_decode_after_kind bs \<noteq> Panic"
  by (auto simp: ack_decode_after_kind_def rust_result split: prod.splits if_splits)

lemma message_decode_no_panic [simp]: "message_decode_after_kind bs \<noteq> Panic"
  by (auto simp: message_decode_after_kind_def take_bytes_all rust_result split: prod.splits if_splits)

lemma wal_entry_decode_no_panic: "wal_entry_decode bs \<noteq> Panic"
  by (cases bs) (auto simp: rust_result)

lemma decode_cursor_no_panic [simp]: "decode_cursor sl \<noteq> Panic"
  by (auto simp: decode_cursor_def rust_result split: prod.splits if_splits)

lemma decode_cursors_no_panic [simp]: "decode_cursors n sl cs \<noteq> Panic"
  by (induction n sl cs rule: decode_cursors.induct) (auto simp: rust_result split: prod.splits)

lemma decode_cursors_ok: "decode_cursors n sl cs = Ok cs' \<Longrightarrow> hm_ok cs \<Longrightarrow> hm_ok cs'"
  by (induction n sl cs rule: decode_cursors.induct) (auto simp: rust_result split: prod.splits)

lemma checkpoint_decode_no_panic: "checkpoint_decode crc32 bs \<noteq> Panic"
proof (cases "length bs < 28")
  case False
  then obtain body c where bs: "bs = body @ c" "length c = 4" "24 \<le> length body"
    by (intro that [of "take (length bs - 4) bs" "drop (length bs - 4) bs"]) auto
  then show ?thesis
    by (auto simp: checkpoint_decode_def Let_def rust_result split: prod.splits if_splits)
qed (simp add: checkpoint_decode_def)

section \<open>Round trips\<close>

definition entry_utf8 :: "wal_entry \<Rightarrow> bool" where
  "entry_utf8 e =
     (case e of MessageEntry m \<Rightarrow> utf8_valid (wm_topic m)
      | AckEntry a \<Rightarrow> utf8_valid (wa_client_id a) \<and> utf8_valid (wa_topic a))"

lemma message_roundtrip:
  assumes "message_encode_with_kind m = Ok bs" and "utf8_valid (wm_topic m)"
  shows "wal_entry_decode bs = Ok (MessageEntry m)"
  using assms
  by (clarsimp simp: message_encode_with_kind_def and_then_eq_Ok u16_try_from_Ok)
    (simp add: put_u8_def [of WAL_KIND_MESSAGE] message_decode_after_kind_def string_from_utf8_def wire)

lemma ack_roundtrip:
  assumes "ack_encode_with_kind a = Ok bs" and "utf8_valid (wa_client_id a)" "utf8_valid (wa_topic a)"
  shows "wal_entry_decode bs = Ok (AckEntry a)"
  using assms
  by (clarsimp simp: ack_encode_with_kind_def and_then_eq_Ok u16_try_from_Ok)
    (simp add: put_u8_def [of 2] WAL_KIND_ACK_def WAL_KIND_MESSAGE_def
      ack_decode_after_kind_def string_from_utf8_def wire)

lemma decode_cursor_encoded:
  assumes "utf8_valid cid" and "utf8_valid topic" and "length cid = unat (cl :: u16)"
    and "length topic = unat (tpl :: u16)"
  shows "decode_cursor (put_u16 cl @ cid @ put_u16 tpl @ topic @ put_u64 w @ rest) =
     Ok (((cid, topic), w), rest)"
  using assms by (simp add: decode_cursor_def string_from_utf8_def wire)

definition cursors_utf8 :: "cursor_map \<Rightarrow> bool" where
  "cursors_utf8 cs \<longleftrightarrow> list_all (\<lambda>((cid, topic), _). utf8_valid cid \<and> utf8_valid topic) cs"

lemma hm_insert_new: "k \<notin> hm_keys m \<Longrightarrow> hm_insert k v m = m @ [(k, v)]"
  by (induction m) auto

lemma decode_cursors_encoded:
  "encode_cursors cs = Ok bs \<Longrightarrow> cursors_utf8 cs \<Longrightarrow> hm_ok (acc @ cs) \<Longrightarrow>
     decode_cursors (length cs) (bs @ rest) acc = Ok (acc @ cs)"
proof (induction cs arbitrary: bs acc)
  case (Cons c cs)
  obtain cid topic w where c: "c = ((cid, topic), w)" by (cases c) auto
  from Cons.prems(1) obtain cl tpl bs' where e: "encode_cursors cs = Ok bs'"
    and bs: "bs = put_u16 cl @ cid @ put_u16 tpl @ topic @ put_u64 w @ bs'"
    and len: "length cid = unat cl" "length topic = unat tpl"
    by (auto simp: c and_then_eq_Ok u16_try_from_Ok)
  have "utf8_valid cid" "utf8_valid topic" "cursors_utf8 cs"
    using Cons.prems(2) by (auto simp: c cursors_utf8_def)
  moreover have "(cid, topic) \<notin> hm_keys acc" and "hm_ok ((acc @ [((cid, topic), w)]) @ cs)"
    using Cons.prems(3) by (auto simp: c)
  ultimately show ?case
    using Cons.IH [OF e] by (simp add: c bs decode_cursor_encoded len hm_insert_new)
qed simp

lemma length_CHECKPOINT_MAGIC [simp]: "length CHECKPOINT_MAGIC = 8"
  by (simp add: CHECKPOINT_MAGIC_def str_def)

text \<open>C23: A checkpoint file is read back as the snapshot that was written, for every CRC function, as
  long as the client ids and topics are UTF-8 (they are Rust strings) and the cursors are a map.\<close>
theorem checkpoint_roundtrip:
  assumes "checkpoint_encode crc32 cp = Ok bs" and "cursors_utf8 (cursors cp)" and "hm_ok (cursors cp)"
  shows "checkpoint_decode crc32 bs = Ok cp"
proof -
  obtain n entries where n: "unat n = length (cursors cp)" and e: "encode_cursors (cursors cp) = Ok entries"
    and bs: "bs = (CHECKPOINT_MAGIC @ put_u32 CHECKPOINT_VERSION @ put_u64 (snapshot_id cp) @
      put_u32 n @ entries) @ put_u32 (crc32 (CHECKPOINT_MAGIC @ put_u32 CHECKPOINT_VERSION @
      put_u64 (snapshot_id cp) @ put_u32 n @ entries))"
    using assms(1) by (auto simp: checkpoint_encode_def Let_def and_then_eq_Ok u32_try_from_Ok)
  have "decode_cursors (unat n) entries [] = Ok (cursors cp)"
    using decode_cursors_encoded [OF e assms(2), of "[]" "[]"] assms(3) n by simp
  then show ?thesis
    by (simp add: bs checkpoint_decode_def Let_def wire)
qed

theorem checkpoint_roundtrip_witness:
  "checkpoint_decode (\<lambda>bs. of_nat (length bs))
     (CHECKPOINT_MAGIC @ put_u32 1 @ put_u64 7 @ put_u32 1 @ put_u16 1 @ [99] @ put_u16 1 @ [116] @
      put_u64 7 @ put_u32 38) = Ok \<lparr>snapshot_id = 7, cursors = [(([99], [116]), 7)]\<rparr>"
  using checkpoint_roundtrip [of "\<lambda>bs. of_nat (length bs)" "\<lparr>snapshot_id = 7, cursors = [(([99], [116]), 7)]\<rparr>"]
  by (simp add: checkpoint_encode_def Let_def u16_try_from_def u32_try_from_def cursors_utf8_def
      CHECKPOINT_VERSION_def)


lemma be_bytes_2: "be_bytes 2 v = [of_nat (v div 256 mod 256), of_nat (v mod 256)]"
  by (simp add: numeral_2_eq_2)


end
