(* ===== verification/SubQueue.thy ===== *)
theory SubQueue
  imports Core_Types
begin

text \<open>
  \<open>SubscriberQueue\<close> of \<open>core/src/lib.rs\<close>: the per-subscriber queue with its
  pending deliveries, the unacknowledged QoS1 deliveries in flight, and the two
  timer heaps. A binary heap of \<open>Reverse\<close> entries is the sorted list of its
  entries: \<open>peek\<close> and \<open>pop\<close> take the head, \<open>push\<close> inserts in order. The
  current time of each operation is an argument; time is unbounded, so the sum of
  an instant and a duration does not overflow.
\<close>

section \<open>Entries and heaps\<close>

record queue_entry =
  qe_tag :: u64
  qe_payload :: bytes
  qe_qos :: qos
  qe_wal_id :: "u64 option"
  qe_created_at :: instant
  qe_ttl :: "duration option"
  qe_delivery_attempts :: u32
  qe_next_delivery_at :: instant

datatype expiration_entry = ExpirationEntry (expires_at: instant) (exp_tag: u64)

datatype retry_entry = RetryEntry (retry_at: instant) (retry_tag: u64)

instantiation expiration_entry :: linorder
begin

definition less_eq_expiration_entry :: "expiration_entry \<Rightarrow> expiration_entry \<Rightarrow> bool" where
  "a \<le> b \<longleftrightarrow> expires_at a < expires_at b \<or> (expires_at a = expires_at b \<and> exp_tag a \<le> exp_tag b)"

definition less_expiration_entry :: "expiration_entry \<Rightarrow> expiration_entry \<Rightarrow> bool" where
  "a < b \<longleftrightarrow> expires_at a < expires_at b \<or> (expires_at a = expires_at b \<and> exp_tag a < exp_tag b)"

instance
  by standard (auto simp: less_eq_expiration_entry_def less_expiration_entry_def expiration_entry.expand)

end

instantiation retry_entry :: linorder
begin

definition less_eq_retry_entry :: "retry_entry \<Rightarrow> retry_entry \<Rightarrow> bool" where
  "a \<le> b \<longleftrightarrow> retry_at a < retry_at b \<or> (retry_at a = retry_at b \<and> retry_tag a \<le> retry_tag b)"

definition less_retry_entry :: "retry_entry \<Rightarrow> retry_entry \<Rightarrow> bool" where
  "a < b \<longleftrightarrow> retry_at a < retry_at b \<or> (retry_at a = retry_at b \<and> retry_tag a < retry_tag b)"

instance
  by standard (auto simp: less_eq_retry_entry_def less_retry_entry_def retry_entry.expand)

end

section \<open>The queue\<close>

type_synonym entry_map = "(u64, queue_entry) hash_map"

record subscriber_queue =
  sq_default_qos :: qos
  sq_capacity :: nat
  next_tag :: u64
  pending :: "u64 list"
  pending_entries :: entry_map
  inflight :: entry_map
  expiration_heap :: "expiration_entry list"
  retry_heap :: "retry_entry list"

definition queue_new :: "qos \<Rightarrow> nat \<Rightarrow> subscriber_queue" where
  "queue_new default_qos capacity =
     \<lparr>sq_default_qos = default_qos, sq_capacity = capacity, next_tag = 1, pending = [],
      pending_entries = [], inflight = [], expiration_heap = [], retry_heap = []\<rparr>"

text \<open>The eviction loop of \<open>enqueue\<close>: oldest pending tags go while the queue is full.\<close>
fun evict :: "nat \<Rightarrow> nat \<Rightarrow> u64 list \<Rightarrow> entry_map \<Rightarrow> u64 list \<times> entry_map" where
  "evict capacity inflight_len [] pe = ([], pe)"
| "evict capacity inflight_len (tag # tags) pe =
     (if length pe + inflight_len \<ge> capacity
      then evict capacity inflight_len tags (hm_remove tag pe)
      else (tag # tags, pe))"

fun effective_qos :: "qos \<Rightarrow> qos \<Rightarrow> qos" where
  "effective_qos AtLeastOnce AtLeastOnce = AtLeastOnce"
| "effective_qos _ _ = AtMostOnce"

text \<open>The push of an entry's expiry onto the heap, for an entry that has a TTL.\<close>
definition push_expiration :: "queue_entry \<Rightarrow> expiration_entry list \<Rightarrow> expiration_entry list" where
  "push_expiration e heap =
     (case qe_ttl e of
        Some ttl \<Rightarrow> insort (ExpirationEntry (qe_created_at e + ttl) (qe_tag e)) heap
      | None \<Rightarrow> heap)"

definition enqueue ::
  "instant \<Rightarrow> bytes \<Rightarrow> qos \<Rightarrow> u64 option \<Rightarrow> duration option \<Rightarrow> subscriber_queue \<Rightarrow> subscriber_queue" where
  "enqueue now payload message_qos wal_id ttl q =
     (let (tags, pe) = evict (sq_capacity q) (length (inflight q)) (pending q) (pending_entries q);
          tag = next_tag q;
          entry = \<lparr>qe_tag = tag, qe_payload = payload,
                   qe_qos = effective_qos (sq_default_qos q) message_qos, qe_wal_id = wal_id,
                   qe_created_at = now, qe_ttl = ttl, qe_delivery_attempts = 0,
                   qe_next_delivery_at = now\<rparr>
      in q\<lparr>next_tag := tag + 1,
           expiration_heap := push_expiration entry (expiration_heap q),
           pending := tags @ [tag],
           pending_entries := hm_insert tag entry pe\<rparr>)"

definition register_push_inflight ::
  "instant \<Rightarrow> u64 \<Rightarrow> bytes \<Rightarrow> u64 option \<Rightarrow> duration option \<Rightarrow> subscriber_queue \<Rightarrow> subscriber_queue" where
  "register_push_inflight now tag payload wal_id ttl q =
     (let entry = \<lparr>qe_tag = tag, qe_payload = payload, qe_qos = AtLeastOnce, qe_wal_id = wal_id,
                   qe_created_at = now, qe_ttl = ttl, qe_delivery_attempts = 1,
                   qe_next_delivery_at = now\<rparr>
      in q\<lparr>expiration_heap := push_expiration entry (expiration_heap q),
           inflight := hm_insert tag entry (inflight q)\<rparr>)"

definition cancel_push_inflight :: "u64 \<Rightarrow> subscriber_queue \<Rightarrow> subscriber_queue" where
  "cancel_push_inflight tag q = q\<lparr>inflight := hm_remove tag (inflight q)\<rparr>"

text \<open>The loop of \<open>dequeue\<close>: skip tags whose entry is gone.\<close>
fun pop_pending :: "u64 list \<Rightarrow> entry_map \<Rightarrow> queue_entry option \<times> u64 list \<times> entry_map" where
  "pop_pending [] pe = (None, [], pe)"
| "pop_pending (tag # tags) pe =
     (case hm_get pe tag of
        Some entry \<Rightarrow> (Some entry, tags, hm_remove tag pe)
      | None \<Rightarrow> pop_pending tags pe)"

definition saturating_add_u32 :: "u32 \<Rightarrow> u32 \<Rightarrow> u32" where
  "saturating_add_u32 a b = (if unat a + unat b < 2 ^ 32 then a + b else - 1)"

definition saturating_sub_u32 :: "u32 \<Rightarrow> u32 \<Rightarrow> u32" where
  "saturating_sub_u32 a b = (if b \<le> a then a - b else 0)"

definition saturating_mul_u32 :: "u32 \<Rightarrow> u32 \<Rightarrow> u32" where
  "saturating_mul_u32 a b = (if unat a * unat b < 2 ^ 32 then a * b else - 1)"

fun double_times :: "nat \<Rightarrow> u32 \<Rightarrow> u32" where
  "double_times 0 factor = factor"
| "double_times (Suc n) factor = double_times n (saturating_mul_u32 factor 2)"

text \<open>\<open>Duration::checked_mul\<close>: the seconds of the product must fit 64 bits.\<close>
definition duration_checked_mul :: "duration \<Rightarrow> u32 \<Rightarrow> duration option" where
  "duration_checked_mul d f =
     (if d * unat f < 2 ^ 64 * 1000000000 then Some (d * unat f) else None)"

definition backoff :: "duration \<Rightarrow> u32 \<Rightarrow> duration" where
  "backoff base_delay attempts =
     (let shift = min (saturating_sub_u32 attempts 1) 31;
          factor = double_times (unat shift) 1
      in case duration_checked_mul base_delay factor of Some d \<Rightarrow> d | None \<Rightarrow> base_delay)"

definition dequeue ::
  "instant \<Rightarrow> duration \<Rightarrow> subscriber_queue \<Rightarrow>
   (queue_entry \<times> u64 option) option \<times> subscriber_queue" where
  "dequeue now base_delay q =
     (case pop_pending (pending q) (pending_entries q) of
        (None, tags, pe) \<Rightarrow> (None, q\<lparr>pending := tags, pending_entries := pe\<rparr>)
      | (Some entry, tags, pe) \<Rightarrow>
          (let q = q\<lparr>pending := tags, pending_entries := pe\<rparr> in
           case qe_qos entry of
             AtMostOnce \<Rightarrow> (Some (entry, None), q)
           | AtLeastOnce \<Rightarrow>
               (let attempts = saturating_add_u32 (qe_delivery_attempts entry) 1;
                    entry = entry\<lparr>qe_delivery_attempts := attempts,
                                  qe_next_delivery_at := now + backoff base_delay attempts\<rparr>
                in (Some (entry, Some (qe_tag entry)),
                    q\<lparr>inflight := hm_insert (qe_tag entry) entry (inflight q),
                      retry_heap := insort (RetryEntry (qe_next_delivery_at entry) (qe_tag entry))
                        (retry_heap q)\<rparr>))))"

definition peek :: "subscriber_queue \<Rightarrow> bytes option" where
  "peek q =
     (case List.map_filter (\<lambda>tag. map_option qe_payload (hm_get (pending_entries q) tag)) (pending q) of
        p # _ \<Rightarrow> Some p | [] \<Rightarrow> None)"

text \<open>Acknowledgement: \<open>None\<close> for an unknown tag, else the entry's WAL id.\<close>
definition queue_ack :: "u64 \<Rightarrow> subscriber_queue \<Rightarrow> u64 option option \<times> subscriber_queue" where
  "queue_ack tag q =
     (map_option qe_wal_id (hm_get (inflight q) tag),
      q\<lparr>inflight := hm_remove tag (inflight q)\<rparr>)"

definition inflight_len :: "subscriber_queue \<Rightarrow> nat" where
  "inflight_len q = length (inflight q)"

definition expiration_heap_len :: "subscriber_queue \<Rightarrow> nat" where
  "expiration_heap_len q = length (expiration_heap q)"

definition retry_heap_len :: "subscriber_queue \<Rightarrow> nat" where
  "retry_heap_len q = length (retry_heap q)"

text \<open>Whether a heap entry is the current expiry of a queue entry.\<close>
definition expires_with :: "queue_entry \<Rightarrow> expiration_entry \<Rightarrow> bool" where
  "expires_with e x =
     (case qe_ttl e of Some ttl \<Rightarrow> qe_created_at e + ttl = expires_at x | None \<Rightarrow> False)"

type_synonym dropped_list = "(bytes \<times> drop_reason) list"

text \<open>The first loop of \<open>maintenance_tick\<close>: TTL expiry.\<close>
fun expire_loop ::
  "instant \<Rightarrow> expiration_entry list \<Rightarrow> entry_map \<Rightarrow> entry_map \<Rightarrow> dropped_list \<Rightarrow>
   expiration_entry list \<times> entry_map \<times> entry_map \<times> dropped_list" where
  "expire_loop now [] pe infl dropped = ([], pe, infl, dropped)"
| "expire_loop now (x # xs) pe infl dropped =
     (if expires_at x > now then (x # xs, pe, infl, dropped)
      else case hm_get pe (exp_tag x) of
        Some e \<Rightarrow>
          (if expires_with e x
           then expire_loop now xs (hm_remove (exp_tag x) pe) infl (dropped @ [(qe_payload e, TtlExpired)])
           else expire_loop now xs pe infl dropped)
      | None \<Rightarrow>
          (case hm_get infl (exp_tag x) of
             Some e \<Rightarrow>
               (if expires_with e x
                then expire_loop now xs pe (hm_remove (exp_tag x) infl)
                  (dropped @ [(qe_payload e, TtlExpired)])
                else expire_loop now xs pe infl dropped)
           | None \<Rightarrow> expire_loop now xs pe infl dropped))"

text \<open>The second loop: retries that are due go back to pending or are given up.\<close>
fun retry_loop ::
  "instant \<Rightarrow> u32 \<Rightarrow> retry_entry list \<Rightarrow> u64 list \<Rightarrow> entry_map \<Rightarrow> entry_map \<Rightarrow> dropped_list \<Rightarrow>
   retry_entry list \<times> u64 list \<times> entry_map \<times> entry_map \<times> dropped_list" where
  "retry_loop now max_retries [] pend pe infl dropped = ([], pend, pe, infl, dropped)"
| "retry_loop now max_retries (r # rs) pend pe infl dropped =
     (if retry_at r > now then (r # rs, pend, pe, infl, dropped)
      else case hm_get infl (retry_tag r) of
        None \<Rightarrow> retry_loop now max_retries rs pend pe infl dropped
      | Some e \<Rightarrow>
          (if qe_next_delivery_at e \<noteq> retry_at r then retry_loop now max_retries rs pend pe infl dropped
           else if qe_delivery_attempts e \<ge> max_retries
           then retry_loop now max_retries rs pend pe (hm_remove (retry_tag r) infl)
             (dropped @ [(qe_payload e, MaxRetriesExceeded)])
           else (let e = e\<lparr>qe_next_delivery_at := now\<rparr> in
             retry_loop now max_retries rs (pend @ [qe_tag e]) (hm_insert (qe_tag e) e pe)
               (hm_remove (retry_tag r) infl) dropped)))"

definition queue_maintenance_tick ::
  "instant \<Rightarrow> u32 \<Rightarrow> subscriber_queue \<Rightarrow> dropped_list \<times> subscriber_queue" where
  "queue_maintenance_tick now max_retries q =
     (let (xh, pe, infl, dropped) =
            expire_loop now (expiration_heap q) (pending_entries q) (inflight q) [];
          (rh, pend, pe, infl, dropped) =
            retry_loop now max_retries (retry_heap q) (pending q) pe infl dropped
      in (dropped, q\<lparr>pending := pend, pending_entries := pe, inflight := infl,
                     expiration_heap := xh, retry_heap := rh\<rparr>))"

section \<open>Well-formed queues\<close>

text \<open>
  A map of entries under a heap: keys are the entries' tags, and an entry with a
  TTL has its expiry on the heap.
\<close>
definition entries_ok :: "entry_map \<Rightarrow> expiration_entry list \<Rightarrow> bool" where
  "entries_ok m heap \<longleftrightarrow> hm_ok m \<and>
     (\<forall>t e. hm_get m t = Some e \<longrightarrow> qe_tag e = t \<and>
        (\<forall>d. qe_ttl e = Some d \<longrightarrow> ExpirationEntry (qe_created_at e + d) t \<in> set heap))"

definition queue_inv :: "subscriber_queue \<Rightarrow> bool" where
  "queue_inv q \<longleftrightarrow>
     entries_ok (pending_entries q) (expiration_heap q) \<and>
     entries_ok (inflight q) (expiration_heap q) \<and>
     distinct (pending q) \<and> hm_keys (pending_entries q) \<subseteq> set (pending q) \<and>
     set (pending q) \<inter> hm_keys (inflight q) = {} \<and>
     sorted (expiration_heap q) \<and> sorted (retry_heap q)"

text \<open>
  The stronger invariant of a queue that is only polled: tags in use are below the
  tag counter, and every delivery in flight has its retry on the heap.
\<close>
definition poll_inv :: "subscriber_queue \<Rightarrow> bool" where
  "poll_inv q \<longleftrightarrow> queue_inv q \<and>
     (\<forall>t \<in> set (pending q) \<union> hm_keys (inflight q). t < next_tag q) \<and>
     (\<forall>t e. hm_get (inflight q) t = Some e \<longrightarrow>
        RetryEntry (qe_next_delivery_at e) t \<in> set (retry_heap q) \<and> qe_qos e = AtLeastOnce)"

definition expired :: "instant \<Rightarrow> queue_entry \<Rightarrow> bool" where
  "expired now e = (case qe_ttl e of Some d \<Rightarrow> qe_created_at e + d \<le> now | None \<Rightarrow> False)"

definition live :: "instant \<Rightarrow> queue_entry option \<Rightarrow> queue_entry option" where
  "live now eo = (case eo of Some e \<Rightarrow> if expired now e then None else Some e | None \<Rightarrow> None)"

definition payloads :: "entry_map \<Rightarrow> bytes multiset" where
  "payloads m = mset (map (qe_payload \<circ> snd) m)"

lemma live_simps [simp]:
  "live now None = None"
  "live now (Some e) = (if expired now e then None else Some e)"
  by (simp_all add: live_def)

lemma payloads_remove:
  assumes "hm_ok m" and "hm_get m k = Some e"
  shows "payloads m = add_mset (qe_payload e) (payloads (hm_remove k m))"
proof -
  have "mset (map snd m) = add_mset e (mset (map snd (hm_remove k m)))"
    by (rule hm_values_remove [OF assms])
  then show ?thesis
    unfolding payloads_def by (metis image_mset_add_mset map_map mset_map)
qed

lemma payloads_insert_new:
  assumes "k \<notin> hm_keys m"
  shows "payloads (hm_insert k e m) = add_mset (qe_payload e) (payloads m)"
proof -
  have "mset (map snd (hm_insert k e m)) = add_mset e (mset (map snd m))"
    by (rule hm_values_insert_new [OF assms])
  then show ?thesis
    unfolding payloads_def by (metis image_mset_add_mset map_map mset_map)
qed

section \<open>The expiry loop\<close>

lemma entries_ok_hm: "entries_ok m h \<Longrightarrow> hm_ok m"
  by (simp add: entries_ok_def)

lemma entries_ok_tag: "entries_ok m h \<Longrightarrow> hm_get m t = Some e \<Longrightarrow> qe_tag e = t"
  by (simp add: entries_ok_def)

lemma entries_ok_pop_remove:
  assumes "entries_ok m (x # xs)"
  shows "entries_ok (hm_remove (exp_tag x) m) xs"
  using assms by (cases x) (fastforce simp: entries_ok_def split: if_splits)

lemma entries_ok_pop_skip:
  assumes "entries_ok m (x # xs)" and "\<And>e. hm_get m (exp_tag x) = Some e \<Longrightarrow> \<not> expires_with e x"
  shows "entries_ok m xs"
  using assms by (cases x) (fastforce simp: entries_ok_def expires_with_def)

lemma not_expired_above:
  assumes "entries_ok m h" and "\<forall>x \<in> set h. now < expires_at x" and "hm_get m t = Some e"
  shows "\<not> expired now e"
  using assms by (fastforce simp: entries_ok_def expired_def split: option.splits)

lemma live_above:
  assumes "entries_ok m h" and "\<forall>x \<in> set h. now < expires_at x"
  shows "live now (hm_get m t) = hm_get m t"
  using not_expired_above [OF assms] by (cases "hm_get m t") auto

lemma expires_with_expired: "expires_with e x \<Longrightarrow> expires_at x \<le> now \<Longrightarrow> expired now e"
  by (auto simp: expires_with_def expired_def split: option.splits)

lemma live_remove:
  "hm_get m k = Some e \<Longrightarrow> expired now e \<Longrightarrow>
     live now (hm_get (hm_remove k m) t) = live now (hm_get m t)"
  by auto

lemma expire_loop_live:
  assumes "entries_ok pe xs" "entries_ok infl xs" "hm_keys pe \<inter> hm_keys infl = {}" "sorted xs"
    and "expire_loop now xs pe infl dr = (xs', pe', infl', dr')"
  shows "entries_ok pe' xs' \<and> entries_ok infl' xs' \<and> sorted xs' \<and>
    (\<forall>t. hm_get pe' t = live now (hm_get pe t)) \<and> (\<forall>t. hm_get infl' t = live now (hm_get infl t))"
  using assms
proof (induction now xs pe infl dr rule: expire_loop.induct)
  case (1 now pe infl dr)
  then show ?case using live_above [of _ "[]"] by auto
next
  case (2 now x xs pe infl dr)
  show ?case
  proof (cases "expires_at x > now")
    case True
    then have "\<forall>y \<in> set (x # xs). now < expires_at y"
      using "2.prems"(4) by (fastforce simp: less_eq_expiration_entry_def)
    then show ?thesis
      using 2 True live_above by auto
  next
    case le: False
    then have s: "sorted xs" and x: "expires_at x \<le> now" using "2.prems"(4) by auto
    note skip = entries_ok_pop_skip and rem = entries_ok_pop_remove
    show ?thesis
    proof (cases "hm_get pe (exp_tag x)")
      case (Some e)
      then have i: "hm_get infl (exp_tag x) = None"
        using "2.prems"(3) by (auto simp: hm_get_None_iff dest: hm_get_Some_key)
      show ?thesis
      proof (cases "expires_with e x")
        case True
        have d: "hm_keys (hm_remove (exp_tag x) pe) \<inter> hm_keys infl = {}"
          using "2.prems"(3) by auto
        have "entries_ok infl xs" using skip [OF "2.prems"(2)] i by simp
        from "2.IH"(4) [OF le Some True rem [OF "2.prems"(1)] this d s] "2.prems"(5)
        show ?thesis
          using le Some True live_remove [OF Some expires_with_expired [OF True x]] by simp
      next
        case False
        have "entries_ok pe xs" "entries_ok infl xs"
          using skip [OF "2.prems"(1)] skip [OF "2.prems"(2)] Some False i by auto
        from "2.IH"(5) [OF le Some False this "2.prems"(3) s] "2.prems"(5)
        show ?thesis using le Some False by simp
      qed
    next
      case None
      have pe: "entries_ok pe xs" using skip [OF "2.prems"(1)] None by simp
      show ?thesis
      proof (cases "hm_get infl (exp_tag x)")
        case (Some e)
        show ?thesis
        proof (cases "expires_with e x")
          case True
          have d: "hm_keys pe \<inter> hm_keys (hm_remove (exp_tag x) infl) = {}"
            using "2.prems"(3) by auto
          from "2.IH"(2) [OF le None Some True pe rem [OF "2.prems"(2)] d s] "2.prems"(5)
          show ?thesis
            using le None Some True live_remove [OF Some expires_with_expired [OF True x]] by simp
        next
          case False
          have "entries_ok infl xs" using skip [OF "2.prems"(2)] Some False by simp
          from "2.IH"(3) [OF le None Some False pe this "2.prems"(3) s] "2.prems"(5)
          show ?thesis using le None Some False by simp
        qed
      next
        case n: None
        have "entries_ok infl xs" using skip [OF "2.prems"(2)] n by simp
        from "2.IH"(1) [OF le None n pe this "2.prems"(3) s] "2.prems"(5)
        show ?thesis using le None n by simp
      qed
    qed
  qed
qed

lemma expire_loop_payloads:
  "hm_ok pe \<Longrightarrow> hm_ok infl \<Longrightarrow> expire_loop now xs pe infl dr = (xs', pe', infl', dr') \<Longrightarrow>
     payloads pe + payloads infl + mset (map fst dr) =
       payloads pe' + payloads infl' + mset (map fst dr')"
proof (induction now xs pe infl dr rule: expire_loop.induct)
  case (2 now x xs pe infl dr)
  then show ?case
    by (auto simp: payloads_remove split: if_splits option.splits)
qed simp

lemma expire_loop_reasons:
  "expire_loop now xs pe infl dr = (xs', pe', infl', dr') \<Longrightarrow>
     (\<exists>ps. dr' = dr @ map (\<lambda>p. (p, TtlExpired)) ps)"
proof (induction now xs pe infl dr rule: expire_loop.induct)
  case (2 now x xs pe infl dr)
  then show ?case
    by (auto split: if_splits option.splits) (metis list.simps(9))+
qed simp

lemma expire_loop_subset:
  "expire_loop now xs pe infl dr = (xs', pe', infl', dr') \<Longrightarrow>
     hm_keys pe' \<subseteq> hm_keys pe \<and> hm_keys infl' \<subseteq> hm_keys infl"
proof (induction now xs pe infl dr rule: expire_loop.induct)
  case (2 now x xs pe infl dr)
  then show ?case
    by (simp split: if_splits option.splits) (auto simp only: hm_keys_remove)+
qed simp

section \<open>The retry loop\<close>

definition core_inv :: "entry_map \<Rightarrow> entry_map \<Rightarrow> u64 list \<Rightarrow> expiration_entry list \<Rightarrow> bool" where
  "core_inv pe infl pend heap \<longleftrightarrow> entries_ok pe heap \<and> entries_ok infl heap \<and> distinct pend \<and>
     hm_keys pe \<subseteq> set pend \<and> set pend \<inter> hm_keys infl = {}"

lemma queue_inv_core:
  "queue_inv q \<longleftrightarrow> core_inv (pending_entries q) (inflight q) (pending q) (expiration_heap q) \<and>
     sorted (expiration_heap q) \<and> sorted (retry_heap q)"
  unfolding queue_inv_def core_inv_def by blast

lemma entries_ok_remove: "entries_ok m h \<Longrightarrow> entries_ok (hm_remove t m) h"
  by (fastforce simp: entries_ok_def split: if_splits)

lemma core_inv_remove: "core_inv pe infl pend h \<Longrightarrow> core_inv pe (hm_remove t infl) pend h"
  unfolding core_inv_def hm_keys_remove by (blast intro: entries_ok_remove)

lemma entries_ok_insert:
  assumes "entries_ok m h" and "qe_tag e = t"
    and "\<And>d. qe_ttl e = Some d \<Longrightarrow> ExpirationEntry (qe_created_at e + d) t \<in> set h"
  shows "entries_ok (hm_insert t e m) h"
  using assms unfolding entries_ok_def hm_get_insert by (auto simp del: map_of_eq_Some_iff)

lemma core_inv_requeue:
  assumes "core_inv pe infl pend h" and "hm_get infl t = Some e"
  shows "core_inv (hm_insert t (e\<lparr>qe_next_delivery_at := now\<rparr>) pe) (hm_remove t infl) (pend @ [t]) h"
proof -
  have "entries_ok (hm_insert t (e\<lparr>qe_next_delivery_at := now\<rparr>) pe) h"
    using assms by (intro entries_ok_insert) (auto simp: core_inv_def entries_ok_def
        simp del: map_of_eq_Some_iff)
  moreover have "t \<in> hm_keys infl" using assms(2) by (rule hm_get_Some_key)
  ultimately show ?thesis
    using assms(1) unfolding core_inv_def hm_keys_insert hm_keys_remove
    by (auto simp: entries_ok_remove simp del: map_of_eq_Some_iff)
qed

lemma retry_loop_core:
  assumes "core_inv pe infl pend h" "sorted rs"
    and "retry_loop now mr rs pend pe infl dr = (rs', pend', pe', infl', dr')"
  shows "core_inv pe' infl' pend' h \<and> sorted rs' \<and>
    payloads pe + payloads infl + mset (map fst dr) = payloads pe' + payloads infl' + mset (map fst dr')"
  using assms
proof (induction now mr rs pend pe infl dr rule: retry_loop.induct)
  case (2 now mr r rs pend pe infl dr)
  show ?case
  proof (cases "retry_at r > now")
    case le: False
    have s: "sorted rs" using "2.prems"(2) by simp
    show ?thesis
    proof (cases "hm_get infl (retry_tag r)")
      case None
      with "2.prems"(3) le have "retry_loop now mr rs pend pe infl dr = (rs', pend', pe', infl', dr')"
        by simp
      from "2.IH"(1) [OF le None "2.prems"(1) s this] show ?thesis .
    next
      case (Some e)
      note ok = "2.prems"(1)
      have tag: "qe_tag e = retry_tag r" and hi: "hm_ok infl"
        using ok Some by (auto simp: core_inv_def dest: entries_ok_tag entries_ok_hm)
      have fresh: "retry_tag r \<notin> hm_keys pe"
        using ok hm_get_Some_key [OF Some] unfolding core_inv_def by blast
      consider (stale) "qe_next_delivery_at e \<noteq> retry_at r"
        | (give_up) "qe_next_delivery_at e = retry_at r" "qe_delivery_attempts e \<ge> mr"
        | (requeue) "qe_next_delivery_at e = retry_at r" "\<not> qe_delivery_attempts e \<ge> mr"
        by blast
      then show ?thesis
      proof cases
        case stale
        have "retry_loop now mr rs pend pe infl dr = (rs', pend', pe', infl', dr')"
          using "2.prems"(3) le Some stale by simp
        from "2.IH"(2) [OF le Some stale ok s this] show ?thesis .
      next
        case give_up
        have "retry_loop now mr rs pend pe (hm_remove (retry_tag r) infl)
            (dr @ [(qe_payload e, MaxRetriesExceeded)]) = (rs', pend', pe', infl', dr')"
          using "2.prems"(3) le Some give_up by simp
        from "2.IH"(3) [OF le Some _ give_up(2) core_inv_remove [OF ok] s this] give_up
        show ?thesis by (simp add: payloads_remove [OF hi Some])
      next
        case requeue
        let ?e = "e\<lparr>qe_next_delivery_at := now\<rparr>"
        have "retry_loop now mr rs (pend @ [qe_tag ?e]) (hm_insert (qe_tag ?e) ?e pe)
            (hm_remove (retry_tag r) infl) dr = (rs', pend', pe', infl', dr')"
          using "2.prems"(3) le Some requeue by simp
        moreover have "core_inv (hm_insert (qe_tag ?e) ?e pe) (hm_remove (retry_tag r) infl)
            (pend @ [qe_tag ?e]) h"
          using core_inv_requeue [OF ok Some, of now] tag by simp
        ultimately have "core_inv pe' infl' pend' h \<and> sorted rs' \<and>
            payloads (hm_insert (qe_tag ?e) ?e pe) + payloads (hm_remove (retry_tag r) infl) +
              mset (map fst dr) = payloads pe' + payloads infl' + mset (map fst dr')"
          using "2.IH"(4) [OF le Some _ requeue(2) refl _ s] requeue(1) by blast
        then show ?thesis
          by (simp add: tag payloads_remove [OF hi Some] payloads_insert_new [OF fresh])
      qed
    qed
  qed (use "2.prems" in auto)
qed simp

text \<open>Every delivery in flight has its retry on the heap.\<close>
definition retry_covered :: "entry_map \<Rightarrow> retry_entry list \<Rightarrow> bool" where
  "retry_covered infl rs \<longleftrightarrow>
     (\<forall>t e. hm_get infl t = Some e \<longrightarrow> RetryEntry (qe_next_delivery_at e) t \<in> set rs)"

text \<open>What the loop leaves in flight, and what it leaves pending, for one tag.\<close>
definition inflight_after :: "instant \<Rightarrow> queue_entry option \<Rightarrow> queue_entry option" where
  "inflight_after now eo =
     (case eo of Some e \<Rightarrow> if qe_next_delivery_at e \<le> now then None else Some e | None \<Rightarrow> None)"

definition pending_after ::
  "instant \<Rightarrow> u32 \<Rightarrow> queue_entry option \<Rightarrow> queue_entry option \<Rightarrow> queue_entry option" where
  "pending_after now mr eo po =
     (case eo of
        Some e \<Rightarrow> if qe_next_delivery_at e \<le> now \<and> qe_delivery_attempts e < mr
          then Some (e\<lparr>qe_next_delivery_at := now\<rparr>) else po
      | None \<Rightarrow> po)"

lemma after_simps [simp]:
  "inflight_after now None = None" "pending_after now mr None po = po"
  by (simp_all add: inflight_after_def pending_after_def)

lemma retry_covered_pop:
  assumes "retry_covered infl (r # rs)"
  shows "retry_covered (hm_remove (retry_tag r) infl) rs"
    and "(\<And>e. hm_get infl (retry_tag r) = Some e \<Longrightarrow> qe_next_delivery_at e \<noteq> retry_at r) \<Longrightarrow>
      retry_covered infl rs"
  using assms by (cases r; fastforce simp: retry_covered_def split: if_splits)+

lemma inflight_after_above:
  assumes "retry_covered infl rs" and "\<forall>x \<in> set rs. now < retry_at x"
  shows "inflight_after now (hm_get infl t) = hm_get infl t"
    and "pending_after now mr (hm_get infl t) po = po"
  using assms by (fastforce simp: retry_covered_def inflight_after_def pending_after_def
      split: option.splits)+

lemma after_pop:
  assumes "hm_get infl k = Some e" and "qe_next_delivery_at e \<le> now"
  shows "inflight_after now (hm_get (hm_remove k infl) t) = inflight_after now (hm_get infl t)"
    and "mr \<le> qe_delivery_attempts e \<Longrightarrow>
      pending_after now mr (hm_get (hm_remove k infl) t) po = pending_after now mr (hm_get infl t) po"
    and "\<not> mr \<le> qe_delivery_attempts e \<Longrightarrow>
      pending_after now mr (hm_get (hm_remove k infl) t)
        (hm_get (hm_insert k (e\<lparr>qe_next_delivery_at := now\<rparr>) pe) t) =
      pending_after now mr (hm_get infl t) (hm_get pe t)"
proof -
  show "inflight_after now (hm_get (hm_remove k infl) t) = inflight_after now (hm_get infl t)"
    using assms by (cases "t = k") (simp_all add: inflight_after_def)
  show "pending_after now mr (hm_get (hm_remove k infl) t) po = pending_after now mr (hm_get infl t) po"
    if "mr \<le> qe_delivery_attempts e"
    using assms leD [OF that] by (cases "t = k") (simp_all add: pending_after_def)
  show "pending_after now mr (hm_get (hm_remove k infl) t)
      (hm_get (hm_insert k (e\<lparr>qe_next_delivery_at := now\<rparr>) pe) t) =
    pending_after now mr (hm_get infl t) (hm_get pe t)" if "\<not> mr \<le> qe_delivery_attempts e"
  proof -
    have "qe_delivery_attempts e < mr" using that by (simp only: not_le)
    with assms show ?thesis by (cases "t = k") (simp_all add: pending_after_def)
  qed
qed

lemma retry_loop_due:
  assumes "core_inv pe infl pend h" "retry_covered infl rs" "sorted rs"
    and "retry_loop now mr rs pend pe infl dr = (rs', pend', pe', infl', dr')"
  shows "retry_covered infl' rs' \<and>
    (\<forall>t. hm_get infl' t = inflight_after now (hm_get infl t)) \<and>
    (\<forall>t. hm_get pe' t = pending_after now mr (hm_get infl t) (hm_get pe t))"
  using assms
proof (induction now mr rs pend pe infl dr rule: retry_loop.induct)
  case (1 now mr pend pe infl dr)
  then show ?case using inflight_after_above [of infl "[]"] by simp
next
  case (2 now mr r rs pend pe infl dr)
  note cov = retry_covered_pop [OF "2.prems"(2)]
  show ?case
  proof (cases "retry_at r > now")
    case True
    then have "\<forall>y \<in> set (r # rs). now < retry_at y"
      using "2.prems"(3) by (fastforce simp: less_eq_retry_entry_def)
    then show ?thesis
      using inflight_after_above [OF "2.prems"(2)] "2.prems" True by auto
  next
    case le: False
    have s: "sorted rs" using "2.prems"(3) by simp
    show ?thesis
    proof (cases "hm_get infl (retry_tag r)")
      case None
      with "2.prems"(4) le have "retry_loop now mr rs pend pe infl dr = (rs', pend', pe', infl', dr')"
        by simp
      moreover have "retry_covered infl rs" using cov(2) None by simp
      ultimately show ?thesis using "2.IH"(1) [OF le None "2.prems"(1) _ s] by blast
    next
      case (Some e)
      note ok = "2.prems"(1)
      have tag: "qe_tag e = retry_tag r"
        using ok Some by (auto simp: core_inv_def dest: entries_ok_tag)
      show ?thesis
      proof (cases "qe_next_delivery_at e = retry_at r")
        case False
        have "retry_loop now mr rs pend pe infl dr = (rs', pend', pe', infl', dr')"
          using "2.prems"(4) le Some False by simp
        moreover have "retry_covered infl rs" using cov(2) Some False by simp
        ultimately show ?thesis using "2.IH"(2) [OF le Some False ok _ s] by blast
      next
        case at: True
        then have due: "qe_next_delivery_at e \<le> now" using le by simp
        show ?thesis
        proof (cases "qe_delivery_attempts e \<ge> mr")
          case True
          have "retry_loop now mr rs pend pe (hm_remove (retry_tag r) infl)
              (dr @ [(qe_payload e, MaxRetriesExceeded)]) = (rs', pend', pe', infl', dr')"
            using "2.prems"(4) le Some at True by simp
          from "2.IH"(3) [OF le Some _ True core_inv_remove [OF ok] cov(1) s this] at
          show ?thesis
            by (simp add: after_pop(1) [OF Some due] after_pop(2) [OF Some due True]
                del: hm_get_remove hm_get_insert)
        next
          case False
          let ?e = "e\<lparr>qe_next_delivery_at := now\<rparr>"
          have "retry_loop now mr rs (pend @ [qe_tag ?e]) (hm_insert (qe_tag ?e) ?e pe)
              (hm_remove (retry_tag r) infl) dr = (rs', pend', pe', infl', dr')"
            using "2.prems"(4) le Some at False by simp
          moreover have "core_inv (hm_insert (qe_tag ?e) ?e pe) (hm_remove (retry_tag r) infl)
              (pend @ [qe_tag ?e]) h"
            using core_inv_requeue [OF ok Some, of now] tag by simp
          ultimately have "retry_covered infl' rs' \<and>
              (\<forall>t. hm_get infl' t = inflight_after now (hm_get (hm_remove (retry_tag r) infl) t)) \<and>
              (\<forall>t. hm_get pe' t = pending_after now mr (hm_get (hm_remove (retry_tag r) infl) t)
                (hm_get (hm_insert (retry_tag r) ?e pe) t))"
            using "2.IH"(4) [OF le Some _ False refl _ cov(1) s] at tag
            by (simp del: hm_get_remove hm_get_insert)
          then show ?thesis
            by (simp add: after_pop(1) [OF Some due] after_pop(3) [OF Some due False]
                del: hm_get_remove hm_get_insert)
        qed
      qed
    qed
  qed
qed

section \<open>Pending entries in order\<close>

definition live_pending :: "u64 list \<Rightarrow> entry_map \<Rightarrow> queue_entry list" where
  "live_pending pend pe = List.map_filter (hm_get pe) pend"

lemma live_pending_simps [simp]:
  "live_pending [] pe = []"
  "live_pending (t # ts) pe =
     (case hm_get pe t of Some e \<Rightarrow> e # live_pending ts pe | None \<Rightarrow> live_pending ts pe)"
  "live_pending (ts @ us) pe = live_pending ts pe @ live_pending us pe"
  by (auto simp: live_pending_def List.map_filter_def split: option.splits)

lemma live_pending_cong:
  "(\<And>t. t \<in> set ts \<Longrightarrow> hm_get pe t = hm_get pe' t) \<Longrightarrow> live_pending ts pe = live_pending ts pe'"
  by (induction ts) (auto split: option.splits)

lemma live_pending_remove: "t \<notin> set ts \<Longrightarrow> live_pending ts (hm_remove t pe) = live_pending ts pe"
  by (rule live_pending_cong) auto

lemma live_pending_length:
  assumes "hm_ok pe" and "distinct ts" and "hm_keys pe \<subseteq> set ts"
  shows "length (live_pending ts pe) = length pe"
proof -
  have "length (live_pending ts pe) = card {t \<in> set ts. hm_get pe t \<noteq> None}"
    using assms(2)
  proof (induction ts)
    case (Cons t ts)
    moreover have "{u \<in> set (t # ts). hm_get pe u \<noteq> None} =
        (if hm_get pe t = None then {} else {t}) \<union> {u \<in> set ts. hm_get pe u \<noteq> None}" by auto
    ultimately show ?case by (auto split: option.splits simp del: not_None_eq)
  qed simp
  also have "{t \<in> set ts. hm_get pe t \<noteq> None} = hm_keys pe"
    using assms(3) unfolding hm_get_None_iff by blast
  also have "card \<dots> = length pe"
    using distinct_card [OF assms(1)] by simp
  finally show ?thesis .
qed

lemma evict_live:
  assumes "hm_ok pe" and "distinct ts" and "hm_keys pe \<subseteq> set ts" and "evict cap n ts pe = (ts', pe')"
  shows "hm_ok pe' \<and> (\<exists>k. ts' = drop k ts) \<and> hm_keys pe' \<subseteq> set ts' \<and>
    (\<forall>t. hm_get pe' t = (if t \<in> set ts' then hm_get pe t else None)) \<and>
    live_pending ts' pe' = drop (length pe - (cap - n - 1)) (live_pending ts pe)"
  using assms
proof (induction cap n ts pe rule: evict.induct)
  case (1 cap n pe)
  then show ?case by simp
next
  case (2 cap n t ts pe)
  show ?case
  proof (cases "length pe + n \<ge> cap")
    case False
    then show ?thesis
      using 2 by (auto simp: hm_get_None_iff intro: exI [of _ 0])
  next
    case True
    let ?pe = "hm_remove t pe"
    have t: "t \<notin> set ts" and d: "distinct ts" using "2.prems"(2) by auto
    have k: "hm_keys ?pe \<subseteq> set ts" using "2.prems"(3) unfolding hm_keys_remove by auto
    have IH: "hm_ok pe' \<and> (\<exists>k. ts' = drop k ts) \<and> hm_keys pe' \<subseteq> set ts' \<and>
        (\<forall>u. hm_get pe' u = (if u \<in> set ts' then hm_get ?pe u else None)) \<and>
        live_pending ts' pe' = drop (length ?pe - (cap - n - 1)) (live_pending ts ?pe)"
      using 2 True d k by simp
    then have tn: "t \<notin> set ts'" using t by (metis in_set_dropD)
    have "live_pending ts' pe' = drop (length pe - (cap - n - 1)) (live_pending (t # ts) pe)"
    proof (cases "hm_get pe t")
      case None
      then have "length ?pe = length pe"
        using hm_length_remove [OF "2.prems"(1), of t] unfolding hm_get_None_iff by simp
      then show ?thesis using IH None t by (simp add: live_pending_remove)
    next
      case (Some e)
      then have "t \<in> hm_keys pe" by (rule hm_get_Some_key)
      then have l: "length ?pe = length pe - 1" "0 < length pe"
        using hm_length_remove [OF "2.prems"(1), of t] by (auto simp: length_greater_0_conv)
      with True have "length pe - (cap - n - 1) = Suc (length ?pe - (cap - n - 1))" by arith
      then show ?thesis using IH Some t by (simp add: live_pending_remove)
    qed
    moreover have "\<exists>k. ts' = drop k (t # ts)" using IH by (metis drop_Suc_Cons)
    ultimately show ?thesis using IH tn by auto
  qed
qed

lemma pop_pending_live:
  assumes "distinct ts" and "hm_keys pe \<subseteq> set ts" and "hm_ok pe"
  shows "case live_pending ts pe of
      [] \<Rightarrow> pop_pending ts pe = (None, [], pe) \<and> pe = []
    | e # es \<Rightarrow> \<exists>t ts' k. pop_pending ts pe = (Some e, ts', hm_remove t pe) \<and>
        hm_get pe t = Some e \<and> t # ts' = drop k ts \<and> live_pending ts' (hm_remove t pe) = es \<and>
        hm_keys (hm_remove t pe) \<subseteq> set ts'"
  using assms
proof (induction ts)
  case (Cons t ts)
  show ?case
  proof (cases "hm_get pe t")
    case None
    then have "hm_keys pe \<subseteq> set ts" using Cons.prems(2) unfolding hm_get_None_iff by auto
    with Cons None have IH: "case live_pending ts pe of
      [] \<Rightarrow> pop_pending ts pe = (None, [], pe) \<and> pe = []
    | e # es \<Rightarrow> \<exists>t ts' k. pop_pending ts pe = (Some e, ts', hm_remove t pe) \<and>
        hm_get pe t = Some e \<and> t # ts' = drop k ts \<and> live_pending ts' (hm_remove t pe) = es \<and>
        hm_keys (hm_remove t pe) \<subseteq> set ts'" by simp
    show ?thesis
    proof (cases "live_pending ts pe")
      case Nil
      then show ?thesis using IH None by auto
    next
      case (Cons e es)
      then show ?thesis using IH None by simp (metis drop_Suc_Cons)
    qed
  next
    case (Some e)
    have "live_pending ts (hm_remove t pe) = live_pending ts pe"
      using Cons.prems(1) by (simp add: live_pending_remove)
    moreover have "hm_keys (hm_remove t pe) \<subseteq> set ts"
      using Cons.prems(2) unfolding hm_keys_remove by auto
    ultimately show ?thesis using Some by simp (metis drop0)
  qed
qed simp

section \<open>Operations keep the invariant\<close>

lemma set_insort_heap [simp]: "set (insort x h) = insert x (set h)" for x :: "'a :: linorder"
  by (rule set_insort_key)

lemma push_expiration_set:
  "set h \<subseteq> set (push_expiration e h)"
  "qe_ttl e = Some d \<Longrightarrow> ExpirationEntry (qe_created_at e + d) (qe_tag e) \<in> set (push_expiration e h)"
  "sorted h \<Longrightarrow> sorted (push_expiration e h)"
  by (auto simp: push_expiration_def sorted_insort split: option.splits)

lemma entries_ok_mono: "entries_ok m h \<Longrightarrow> set h \<subseteq> set h' \<Longrightarrow> entries_ok m h'"
  unfolding entries_ok_def by blast

lemma entries_ok_sub:
  "entries_ok m h \<Longrightarrow> hm_ok m' \<Longrightarrow> (\<And>t e. hm_get m' t = Some e \<Longrightarrow> hm_get m t = Some e) \<Longrightarrow>
     entries_ok m' h"
  unfolding entries_ok_def by blast

lemma queue_new_inv [simp]: "queue_inv (queue_new dq cap)" "poll_inv (queue_new dq cap)"
  by (simp_all add: queue_new_def queue_inv_def poll_inv_def entries_ok_def)

lemma enqueue_inv:
  assumes inv: "queue_inv q" and fresh: "next_tag q \<notin> set (pending q) \<union> hm_keys (inflight q)"
  shows "queue_inv (enqueue now payload mq wid ttl q)"
proof -
  obtain ts pe where ev: "evict (sq_capacity q) (length (inflight q)) (pending q) (pending_entries q)
      = (ts, pe)" by (cases "evict (sq_capacity q) (length (inflight q)) (pending q) (pending_entries q)")
  have q: "entries_ok (pending_entries q) (expiration_heap q)" "distinct (pending q)"
    "hm_keys (pending_entries q) \<subseteq> set (pending q)"
    using inv by (auto simp only: queue_inv_def)
  note spec = evict_live [OF entries_ok_hm [OF q(1)] q(2) q(3) ev]
  obtain k where ts: "ts = drop k (pending q)" using spec by blast
  then have sub: "set ts \<subseteq> set (pending q)" by (simp add: set_drop_subset)
  have pe: "entries_ok pe (expiration_heap q)"
    using q(1) spec by (intro entries_ok_sub [OF q(1)]) (auto split: if_splits)
  let ?e = "\<lparr>qe_tag = next_tag q, qe_payload = payload,
     qe_qos = effective_qos (sq_default_qos q) mq, qe_wal_id = wid, qe_created_at = now,
     qe_ttl = ttl, qe_delivery_attempts = 0, qe_next_delivery_at = now\<rparr>"
  let ?h = "push_expiration ?e (expiration_heap q)"
  note mono = push_expiration_set(1) [of "expiration_heap q" ?e]
  have "entries_ok (hm_insert (next_tag q) ?e pe) ?h"
    using entries_ok_mono [OF pe mono] push_expiration_set(2) [of ?e]
    by (intro entries_ok_insert) auto
  moreover have "entries_ok (inflight q) ?h"
    using inv mono by (auto simp only: queue_inv_def intro: entries_ok_mono)
  moreover have "distinct (ts @ [next_tag q])"
    using q(2) fresh sub ts by auto
  moreover have "hm_keys (hm_insert (next_tag q) ?e pe) \<subseteq> set (ts @ [next_tag q])"
    using spec unfolding hm_keys_insert by auto
  moreover have "set (ts @ [next_tag q]) \<inter> hm_keys (inflight q) = {}"
    using inv fresh sub unfolding queue_inv_def by auto
  moreover have "sorted ?h" "sorted (retry_heap q)"
    using inv by (auto simp: queue_inv_def push_expiration_set(3))
  ultimately show ?thesis
    unfolding queue_inv_def enqueue_def ev Let_def by simp
qed

lemma register_push_inv:
  assumes "queue_inv q" and "tag \<notin> set (pending q)"
  shows "queue_inv (register_push_inflight now tag payload wid ttl q)"
proof -
  let ?e = "\<lparr>qe_tag = tag, qe_payload = payload, qe_qos = AtLeastOnce, qe_wal_id = wid,
     qe_created_at = now, qe_ttl = ttl, qe_delivery_attempts = 1, qe_next_delivery_at = now\<rparr>"
  let ?h = "push_expiration ?e (expiration_heap q)"
  note mono = push_expiration_set(1) [of "expiration_heap q" ?e]
  have "entries_ok (hm_insert tag ?e (inflight q)) ?h"
    using assms(1) push_expiration_set(2) [of ?e]
    by (intro entries_ok_insert entries_ok_mono [OF _ mono]) (auto simp: queue_inv_def)
  moreover have "entries_ok (pending_entries q) ?h"
    using assms(1) mono by (auto simp only: queue_inv_def intro: entries_ok_mono)
  moreover have "set (pending q) \<inter> hm_keys (hm_insert tag ?e (inflight q)) = {}"
    using assms unfolding hm_keys_insert queue_inv_def by auto
  ultimately show ?thesis
    using assms(1) push_expiration_set(3) [of "expiration_heap q" ?e]
    unfolding queue_inv_def register_push_inflight_def Let_def by simp
qed

lemma ack_cancel_inv:
  assumes "queue_inv q"
  shows "queue_inv (cancel_push_inflight tag q)" "queue_inv (snd (queue_ack tag q))"
  using assms core_inv_remove unfolding queue_inv_core
  by (auto simp: cancel_push_inflight_def queue_ack_def)

lemma dequeue_inv:
  assumes "queue_inv q"
  shows "queue_inv (snd (dequeue now base q))"
proof -
  have q: "entries_ok (pending_entries q) (expiration_heap q)" "distinct (pending q)"
    "hm_keys (pending_entries q) \<subseteq> set (pending q)" "hm_ok (pending_entries q)"
    "entries_ok (inflight q) (expiration_heap q)"
    "set (pending q) \<inter> hm_keys (inflight q) = {}"
    "sorted (expiration_heap q)" "sorted (retry_heap q)"
    using assms by (auto simp only: queue_inv_def entries_ok_def)
  note pop = pop_pending_live [OF q(2-4)]
  show ?thesis
  proof (cases "live_pending (pending q) (pending_entries q)")
    case Nil
    with pop q show ?thesis by (auto simp: dequeue_def queue_inv_def)
  next
    case (Cons e es)
    with pop obtain t ts k where p: "pop_pending (pending q) (pending_entries q) =
        (Some e, ts, hm_remove t (pending_entries q))" and g: "hm_get (pending_entries q) t = Some e"
      and ts: "t # ts = drop k (pending q)"
      and ks: "hm_keys (hm_remove t (pending_entries q)) \<subseteq> set ts" by auto
    have d: "distinct (t # ts)" and sub: "set (t # ts) \<subseteq> set (pending q)"
      unfolding ts using q(2) by (simp_all add: set_drop_subset)
    have tag: "qe_tag e = t" using entries_ok_tag [OF q(1) g] .
    let ?e = "e\<lparr>qe_delivery_attempts := saturating_add_u32 (qe_delivery_attempts e) 1,
      qe_next_delivery_at := now + backoff base (saturating_add_u32 (qe_delivery_attempts e) 1)\<rparr>"
    have "entries_ok (hm_insert t ?e (inflight q)) (expiration_heap q)"
      using q(1) g tag by (intro entries_ok_insert [OF q(5)])
        (auto simp: entries_ok_def simp del: map_of_eq_Some_iff)
    moreover have "set ts \<inter> hm_keys (hm_insert t ?e (inflight q)) = {}"
      using d sub q(6) unfolding hm_keys_insert by auto
    moreover have "set ts \<inter> hm_keys (inflight q) = {}" using sub q(6) by auto
    ultimately show ?thesis
      using d ks q entries_ok_remove [OF q(1), of t]
      by (cases "qe_qos e") (simp_all add: dequeue_def p Let_def queue_inv_def tag sorted_insort)
  qed
qed

lemma queue_maintenance_inv:
  assumes "queue_inv q"
  shows "queue_inv (snd (queue_maintenance_tick now mr q))"
proof -
  obtain xh pe infl dr where x: "expire_loop now (expiration_heap q) (pending_entries q) (inflight q) []
      = (xh, pe, infl, dr)" by (metis prod_cases4)
  obtain rh pend pe' infl' dr' where r: "retry_loop now mr (retry_heap q) (pending q) pe infl dr
      = (rh, pend, pe', infl', dr')" by (metis prod_cases5)
  have disj: "hm_keys (pending_entries q) \<inter> hm_keys (inflight q) = {}"
    using assms unfolding queue_inv_def by blast
  have xl: "entries_ok pe xh \<and> entries_ok infl xh \<and> sorted xh"
    using expire_loop_live [OF _ _ disj _ x] assms unfolding queue_inv_def by blast
  have "core_inv pe infl (pending q) xh"
    using assms xl expire_loop_subset [OF x] unfolding core_inv_def queue_inv_def by blast
  then show ?thesis
    using retry_loop_core [OF _ _ r] assms xl
    by (simp add: queue_inv_core queue_maintenance_tick_def x r)
qed

section \<open>The invariant of polled queues\<close>

lemma poll_inv_alt:
  "poll_inv q \<longleftrightarrow> queue_inv q \<and> (\<forall>t \<in> set (pending q) \<union> hm_keys (inflight q). t < next_tag q) \<and>
     retry_covered (inflight q) (retry_heap q) \<and>
     (\<forall>t e. hm_get (inflight q) t = Some e \<longrightarrow> qe_qos e = AtLeastOnce)"
  unfolding poll_inv_def retry_covered_def by blast

lemma poll_fresh: "poll_inv q \<Longrightarrow> next_tag q \<notin> set (pending q) \<union> hm_keys (inflight q)"
  unfolding poll_inv_alt by blast

lemma evict_subset: "evict cap n ts pe = (ts', pe') \<Longrightarrow> set ts' \<subseteq> set ts"
  by (induction cap n ts pe rule: evict.induct) (auto split: if_splits)

lemma enqueue_fields:
  "inflight (enqueue now p mq w ttl q) = inflight q"
  "retry_heap (enqueue now p mq w ttl q) = retry_heap q"
  "next_tag (enqueue now p mq w ttl q) = next_tag q + 1"
  "sq_capacity (enqueue now p mq w ttl q) = sq_capacity q"
  "sq_default_qos (enqueue now p mq w ttl q) = sq_default_qos q"
  "set (pending (enqueue now p mq w ttl q)) \<subseteq> insert (next_tag q) (set (pending q))"
  by (auto simp: enqueue_def Let_def dest: evict_subset [THEN subsetD] split: prod.splits)

lemma enqueue_poll_inv:
  assumes "poll_inv q" and "next_tag q \<noteq> - 1"
  shows "poll_inv (enqueue now p mq w ttl q)"
proof -
  have "\<forall>t \<in> set (pending (enqueue now p mq w ttl q)) \<union> hm_keys (inflight q). t < next_tag q + 1"
    using assms enqueue_fields(6) [of now p mq w ttl q] less_succ_word [OF assms(2)]
    unfolding poll_inv_alt by blast
  then show ?thesis
    using assms enqueue_inv [OF _ poll_fresh [OF assms(1)]] unfolding poll_inv_alt
    by (simp add: enqueue_fields del: map_of_eq_Some_iff)
qed

lemma ack_poll_inv:
  assumes "poll_inv q"
  shows "poll_inv (snd (queue_ack tag q))"
proof -
  let ?q = "snd (queue_ack tag q)"
  have "\<forall>t \<in> set (pending ?q) \<union> hm_keys (inflight ?q). t < next_tag ?q"
    using assms unfolding poll_inv_alt queue_ack_def by auto
  then show ?thesis
    using assms ack_cancel_inv(2) unfolding poll_inv_alt
    by (simp add: queue_ack_def retry_covered_def del: map_of_eq_Some_iff)
qed

lemma pop_pending_subset:
  "pop_pending ts pe = (eo, ts', pe') \<Longrightarrow> set ts' \<subseteq> set ts \<and>
     (\<forall>e. eo = Some e \<longrightarrow> (\<exists>t \<in> set ts. hm_get pe t = Some e))"
  by (induction ts pe rule: pop_pending.induct) (auto split: option.splits)

lemma dequeue_poll_inv:
  assumes "poll_inv q"
  shows "poll_inv (snd (dequeue now base q))"
proof -
  have inv: "queue_inv (snd (dequeue now base q))"
    using assms dequeue_inv unfolding poll_inv_def by blast
  obtain eo ts pe where p: "pop_pending (pending q) (pending_entries q) = (eo, ts, pe)"
    by (metis prod_cases3)
  note sub = pop_pending_subset [OF p]
  have below: "t < next_tag q" if "t \<in> set (pending q) \<or> t \<in> hm_keys (inflight q)" for t
    using assms that unfolding poll_inv_alt by blast
  have rc: "retry_covered (inflight q) (retry_heap q)"
    and q1: "\<And>t e. hm_get (inflight q) t = Some e \<Longrightarrow> qe_qos e = AtLeastOnce"
    using assms unfolding poll_inv_alt by blast+
  show ?thesis
  proof (cases "eo = None \<or> qe_qos (the eo) = AtMostOnce")
    case True
    then have "inflight (snd (dequeue now base q)) = inflight q"
      "retry_heap (snd (dequeue now base q)) = retry_heap q"
      "next_tag (snd (dequeue now base q)) = next_tag q" "pending (snd (dequeue now base q)) = ts"
      by (auto simp: dequeue_def p split: option.splits)
    then show ?thesis
      using inv rc q1 below sub unfolding poll_inv_alt by (simp del: map_of_eq_Some_iff) blast
  next
    case False
    then obtain e where e: "eo = Some e" "qe_qos e = AtLeastOnce"
      by (cases eo) (auto intro: qos.exhaust)
    then obtain t where t: "t \<in> set (pending q)" "hm_get (pending_entries q) t = Some e"
      using sub by blast
    then have tag: "qe_tag e = t"
      using assms unfolding poll_inv_def queue_inv_def by (blast dest: entries_ok_tag)
    let ?a = "saturating_add_u32 (qe_delivery_attempts e) 1"
    let ?e = "e\<lparr>qe_delivery_attempts := ?a, qe_next_delivery_at := now + backoff base ?a\<rparr>"
    have f: "inflight (snd (dequeue now base q)) = hm_insert t ?e (inflight q)"
      "retry_heap (snd (dequeue now base q)) = insort (RetryEntry (qe_next_delivery_at ?e) t) (retry_heap q)"
      "next_tag (snd (dequeue now base q)) = next_tag q" "pending (snd (dequeue now base q)) = ts"
      using e by (simp_all add: dequeue_def p Let_def tag)
    have "retry_covered (hm_insert t ?e (inflight q))
        (insort (RetryEntry (qe_next_delivery_at ?e) t) (retry_heap q))"
      using rc by (auto simp: retry_covered_def simp del: map_of_eq_Some_iff)
    moreover have "u < next_tag q" if "u \<in> set ts \<union> hm_keys (hm_insert t ?e (inflight q))" for u
      using that below sub t(1) unfolding hm_keys_insert by blast
    moreover have "qe_qos e' = AtLeastOnce" if "hm_get (hm_insert t ?e (inflight q)) u = Some e'" for u e'
      using that q1 e(2) unfolding hm_get_insert by (auto split: if_splits simp del: map_of_eq_Some_iff)
    ultimately show ?thesis
      using inv unfolding poll_inv_alt f by blast
  qed
qed

section \<open>Maintenance as a function of the entries\<close>

lemma retry_loop_pending:
  "entries_ok infl h \<Longrightarrow> retry_loop now mr rs pend pe infl dr = (rs', pend', pe', infl', dr') \<Longrightarrow>
     set pend' \<subseteq> set pend \<union> hm_keys infl \<and> hm_keys infl' \<subseteq> hm_keys infl"
proof (induction now mr rs pend pe infl dr rule: retry_loop.induct)
  case (2 now mr r rs pend pe infl dr)
  have tag: "qe_tag e = retry_tag r \<and> retry_tag r \<in> hm_keys infl"
    if "hm_get infl (retry_tag r) = Some e" for e
    using entries_ok_tag [OF "2.prems"(1) that] hm_get_Some_key [OF that] by simp
  note rem = entries_ok_remove [OF "2.prems"(1), of "retry_tag r"]
  show ?case
  proof (cases "hm_get infl (retry_tag r)")
    case None
    with "2.prems" "2.IH"(1) show ?thesis by (cases "retry_at r > now") auto
  next
    case (Some e)
    note t = tag [OF Some]
    consider (later) "retry_at r > now"
      | (stale) "\<not> retry_at r > now" "qe_next_delivery_at e \<noteq> retry_at r"
      | (give_up) "\<not> retry_at r > now" "qe_next_delivery_at e = retry_at r" "qe_delivery_attempts e \<ge> mr"
      | (requeue) "\<not> retry_at r > now" "qe_next_delivery_at e = retry_at r" "\<not> qe_delivery_attempts e \<ge> mr"
      by blast
    then show ?thesis
    proof cases
      case later
      with "2.prems"(2) show ?thesis by auto
    next
      case stale
      with "2.prems" "2.IH"(2) [OF stale(1) Some stale(2)] Some show ?thesis by simp
    next
      case give_up
      with "2.prems"(2) "2.IH"(3) [OF give_up(1) Some _ give_up(3) rem] Some
      have "set pend' \<subseteq> set pend \<union> hm_keys (hm_remove (retry_tag r) infl) \<and>
          hm_keys infl' \<subseteq> hm_keys (hm_remove (retry_tag r) infl)" by simp
      then show ?thesis unfolding hm_keys_remove by blast
    next
      case requeue
      with "2.prems"(2) "2.IH"(4) [OF requeue(1) Some _ requeue(3) refl rem] Some
      have "set pend' \<subseteq> set (pend @ [qe_tag e]) \<union> hm_keys (hm_remove (retry_tag r) infl) \<and>
          hm_keys infl' \<subseteq> hm_keys (hm_remove (retry_tag r) infl)" by simp
      then show ?thesis using t unfolding hm_keys_remove by auto
    qed
  qed
qed auto

lemma maintenance_loops:
  assumes "queue_inv q"
  obtains xh pe infl dr where
    "expire_loop now (expiration_heap q) (pending_entries q) (inflight q) [] = (xh, pe, infl, dr)"
    "core_inv pe infl (pending q) xh"
    "\<And>t. hm_get pe t = live now (hm_get (pending_entries q) t)"
    "\<And>t. hm_get infl t = live now (hm_get (inflight q) t)"
proof -
  obtain xh pe infl dr where x: "expire_loop now (expiration_heap q) (pending_entries q) (inflight q) []
      = (xh, pe, infl, dr)" by (metis prod_cases4)
  have disj: "hm_keys (pending_entries q) \<inter> hm_keys (inflight q) = {}"
    using assms unfolding queue_inv_def by blast
  have xl: "entries_ok pe xh \<and> entries_ok infl xh \<and> sorted xh \<and>
      (\<forall>t. hm_get pe t = live now (hm_get (pending_entries q) t)) \<and>
      (\<forall>t. hm_get infl t = live now (hm_get (inflight q) t))"
    using expire_loop_live [OF _ _ disj _ x] assms unfolding queue_inv_def by blast
  then have "entries_ok pe xh" "entries_ok infl xh" by auto
  then have "core_inv pe infl (pending q) xh"
    using assms expire_loop_subset [OF x] unfolding core_inv_def queue_inv_def by blast
  with x xl show ?thesis by (intro that) auto
qed

lemma live_Some: "live now eo = Some e \<longleftrightarrow> eo = Some e \<and> \<not> expired now e"
  by (cases eo) auto

lemma poll_invD:
  assumes "poll_inv q"
  shows "\<forall>t \<in> set (pending q) \<union> hm_keys (inflight q). t < next_tag q"
    and "retry_covered (inflight q) (retry_heap q)"
    and "hm_get (inflight q) t = Some e \<Longrightarrow> qe_qos e = AtLeastOnce"
  using assms unfolding poll_inv_alt by simp_all

lemma maintenance_spec:
  assumes "poll_inv q"
  shows "hm_get (inflight (snd (queue_maintenance_tick now mr q))) t =
      inflight_after now (live now (hm_get (inflight q) t))"
    and "hm_get (pending_entries (snd (queue_maintenance_tick now mr q))) t =
      pending_after now mr (live now (hm_get (inflight q) t)) (live now (hm_get (pending_entries q) t))"
    and "poll_inv (snd (queue_maintenance_tick now mr q))"
proof -
  have qi: "queue_inv q" using assms by (simp add: poll_inv_def)
  obtain xh pe infl dr where x: "expire_loop now (expiration_heap q) (pending_entries q) (inflight q) []
      = (xh, pe, infl, dr)" and core: "core_inv pe infl (pending q) xh"
    and g: "\<And>t. hm_get pe t = live now (hm_get (pending_entries q) t)"
    "\<And>t. hm_get infl t = live now (hm_get (inflight q) t)"
    using maintenance_loops [OF qi] by metis
  obtain rh pend pe' infl' dr' where r: "retry_loop now mr (retry_heap q) (pending q) pe infl dr
      = (rh, pend, pe', infl', dr')" by (metis prod_cases5)
  have cov: "retry_covered infl (retry_heap q)"
    using poll_invD(2) [OF assms] unfolding retry_covered_def g live_Some by meson
  have "sorted (retry_heap q)" using qi by (simp add: queue_inv_def)
  note due = retry_loop_due [OF core cov this r]
  have q': "snd (queue_maintenance_tick now mr q) = q\<lparr>pending := pend, pending_entries := pe',
      inflight := infl', expiration_heap := xh, retry_heap := rh\<rparr>"
    by (simp add: queue_maintenance_tick_def x r)
  have i': "hm_get infl' u = inflight_after now (live now (hm_get (inflight q) u))" for u
    using conjunct1 [OF conjunct2 [OF due]] unfolding g by (rule spec)
  have p': "hm_get pe' u = pending_after now mr (live now (hm_get (inflight q) u))
      (live now (hm_get (pending_entries q) u))" for u
    using conjunct2 [OF conjunct2 [OF due]] unfolding g by (rule spec)
  have rc: "retry_covered infl' rh" by (rule conjunct1 [OF due])
  show "hm_get (inflight (snd (queue_maintenance_tick now mr q))) t =
      inflight_after now (live now (hm_get (inflight q) t))"
    "hm_get (pending_entries (snd (queue_maintenance_tick now mr q))) t =
      pending_after now mr (live now (hm_get (inflight q) t)) (live now (hm_get (pending_entries q) t))"
    unfolding q' using i' p' by simp_all
  have "entries_ok infl xh" using core by (simp add: core_inv_def)
  note sub = retry_loop_pending [OF this r]
  have "hm_keys infl \<subseteq> hm_keys (inflight q)"
    using expire_loop_subset [OF x] by blast
  with sub have "set pend \<union> hm_keys infl' \<subseteq> set (pending q) \<union> hm_keys (inflight q)"
    by blast
  then have "\<forall>t \<in> set pend \<union> hm_keys infl'. t < next_tag q"
    using poll_invD(1) [OF assms] by (meson subsetD)
  moreover have "qe_qos e = AtLeastOnce" if "hm_get infl' u = Some e" for u e
  proof -
    have "hm_get (inflight q) u = Some e"
      using that unfolding i' inflight_after_def
      by (cases "live now (hm_get (inflight q) u)") (auto simp: live_Some split: if_splits)
    then show ?thesis by (rule poll_invD(3) [OF assms])
  qed
  moreover have "queue_inv (snd (queue_maintenance_tick now mr q))"
    using qi by (rule queue_maintenance_inv)
  ultimately show "poll_inv (snd (queue_maintenance_tick now mr q))"
    using rc unfolding poll_inv_alt q' by simp
qed

end
