(* ===== verification/Broker.thy ===== *)
theory Broker
  imports Pattern Shards WalCodec SubQueue
begin

text \<open>
  The state of \<open>Broker\<close> of \<open>core/src/lib.rs\<close> and its operations on subscriptions,
  publishing, polling, acknowledging and maintenance. Shared objects behind an
  \<open>Arc\<close> are addresses: a subscriber is an index into \<open>subscribers\<close>, a connection's
  push slot an index into \<open>slots\<close>, a legacy push channel an index into \<open>channels\<close>.
  A topic is addressed by its name, as topics are never removed. Each operation
  runs as one step: the locks and atomics are not modelled. AHash and the
  channel's \<open>try_send\<close> are the fields of \<open>env\<close>; the write-ahead log is a type
  parameter. The latency histogram, which nothing reads back but the metrics
  endpoint, is left out. All calls of \<open>Instant::now\<close> in one operation give the
  same instant, an argument, as is the shard ticket of the calling thread.
\<close>

section \<open>State\<close>

record push_slot =
  slot_buf :: bytes
  slot_permit :: bool

type_synonym delivery_encoder = "bytes \<Rightarrow> qos \<Rightarrow> u64 \<Rightarrow> rstring \<Rightarrow> bytes \<Rightarrow> bytes"

record subscriber =
  sub_client_id :: rstring
  sub_queue :: subscriber_queue
  sub_push_sender :: "nat option"
  sub_push_slot :: "(nat \<times> delivery_encoder) option"
  sub_push_next_tag :: u64

record consumer_group =
  cg_members :: "(u64 \<times> nat) list"
  cg_next_idx :: u64

record topic =
  topic_name :: rstring
  topic_subscribers :: "(u64, nat) hash_map"
  topic_groups :: "(rstring, consumer_group) hash_map"
  topic_published_total :: sharded_counter
  topic_delivered_total :: sharded_counter

record subscription_ref =
  sr_topic :: rstring
  sr_subscriber :: nat
  sr_group :: "rstring option"

text \<open>What the broker calls outside its crate.\<close>
record 'ch env =
  env_hash :: "rstring \<Rightarrow> u64"
  env_key_hash :: "bytes \<Rightarrow> u64"
  env_try_send :: "'ch \<Rightarrow> delivery_handle \<Rightarrow> 'ch option"

record ('ch, 'w) broker =
  config :: broker_config
  topics :: "(rstring, topic) hash_map list"
  subscriptions :: "subscription_ref subscription_shards"
  connection_subs :: "(u64, u64 list) hash_map"
  next_subscription_id :: u64
  wal :: "'w option"
  shutting_down :: bool
  ready :: bool
  messages_published_total :: sharded_counter
  messages_delivered_total :: sharded_counter
  push_dropped_total :: u64
  max_wal_id_observed :: u64
  ack_cursors :: cursor_map
  publish_count :: sharded_counter
  wildcard_subs :: "(subject_pattern \<times> u64) list"
  wildcard_subs_len :: u64
  drain_notified :: nat
  spawned_appends :: "bytes list"
  subscribers :: "subscriber list"
  slots :: "push_slot list"
  channels :: "'ch list"

definition topic_new :: "rstring \<Rightarrow> topic" where
  "topic_new name =
     \<lparr>topic_name = name, topic_subscribers = [], topic_groups = [],
      topic_published_total = counter_new, topic_delivered_total = counter_new\<rparr>"

definition consumer_group_new :: consumer_group where
  "consumer_group_new = \<lparr>cg_members = [], cg_next_idx = 0\<rparr>"

definition push_slot_new :: push_slot where
  "push_slot_new = \<lparr>slot_buf = [], slot_permit = False\<rparr>"

text \<open>A new broker over the push slots and channels of its environment.\<close>
definition broker_init ::
  "broker_config \<Rightarrow> 'w option \<Rightarrow> push_slot list \<Rightarrow> 'ch list \<Rightarrow> ('ch, 'w) broker" where
  "broker_init cfg w sl ch =
     \<lparr>config = cfg, topics = shards_new 16, subscriptions = subs_new 16, connection_subs = [],
      next_subscription_id = 1, wal = w, shutting_down = False, ready = False,
      messages_published_total = counter_new, messages_delivered_total = counter_new,
      push_dropped_total = 0, max_wal_id_observed = 0, ack_cursors = [],
      publish_count = counter_new, wildcard_subs = [], wildcard_subs_len = 0,
      drain_notified = 0, spawned_appends = [], subscribers = [], slots = sl, channels = ch\<rparr>"

definition broker_new :: "broker_config \<Rightarrow> push_slot list \<Rightarrow> 'ch list \<Rightarrow> ('ch, 'w) broker" where
  "broker_new cfg = broker_init cfg None"

definition broker_new_with_wal ::
  "broker_config \<Rightarrow> 'w \<Rightarrow> push_slot list \<Rightarrow> 'ch list \<Rightarrow> ('ch, 'w) broker" where
  "broker_new_with_wal cfg w = broker_init cfg (Some w)"

definition has_wal :: "('ch, 'w) broker \<Rightarrow> bool" where
  "has_wal b \<longleftrightarrow> wal b \<noteq> None"

definition begin_shutdown :: "('ch, 'w) broker \<Rightarrow> ('ch, 'w) broker" where
  "begin_shutdown b = b\<lparr>shutting_down := True\<rparr>"

definition mark_ready :: "('ch, 'w) broker \<Rightarrow> ('ch, 'w) broker" where
  "mark_ready b = b\<lparr>ready := True\<rparr>"

definition is_ready :: "('ch, 'w) broker \<Rightarrow> bool" where
  "is_ready b \<longleftrightarrow> ready b \<and> \<not> shutting_down b"

definition topic_count :: "('ch, 'w) broker \<Rightarrow> nat" where
  "topic_count b = topics_len (topics b)"

definition subscriber_count :: "('ch, 'w) broker \<Rightarrow> nat" where
  "subscriber_count b = subs_len (subscriptions b)"

abbreviation get_topic :: "'ch env \<Rightarrow> ('ch, 'w) broker \<Rightarrow> rstring \<Rightarrow> topic option" where
  "get_topic E b name \<equiv> topics_get (env_hash E) (topics b) name"

text \<open>A change made to a topic, or to a subscriber, through its shared pointer.\<close>
definition update_topic ::
  "'ch env \<Rightarrow> rstring \<Rightarrow> (topic \<Rightarrow> topic) \<Rightarrow> ('ch, 'w) broker \<Rightarrow> ('ch, 'w) broker" where
  "update_topic E name f b =
     (case get_topic E b name of
        Some t \<Rightarrow> b\<lparr>topics := topics_put (env_hash E) name (f t) (topics b)\<rparr>
      | None \<Rightarrow> b)"

definition update_subscriber ::
  "nat \<Rightarrow> (subscriber \<Rightarrow> subscriber) \<Rightarrow> ('ch, 'w) broker \<Rightarrow> ('ch, 'w) broker" where
  "update_subscriber a f b = b\<lparr>subscribers := (subscribers b)[a := f (subscribers b ! a)]\<rparr>"

section \<open>Subscribing\<close>

text \<open>The entry in the topic: a broadcast subscriber, or a member of a consumer group.\<close>
definition attach_to_topic :: "u64 \<Rightarrow> nat \<Rightarrow> rstring option \<Rightarrow> topic \<Rightarrow> topic" where
  "attach_to_topic sub_id a grp t =
     (case grp of
        None \<Rightarrow> t\<lparr>topic_subscribers := hm_insert sub_id a (topic_subscribers t)\<rparr>
      | Some g \<Rightarrow>
          (let cg = (case hm_get (topic_groups t) g of Some cg \<Rightarrow> cg | None \<Rightarrow> consumer_group_new)
           in t\<lparr>topic_groups :=
                hm_insert g (cg\<lparr>cg_members := cg_members cg @ [(sub_id, a)]\<rparr>) (topic_groups t)\<rparr>))"

definition subscribe_inner_grouped ::
  "'ch env \<Rightarrow> rstring \<Rightarrow> rstring \<Rightarrow> qos \<Rightarrow> u64 option \<Rightarrow> nat option \<Rightarrow>
   (nat \<times> delivery_encoder) option \<Rightarrow> rstring option \<Rightarrow> ('ch, 'w) broker \<Rightarrow> u64 \<times> ('ch, 'w) broker" where
  "subscribe_inner_grouped E client_id topic qos conn_id sender slot grp b =
     (let queue = queue_new qos (cfg_queue_capacity (config b));
          subscriber = \<lparr>sub_client_id = client_id, sub_queue = queue, sub_push_sender = sender,
                        sub_push_slot = slot, sub_push_next_tag = 1\<rparr>;
          a = length (subscribers b);
          (_, ts) = topics_get_or_insert (env_hash E) topic_new topic (topics b);
          sub_id = next_subscription_id b;
          b = b\<lparr>subscribers := subscribers b @ [subscriber], topics := ts,
                next_subscription_id := sub_id + 1\<rparr>;
          b = update_topic E topic (attach_to_topic sub_id a grp) b;
          b = b\<lparr>subscriptions := subs_insert sub_id
                  \<lparr>sr_topic = topic, sr_subscriber = a, sr_group = grp\<rparr> (subscriptions b)\<rparr>;
          b = (case conn_id of
                 Some c \<Rightarrow> b\<lparr>connection_subs := hm_insert c
                   ((case hm_get (connection_subs b) c of Some ss \<Rightarrow> ss | None \<Rightarrow> []) @ [sub_id])
                   (connection_subs b)\<rparr>
               | None \<Rightarrow> b)
      in (sub_id, b))"

definition subscribe_inner ::
  "'ch env \<Rightarrow> rstring \<Rightarrow> rstring \<Rightarrow> qos \<Rightarrow> u64 option \<Rightarrow> nat option \<Rightarrow>
   (nat \<times> delivery_encoder) option \<Rightarrow> ('ch, 'w) broker \<Rightarrow> u64 \<times> ('ch, 'w) broker" where
  "subscribe_inner E client_id topic qos conn_id sender slot =
     subscribe_inner_grouped E client_id topic qos conn_id sender slot None"

definition subscribe ::
  "'ch env \<Rightarrow> rstring \<Rightarrow> rstring \<Rightarrow> qos \<Rightarrow> ('ch, 'w) broker \<Rightarrow> u64 \<times> ('ch, 'w) broker" where
  "subscribe E client_id topic qos = subscribe_inner E client_id topic qos None None None"

definition subscribe_with_conn ::
  "'ch env \<Rightarrow> rstring \<Rightarrow> rstring \<Rightarrow> qos \<Rightarrow> u64 \<Rightarrow> nat \<Rightarrow> ('ch, 'w) broker \<Rightarrow> u64 \<times> ('ch, 'w) broker" where
  "subscribe_with_conn E client_id topic qos conn_id sender =
     subscribe_inner E client_id topic qos (Some conn_id) (Some sender) None"

definition subscribe_with_slot ::
  "'ch env \<Rightarrow> rstring \<Rightarrow> rstring \<Rightarrow> qos \<Rightarrow> u64 \<Rightarrow> nat \<Rightarrow> delivery_encoder \<Rightarrow> ('ch, 'w) broker \<Rightarrow>
   u64 \<times> ('ch, 'w) broker" where
  "subscribe_with_slot E client_id topic qos conn_id slot encoder =
     subscribe_inner E client_id topic qos (Some conn_id) None (Some (slot, encoder))"

definition subscribe_with_slot_in_group ::
  "'ch env \<Rightarrow> rstring \<Rightarrow> rstring \<Rightarrow> qos \<Rightarrow> u64 \<Rightarrow> nat \<Rightarrow> delivery_encoder \<Rightarrow> rstring \<Rightarrow>
   ('ch, 'w) broker \<Rightarrow> u64 \<times> ('ch, 'w) broker" where
  "subscribe_with_slot_in_group E client_id topic qos conn_id slot encoder grp =
     subscribe_inner_grouped E client_id topic qos (Some conn_id) None (Some (slot, encoder)) (Some grp)"

definition subscribe_in_group ::
  "'ch env \<Rightarrow> rstring \<Rightarrow> rstring \<Rightarrow> qos \<Rightarrow> rstring \<Rightarrow> ('ch, 'w) broker \<Rightarrow> u64 \<times> ('ch, 'w) broker" where
  "subscribe_in_group E client_id topic qos grp =
     subscribe_inner_grouped E client_id topic qos None None None (Some grp)"

fun literal_parts :: "pattern_segment list \<Rightarrow> rstring list" where
  "literal_parts [] = []"
| "literal_parts (Literal s # segs) = s # literal_parts segs"
| "literal_parts (Wildcard # segs) = literal_parts segs"

definition exact_subject_from_pattern :: "subject_pattern \<Rightarrow> rstring" where
  "exact_subject_from_pattern p = join_byte dot (literal_parts (pat_segments p))"

text \<open>The registration of a wildcard pattern, common to both pattern subscribes.\<close>
definition add_wildcard :: "subject_pattern \<Rightarrow> u64 \<Rightarrow> ('ch, 'w) broker \<Rightarrow> ('ch, 'w) broker" where
  "add_wildcard pattern sub_id b =
     (let wcs = wildcard_subs b @ [(pattern, sub_id)]
      in b\<lparr>wildcard_subs := wcs, wildcard_subs_len := of_nat (length wcs)\<rparr>)"

definition subscribe_pattern ::
  "'ch env \<Rightarrow> rstring \<Rightarrow> subject_pattern \<Rightarrow> qos \<Rightarrow> ('ch, 'w) broker \<Rightarrow> u64 \<times> ('ch, 'w) broker" where
  "subscribe_pattern E client_id pattern qos b =
     (if is_exact pattern then subscribe E client_id (exact_subject_from_pattern pattern) qos b
      else let (sub_id, b) = subscribe_inner E client_id (pat_as_str pattern) qos None None None b
        in (sub_id, add_wildcard pattern sub_id b))"

definition subscribe_pattern_with_slot ::
  "'ch env \<Rightarrow> rstring \<Rightarrow> subject_pattern \<Rightarrow> qos \<Rightarrow> u64 \<Rightarrow> nat \<Rightarrow> delivery_encoder \<Rightarrow>
   ('ch, 'w) broker \<Rightarrow> u64 \<times> ('ch, 'w) broker" where
  "subscribe_pattern_with_slot E client_id pattern qos conn_id slot encoder b =
     (if is_exact pattern
      then subscribe_with_slot E client_id (exact_subject_from_pattern pattern) qos conn_id slot encoder b
      else let (sub_id, b) = subscribe_inner E client_id (pat_as_str pattern) qos (Some conn_id) None
             (Some (slot, encoder)) b
        in (sub_id, add_wildcard pattern sub_id b))"

section \<open>Unsubscribing\<close>

definition detach_from_topic :: "u64 \<Rightarrow> rstring option \<Rightarrow> topic \<Rightarrow> topic" where
  "detach_from_topic sid grp t =
     (case grp of
        None \<Rightarrow> t\<lparr>topic_subscribers := hm_remove sid (topic_subscribers t)\<rparr>
      | Some g \<Rightarrow>
          (case hm_get (topic_groups t) g of
             Some cg \<Rightarrow> t\<lparr>topic_groups := hm_insert g
               (cg\<lparr>cg_members := filter (\<lambda>(s, _). s \<noteq> sid) (cg_members cg)\<rparr>) (topic_groups t)\<rparr>
           | None \<Rightarrow> t))"

fun take_subscriptions ::
  "u64 list \<Rightarrow> subscription_ref subscription_shards \<Rightarrow>
   (u64 \<times> subscription_ref) list \<times> subscription_ref subscription_shards" where
  "take_subscriptions [] ss = ([], ss)"
| "take_subscriptions (sid # sids) ss =
     (case subs_get ss sid of
        Some r \<Rightarrow> (case take_subscriptions sids (subs_remove sid ss) of (rs, ss') \<Rightarrow> ((sid, r) # rs, ss'))
      | None \<Rightarrow> take_subscriptions sids (subs_remove sid ss))"

definition unsubscribe_connection :: "'ch env \<Rightarrow> u64 \<Rightarrow> ('ch, 'w) broker \<Rightarrow> ('ch, 'w) broker" where
  "unsubscribe_connection E conn_id b =
     (let sub_ids = (case hm_get (connection_subs b) conn_id of Some ss \<Rightarrow> ss | None \<Rightarrow> []);
          b = b\<lparr>connection_subs := hm_remove conn_id (connection_subs b)\<rparr>
      in if sub_ids = [] then b
         else let (removed, ss) = take_subscriptions sub_ids (subscriptions b);
                  b = b\<lparr>subscriptions := ss\<rparr>;
                  b = fold (\<lambda>(sid, r). update_topic E (sr_topic r) (detach_from_topic sid (sr_group r)))
                        removed b
              in if removed = [] then b
                 else let wcs = filter (\<lambda>(_, sid). sid \<notin> fst ` set removed) (wildcard_subs b)
                      in b\<lparr>wildcard_subs := wcs, wildcard_subs_len := of_nat (length wcs)\<rparr>)"

definition unsubscribe_one :: "'ch env \<Rightarrow> u64 \<Rightarrow> ('ch, 'w) broker \<Rightarrow> bool \<times> ('ch, 'w) broker" where
  "unsubscribe_one E sub_id b =
     (case subs_get (subscriptions b) sub_id of
        None \<Rightarrow> (False, b\<lparr>subscriptions := subs_remove sub_id (subscriptions b)\<rparr>)
      | Some r \<Rightarrow>
          (let b = b\<lparr>subscriptions := subs_remove sub_id (subscriptions b)\<rparr>;
               b = update_topic E (sr_topic r) (detach_from_topic sub_id (sr_group r)) b;
               conns = map (\<lambda>(c, subs). (c, filter (\<lambda>s. s \<noteq> sub_id) subs)) (connection_subs b);
               b = b\<lparr>connection_subs := filter (\<lambda>(_, subs). subs \<noteq> []) conns\<rparr>;
               wcs = filter (\<lambda>(_, sid). sid \<noteq> sub_id) (wildcard_subs b)
           in (True, b\<lparr>wildcard_subs := wcs, wildcard_subs_len := of_nat (length wcs)\<rparr>)))"

end
