(* ===== verification/Publish.thy ===== *)
theory Publish
  imports Broker
begin

text \<open>
  The publish path of \<open>Broker\<close> (\<open>publish_inner\<close> and its callers): the choice of
  receivers, delivery by shared buffer, by channel or by queue, the slow-consumer
  policy and the counters; and the operations that consume what was published:
  \<open>poll\<close>, \<open>ack\<close>, \<open>maintenance_tick\<close> with its dead-letter topics, and the read-only
  views for metrics and checkpoints.
\<close>

section \<open>Receivers of a publish\<close>

text \<open>One member of a consumer group: by partition key, else round-robin.\<close>
definition pick_member ::
  "'ch env \<Rightarrow> bytes option \<Rightarrow> consumer_group \<Rightarrow> (u64 \<times> nat) option \<times> consumer_group" where
  "pick_member E partition_key cg =
     (let members = cg_members cg in
      if members = [] then (None, cg)
      else case partition_key of
        Some key \<Rightarrow>
          (if key \<noteq> [] then (Some (members ! (unat (env_key_hash E key) mod length members)), cg)
           else (Some (members ! (unat (cg_next_idx cg) mod length members)),
                 cg\<lparr>cg_next_idx := cg_next_idx cg + 1\<rparr>))
      | None \<Rightarrow> (Some (members ! (unat (cg_next_idx cg) mod length members)),
                 cg\<lparr>cg_next_idx := cg_next_idx cg + 1\<rparr>))"

fun pick_members ::
  "'ch env \<Rightarrow> bytes option \<Rightarrow> (rstring, consumer_group) hash_map \<Rightarrow>
   (u64 \<times> nat) list \<times> (rstring, consumer_group) hash_map" where
  "pick_members E key [] = ([], [])"
| "pick_members E key ((g, cg) # groups) =
     (case (pick_member E key cg, pick_members E key groups) of
        ((Some m, cg'), (ms, groups')) \<Rightarrow> (m # ms, (g, cg') # groups')
      | ((None, cg'), (ms, groups')) \<Rightarrow> (ms, (g, cg') # groups'))"

text \<open>The broadcast subscribers and group members of the topic, and the topic after the pick.\<close>
definition topic_receivers ::
  "'ch env \<Rightarrow> u64 \<Rightarrow> bytes option \<Rightarrow> topic \<Rightarrow> (u64 \<times> nat) list \<times> topic" where
  "topic_receivers E ticket key t =
     (let (ms, groups) = pick_members E key (topic_groups t)
      in (topic_subscribers t @ ms,
          t\<lparr>topic_published_total := snd (counter_add ticket 1 (topic_published_total t)),
            topic_groups := groups\<rparr>))"

text \<open>The subscriptions whose wildcard pattern matches the topic.\<close>
fun wildcard_receivers ::
  "('ch, 'w) broker \<Rightarrow> rstring \<Rightarrow> (subject_pattern \<times> u64) list \<Rightarrow> (u64 \<times> nat) list" where
  "wildcard_receivers b name [] = []"
| "wildcard_receivers b name ((pattern, sid) # wcs) =
     (if matches pattern name = Ok True then
        (case subs_get (subscriptions b) sid of
           Some r \<Rightarrow> (sid, sr_subscriber r) # wildcard_receivers b name wcs
         | None \<Rightarrow> wildcard_receivers b name wcs)
      else wildcard_receivers b name wcs)"

text \<open>The snapshot of a publish and the broker after taking it; \<open>topic_opt\<close> is the topic's handle.\<close>
definition snapshot ::
  "'ch env \<Rightarrow> u64 \<Rightarrow> rstring \<Rightarrow> rstring option \<Rightarrow> bytes option \<Rightarrow> ('ch, 'w) broker \<Rightarrow>
   (u64 \<times> nat) list \<times> ('ch, 'w) broker" where
  "snapshot E ticket name topic_opt key b =
     (let (rs, b) = (case Option.bind topic_opt (get_topic E b) of
            Some t \<Rightarrow> (case topic_receivers E ticket key t of
              (rs, t') \<Rightarrow> (rs, b\<lparr>topics := topics_put (env_hash E) (the topic_opt) t' (topics b)\<rparr>))
          | None \<Rightarrow> ([], b))
      in (rs @ (if wildcard_subs_len b > 0 then wildcard_receivers b name (wildcard_subs b) else []), b))"

section \<open>Delivery to one receiver\<close>

text \<open>\<open>push_next_tag.fetch_add(1)\<close>.\<close>
definition next_push_tag :: "nat \<Rightarrow> ('ch, 'w) broker \<Rightarrow> u64 \<times> ('ch, 'w) broker" where
  "next_push_tag a b =
     (let tag = sub_push_next_tag (subscribers b ! a)
      in (tag, update_subscriber a (\<lambda>s. s\<lparr>sub_push_next_tag := tag + 1\<rparr>) b))"

definition register_inflight ::
  "instant \<Rightarrow> nat \<Rightarrow> u64 \<Rightarrow> bytes \<Rightarrow> u64 option \<Rightarrow> duration option \<Rightarrow> ('ch, 'w) broker \<Rightarrow> ('ch, 'w) broker" where
  "register_inflight now a tag payload wal_id ttl =
     update_subscriber a (\<lambda>s. s\<lparr>sub_queue := register_push_inflight now tag payload wal_id ttl (sub_queue s)\<rparr>)"

definition cancel_inflight :: "nat \<Rightarrow> u64 \<Rightarrow> ('ch, 'w) broker \<Rightarrow> ('ch, 'w) broker" where
  "cancel_inflight a tag = update_subscriber a (\<lambda>s. s\<lparr>sub_queue := cancel_push_inflight tag (sub_queue s)\<rparr>)"

definition wire_tag :: "qos \<Rightarrow> u64 \<Rightarrow> u64" where
  "wire_tag qos tag = (if qos = AtLeastOnce then tag else 0)"

text \<open>The encoder's write into the slot's buffer, followed by \<open>notify_one\<close>.\<close>
definition write_slot ::
  "nat \<Rightarrow> delivery_encoder \<Rightarrow> qos \<Rightarrow> u64 \<Rightarrow> rstring \<Rightarrow> bytes \<Rightarrow> ('ch, 'w) broker \<Rightarrow> ('ch, 'w) broker" where
  "write_slot slot encoder qos tag name payload b =
     (let sl = slots b ! slot
      in b\<lparr>slots := (slots b)[slot := sl\<lparr>slot_buf := encoder (slot_buf sl) qos tag name payload,
                                        slot_permit := True\<rparr>]\<rparr>)"

datatype delivery = Delivered | DroppedSlow

definition deliver_slot ::
  "instant \<Rightarrow> rstring \<Rightarrow> bytes \<Rightarrow> qos \<Rightarrow> u64 option \<Rightarrow> duration option \<Rightarrow> nat \<Rightarrow> nat \<Rightarrow> delivery_encoder \<Rightarrow>
   ('ch, 'w) broker \<Rightarrow> delivery \<times> ('ch, 'w) broker" where
  "deliver_slot now name payload qos wal_id ttl a slot encoder b =
     (let (tag, b) = next_push_tag a b;
          b = (if qos = AtLeastOnce then register_inflight now a tag payload wal_id ttl b else b)
      in if length (slot_buf (slots b ! slot)) \<ge> cfg_slow_consumer_buffer_bytes (config b)
         then (let b = b\<lparr>push_dropped_total := push_dropped_total b + 1\<rparr>
               in (DroppedSlow, if qos = AtLeastOnce then cancel_inflight a tag b else b))
         else (Delivered, write_slot slot encoder qos (wire_tag qos tag) name payload b))"

definition deliver_channel ::
  "'ch env \<Rightarrow> instant \<Rightarrow> rstring \<Rightarrow> bytes \<Rightarrow> qos \<Rightarrow> u64 option \<Rightarrow> duration option \<Rightarrow> u64 \<Rightarrow> nat \<Rightarrow> nat \<Rightarrow>
   ('ch, 'w) broker \<Rightarrow> delivery \<times> ('ch, 'w) broker" where
  "deliver_channel E now name payload qos wal_id ttl sub_id a ch b =
     (let (tag, b) = next_push_tag a b;
          b = (if qos = AtLeastOnce then register_inflight now a tag payload wal_id ttl b else b);
          handle = \<lparr>dh_subscription_id = sub_id, dh_topic = name, dh_payload = payload, dh_qos = qos,
                    dh_delivery_tag = wire_tag qos tag\<rparr>
      in case env_try_send E (channels b ! ch) handle of
           None \<Rightarrow> (let b = b\<lparr>push_dropped_total := push_dropped_total b + 1\<rparr>
             in (DroppedSlow, if qos = AtLeastOnce then cancel_inflight a tag b else b))
         | Some c \<Rightarrow> (Delivered, b\<lparr>channels := (channels b)[ch := c]\<rparr>))"

definition deliver_one ::
  "'ch env \<Rightarrow> instant \<Rightarrow> rstring \<Rightarrow> bytes \<Rightarrow> qos \<Rightarrow> u64 option \<Rightarrow> duration option \<Rightarrow> u64 \<Rightarrow> nat \<Rightarrow>
   ('ch, 'w) broker \<Rightarrow> delivery \<times> ('ch, 'w) broker" where
  "deliver_one E now name payload qos wal_id ttl sub_id a b =
     (let s = subscribers b ! a in
      case sub_push_slot s of
        Some (slot, encoder) \<Rightarrow> deliver_slot now name payload qos wal_id ttl a slot encoder b
      | None \<Rightarrow>
          (case sub_push_sender s of
             Some ch \<Rightarrow> deliver_channel E now name payload qos wal_id ttl sub_id a ch b
           | None \<Rightarrow> (Delivered, update_subscriber a
               (\<lambda>s. s\<lparr>sub_queue := enqueue now payload qos wal_id ttl (sub_queue s)\<rparr>) b)))"

definition saturating_inc :: "u64 \<Rightarrow> u64" where
  "saturating_inc n = (if n = - 1 then n else n + 1)"

text \<open>The fanout loop: subscriptions to drop, number delivered, and the broker.\<close>
fun deliver_all ::
  "'ch env \<Rightarrow> instant \<Rightarrow> rstring \<Rightarrow> bytes \<Rightarrow> qos \<Rightarrow> u64 option \<Rightarrow> duration option \<Rightarrow> (u64 \<times> nat) list \<Rightarrow>
   u64 list \<Rightarrow> u64 \<Rightarrow> ('ch, 'w) broker \<Rightarrow> u64 list \<times> u64 \<times> ('ch, 'w) broker" where
  "deliver_all E now name payload qos wal_id ttl [] drops n b = (drops, n, b)"
| "deliver_all E now name payload qos wal_id ttl ((sub_id, a) # rs) drops n b =
     (case deliver_one E now name payload qos wal_id ttl sub_id a b of
        (Delivered, b) \<Rightarrow> deliver_all E now name payload qos wal_id ttl rs drops (saturating_inc n) b
      | (DroppedSlow, b) \<Rightarrow>
          deliver_all E now name payload qos wal_id ttl rs
            (if cfg_slow_consumer_policy (config b) = DropSubscription then drops @ [sub_id] else drops) n b)"

section \<open>Publishing\<close>

text \<open>\<open>pre_resolved.or_else(|| self.topics.get(topic_name))\<close>.\<close>
definition topic_handle :: "'ch env \<Rightarrow> rstring \<Rightarrow> rstring option \<Rightarrow> ('ch, 'w) broker \<Rightarrow> rstring option" where
  "topic_handle E name pre_resolved b =
     (case pre_resolved of
        Some n \<Rightarrow> Some n
      | None \<Rightarrow> (case get_topic E b name of Some _ \<Rightarrow> Some name | None \<Rightarrow> None))"

text \<open>The counters of a publish, its snapshot and the fanout loop.\<close>
definition fanout ::
  "'ch env \<Rightarrow> instant \<Rightarrow> u64 \<Rightarrow> rstring \<Rightarrow> rstring option \<Rightarrow> bytes \<Rightarrow> qos \<Rightarrow> u64 option \<Rightarrow>
   duration option \<Rightarrow> bytes option \<Rightarrow> ('ch, 'w) broker \<Rightarrow> u64 list \<times> u64 \<times> ('ch, 'w) broker" where
  "fanout E now ticket name topic_opt payload qos wal_id ttl_override key b =
     (let b = b\<lparr>publish_count := snd (counter_add ticket 1 (publish_count b))\<rparr>;
          ttl = (case ttl_override of Some d \<Rightarrow> Some d | None \<Rightarrow> Some (cfg_message_ttl (config b)));
          b = (case wal_id of
                 Some w \<Rightarrow> b\<lparr>max_wal_id_observed := max w (max_wal_id_observed b)\<rparr>
               | None \<Rightarrow> b);
          b = b\<lparr>messages_published_total := snd (counter_add ticket 1 (messages_published_total b))\<rparr>;
          (rs, b) = snapshot E ticket name topic_opt key b
      in deliver_all E now name payload qos wal_id ttl rs [] 0 b)"

definition count_delivered ::
  "'ch env \<Rightarrow> u64 \<Rightarrow> rstring option \<Rightarrow> u64 \<Rightarrow> ('ch, 'w) broker \<Rightarrow> ('ch, 'w) broker" where
  "count_delivered E ticket topic_opt delivered b =
     (if delivered > 0 then
        (let b = (case topic_opt of
               Some n \<Rightarrow> update_topic E n (\<lambda>t. t\<lparr>topic_delivered_total :=
                 snd (counter_add ticket delivered (topic_delivered_total t))\<rparr>) b
             | None \<Rightarrow> b)
         in b\<lparr>messages_delivered_total :=
              snd (counter_add ticket delivered (messages_delivered_total b))\<rparr>)
      else b)"

definition publish_inner ::
  "'ch env \<Rightarrow> instant \<Rightarrow> u64 \<Rightarrow> rstring \<Rightarrow> rstring option \<Rightarrow> bytes \<Rightarrow> qos \<Rightarrow> u64 option \<Rightarrow>
   duration option \<Rightarrow> bytes option \<Rightarrow> ('ch, 'w) broker \<Rightarrow> ('ch, 'w) broker" where
  "publish_inner E now ticket name pre_resolved payload qos wal_id ttl_override key b =
     (if shutting_down b then b
      else
        let topic_opt = topic_handle E name pre_resolved b;
            (drops, delivered, b) = fanout E now ticket name topic_opt payload qos wal_id ttl_override key b;
            b = count_delivered E ticket topic_opt delivered b
        in fold (\<lambda>sid b. snd (unsubscribe_one E sid b)) drops b)"

definition publish_with_wal_id ::
  "'ch env \<Rightarrow> instant \<Rightarrow> u64 \<Rightarrow> rstring \<Rightarrow> bytes \<Rightarrow> qos \<Rightarrow> u64 option \<Rightarrow> duration option \<Rightarrow>
   ('ch, 'w) broker \<Rightarrow> ('ch, 'w) broker" where
  "publish_with_wal_id E now ticket name payload qos wal_id ttl =
     publish_inner E now ticket name None payload qos wal_id ttl None"

definition publish ::
  "'ch env \<Rightarrow> instant \<Rightarrow> u64 \<Rightarrow> rstring \<Rightarrow> bytes \<Rightarrow> qos \<Rightarrow> ('ch, 'w) broker \<Rightarrow> ('ch, 'w) broker" where
  "publish E now ticket name payload qos = publish_with_wal_id E now ticket name payload qos None None"

text \<open>A resolved topic is the name of a topic that exists.\<close>
definition resolve_topic :: "'ch env \<Rightarrow> rstring \<Rightarrow> ('ch, 'w) broker \<Rightarrow> rstring option" where
  "resolve_topic E name b = map_option (\<lambda>_. name) (get_topic E b name)"

definition publish_resolved ::
  "'ch env \<Rightarrow> instant \<Rightarrow> u64 \<Rightarrow> rstring \<Rightarrow> rstring \<Rightarrow> bytes \<Rightarrow> qos \<Rightarrow> ('ch, 'w) broker \<Rightarrow> ('ch, 'w) broker" where
  "publish_resolved E now ticket name resolved payload qos =
     publish_inner E now ticket name (Some resolved) payload qos None None None"

definition publish_resolved_with_ttl ::
  "'ch env \<Rightarrow> instant \<Rightarrow> u64 \<Rightarrow> rstring \<Rightarrow> rstring \<Rightarrow> bytes \<Rightarrow> qos \<Rightarrow> duration option \<Rightarrow>
   ('ch, 'w) broker \<Rightarrow> ('ch, 'w) broker" where
  "publish_resolved_with_ttl E now ticket name resolved payload qos ttl =
     publish_inner E now ticket name (Some resolved) payload qos None ttl None"

definition publish_resolved_with_options ::
  "'ch env \<Rightarrow> instant \<Rightarrow> u64 \<Rightarrow> rstring \<Rightarrow> rstring \<Rightarrow> bytes \<Rightarrow> qos \<Rightarrow> duration option \<Rightarrow> bytes option \<Rightarrow>
   ('ch, 'w) broker \<Rightarrow> ('ch, 'w) broker" where
  "publish_resolved_with_options E now ticket name resolved payload qos ttl key =
     publish_inner E now ticket name (Some resolved) payload qos None ttl key"

definition publish_with_ttl ::
  "'ch env \<Rightarrow> instant \<Rightarrow> u64 \<Rightarrow> rstring \<Rightarrow> bytes \<Rightarrow> qos \<Rightarrow> duration option \<Rightarrow>
   ('ch, 'w) broker \<Rightarrow> ('ch, 'w) broker" where
  "publish_with_ttl E now ticket name payload qos ttl =
     publish_with_wal_id E now ticket name payload qos None ttl"

definition publish_with_key ::
  "'ch env \<Rightarrow> instant \<Rightarrow> u64 \<Rightarrow> rstring \<Rightarrow> bytes \<Rightarrow> qos \<Rightarrow> duration option \<Rightarrow> bytes option \<Rightarrow>
   ('ch, 'w) broker \<Rightarrow> ('ch, 'w) broker" where
  "publish_with_key E now ticket name payload qos ttl key =
     publish_inner E now ticket name None payload qos None ttl key"

text \<open>\<open>append_durable\<close> is the write-ahead log's operation on its state.\<close>
definition publish_durable ::
  "(bytes \<Rightarrow> 'w \<Rightarrow> (wal_error, u64) result \<times> 'w) \<Rightarrow> 'ch env \<Rightarrow> instant \<Rightarrow> u64 \<Rightarrow> rstring \<Rightarrow> bytes \<Rightarrow> qos \<Rightarrow>
   ('ch, 'w) broker \<Rightarrow> (wal_error, u64) result \<times> ('ch, 'w) broker" where
  "publish_durable append_durable E now ticket name payload qos b =
     (if shutting_down b
      then (Err (corrupt ''write-ahead log not available: broker shutting down''), b)
      else case wal b of
        None \<Rightarrow> (Err (corrupt ''write-ahead log not configured for broker''), b)
      | Some w \<Rightarrow>
          (case wal_entry_encode (MessageEntry \<lparr>wm_topic = name, wm_qos = qos, wm_payload = payload\<rparr>) of
             Ok encoded \<Rightarrow>
               (case append_durable encoded w of
                  (Ok wal_id, w') \<Rightarrow>
                    (Ok wal_id, publish_with_wal_id E now ticket name payload qos (Some wal_id) None
                       (b\<lparr>wal := Some w'\<rparr>))
                | (Err e, w') \<Rightarrow> (Err e, b\<lparr>wal := Some w'\<rparr>)
                | (Panic, w') \<Rightarrow> (Panic, b\<lparr>wal := Some w'\<rparr>))
           | Err e \<Rightarrow> (Err e, b)
           | Panic \<Rightarrow> (Panic, b)))"

section \<open>Consuming\<close>

definition poll :: "instant \<Rightarrow> u64 \<Rightarrow> ('ch, 'w) broker \<Rightarrow> polled_message option \<times> ('ch, 'w) broker" where
  "poll now sub_id b =
     (case subs_get (subscriptions b) sub_id of
        None \<Rightarrow> (None, b)
      | Some r \<Rightarrow>
          (let a = sr_subscriber r;
               (res, q) = dequeue now (cfg_retry_base_delay (config b)) (sub_queue (subscribers b ! a));
               b = update_subscriber a (\<lambda>s. s\<lparr>sub_queue := q\<rparr>) b
           in case res of
                None \<Rightarrow> (None, b)
              | Some (entry, tag) \<Rightarrow>
                  (Some \<lparr>pm_subscription_id = sub_id, pm_topic = sr_topic r,
                         pm_payload = qe_payload entry, pm_qos = qe_qos entry,
                         pm_delivery_tag = tag\<rparr>, b)))"

text \<open>The key of a subscription's cursor: the group's, or the client's.\<close>
definition cursor_id :: "subscription_ref \<Rightarrow> subscriber \<Rightarrow> rstring" where
  "cursor_id r s = (case sr_group r of Some g \<Rightarrow> str ''group:'' @ g | None \<Rightarrow> sub_client_id s)"

definition broker_ack :: "u64 \<Rightarrow> u64 \<Rightarrow> ('ch, 'w) broker \<Rightarrow> bool \<times> ('ch, 'w) broker" where
  "broker_ack sub_id tag b =
     (case subs_get (subscriptions b) sub_id of
        None \<Rightarrow> (False, b)
      | Some r \<Rightarrow>
          (let a = sr_subscriber r; s = subscribers b ! a;
               (res, q) = queue_ack tag (sub_queue s);
               b = update_subscriber a (\<lambda>s. s\<lparr>sub_queue := q\<rparr>) b
           in case res of
                None \<Rightarrow> (False, b)
              | Some wal_id_opt \<Rightarrow>
                  (let cid = cursor_id r s; topic = sr_topic r;
                       b = (case wal_id_opt of
                              Some wal_id \<Rightarrow> b\<lparr>ack_cursors := raise_cursor (cid, topic) wal_id (ack_cursors b)\<rparr>
                            | None \<Rightarrow> b);
                       b = b\<lparr>drain_notified := drain_notified b + 1\<rparr>;
                       b = (case (wal_id_opt, wal b) of
                              (Some wal_id, Some _) \<Rightarrow>
                                (case wal_entry_encode (AckEntry \<lparr>wa_client_id = cid, wa_topic = topic,
                                    wa_acked_wal_id = wal_id\<rparr>) of
                                   Ok encoded \<Rightarrow> b\<lparr>spawned_appends := spawned_appends b @ [encoded]\<rparr>
                                 | _ \<Rightarrow> b)
                            | _ \<Rightarrow> b)
                   in (True, b))))"

definition min_list_or :: "u64 \<Rightarrow> u64 list \<Rightarrow> u64" where
  "min_list_or d xs = (case xs of [] \<Rightarrow> d | x # ys \<Rightarrow> fold min ys x)"

definition current_snapshot :: "('ch, 'w) broker \<Rightarrow> checkpoint_snapshot" where
  "current_snapshot b =
     \<lparr>snapshot_id = min_list_or 0 (map snd (ack_cursors b)), cursors = ack_cursors b\<rparr>"

definition group_committed_offset :: "rstring \<Rightarrow> rstring \<Rightarrow> ('ch, 'w) broker \<Rightarrow> u64 option" where
  "group_committed_offset grp topic b = hm_get (ack_cursors b) (str ''group:'' @ grp, topic)"

abbreviation all_subscriptions :: "('ch, 'w) broker \<Rightarrow> (u64 \<times> subscription_ref) list" where
  "all_subscriptions b \<equiv> concat (ss_shards (subscriptions b))"

definition sum_queues :: "(subscriber_queue \<Rightarrow> nat) \<Rightarrow> ('ch, 'w) broker \<Rightarrow> nat" where
  "sum_queues f b =
     sum_list (map (\<lambda>(_, r). f (sub_queue (subscribers b ! sr_subscriber r))) (all_subscriptions b))"

definition inflight_message_count :: "('ch, 'w) broker \<Rightarrow> nat" where
  "inflight_message_count = sum_queues inflight_len"

definition expiration_heap_size :: "('ch, 'w) broker \<Rightarrow> nat" where
  "expiration_heap_size = sum_queues expiration_heap_len"

definition retry_heap_size :: "('ch, 'w) broker \<Rightarrow> nat" where
  "retry_heap_size = sum_queues retry_heap_len"

record topic_metrics_row =
  tm_topic :: rstring
  tm_published_total :: u64
  tm_delivered_total :: u64
  tm_subscriber_count :: nat

definition topic_metrics :: "('ch, 'w) broker \<Rightarrow> topic_metrics_row list" where
  "topic_metrics b =
     map (\<lambda>(_, t). \<lparr>tm_topic = topic_name t, tm_published_total = counter_load (topic_published_total t),
        tm_delivered_total = counter_load (topic_delivered_total t),
        tm_subscriber_count = length (topic_subscribers t)\<rparr>) (concat (topics b))"

section \<open>Maintenance\<close>

definition ends_with :: "rstring \<Rightarrow> rstring \<Rightarrow> bool" where
  "ends_with s suffix \<longleftrightarrow> length suffix \<le> length s \<and> drop (length s - length suffix) s = suffix"

text \<open>The dead letters of one subscription's dropped messages.\<close>
definition dead_letters :: "rstring option \<Rightarrow> rstring \<Rightarrow> dropped_list \<Rightarrow> (rstring \<times> bytes) list" where
  "dead_letters dlq_suffix topic dropped =
     (case dlq_suffix of
        Some suffix \<Rightarrow>
          (if \<not> ends_with topic suffix then map (\<lambda>(payload, _). (topic @ suffix, payload)) dropped else [])
      | None \<Rightarrow> [])"

fun tick_subscriptions ::
  "instant \<Rightarrow> (u64 \<times> subscription_ref) list \<Rightarrow> ('ch, 'w) broker \<Rightarrow>
   (rstring \<times> bytes) list \<times> ('ch, 'w) broker" where
  "tick_subscriptions now [] b = ([], b)"
| "tick_subscriptions now ((_, r) # rs) b =
     (let a = sr_subscriber r;
          (dropped, q) = queue_maintenance_tick now (cfg_max_retries (config b)) (sub_queue (subscribers b ! a));
          dls = dead_letters (cfg_dlq_suffix (config b)) (sr_topic r) dropped;
          (rest, b) = tick_subscriptions now rs (update_subscriber a (\<lambda>s. s\<lparr>sub_queue := q\<rparr>) b)
      in (dls @ rest, b))"

text \<open>\<open>now\<close> is the caller's instant, \<open>clock\<close> the one at which the dead letters are published.\<close>
definition maintenance_tick ::
  "'ch env \<Rightarrow> instant \<Rightarrow> instant \<Rightarrow> u64 \<Rightarrow> ('ch, 'w) broker \<Rightarrow> ('ch, 'w) broker" where
  "maintenance_tick E now clock ticket b =
     (let (to_dlq, b) = tick_subscriptions now (all_subscriptions b) b;
          b = fold (\<lambda>(topic, payload). publish E clock ticket topic payload AtMostOnce) to_dlq b
      in b\<lparr>drain_notified := drain_notified b + 1\<rparr>)"

end
