(* ===== verification/Broker_Inv.thy ===== *)
theory Broker_Inv
  imports Publish
begin

text \<open>
  The invariant of the broker's routing state: the subscription registry, the topics'
  subscriber lists and consumer groups, the wildcard list and the per-connection index
  describe the same set of subscriptions. Every operation of the broker keeps it.
\<close>

section \<open>The invariant\<close>

type_synonym sub_map = "u64 \<Rightarrow> subscription_ref option"

abbreviation sub_of :: "('ch, 'w) broker \<Rightarrow> sub_map" where
  "sub_of b \<equiv> subs_get (subscriptions b)"

definition members_of :: "topic \<Rightarrow> rstring \<Rightarrow> (u64 \<times> nat) list" where
  "members_of t g = (case hm_get (topic_groups t) g of Some cg \<Rightarrow> cg_members cg | None \<Rightarrow> [])"

text \<open>A topic lists exactly the subscriptions to it, each once.\<close>
definition topic_ok :: "sub_map \<Rightarrow> rstring \<Rightarrow> topic \<Rightarrow> bool" where
  "topic_ok S n t \<longleftrightarrow>
     hm_ok (topic_subscribers t) \<and> hm_ok (topic_groups t) \<and>
     counter_ok (topic_published_total t) \<and> counter_ok (topic_delivered_total t) \<and>
     (\<forall>sid a. hm_get (topic_subscribers t) sid = Some a \<longleftrightarrow>
        S sid = Some \<lparr>sr_topic = n, sr_subscriber = a, sr_group = None\<rparr>) \<and>
     (\<forall>g. distinct (map fst (members_of t g)) \<and>
        (\<forall>sid a. (sid, a) \<in> set (members_of t g) \<longleftrightarrow>
           S sid = Some \<lparr>sr_topic = n, sr_subscriber = a, sr_group = Some g\<rparr>))"

definition topics_ok :: "'ch env \<Rightarrow> sub_map \<Rightarrow> ('ch, 'w) broker \<Rightarrow> bool" where
  "topics_ok E S b \<longleftrightarrow> shards_ok (topic_shard_index (env_hash E)) (topics b) \<and>
     (\<forall>n t. get_topic E b n = Some t \<longrightarrow> topic_ok S n t)"

text \<open>A subscription is to an existing topic; its id is its subscriber's address plus one.\<close>
definition refs_ok :: "'ch env \<Rightarrow> ('ch, 'w) broker \<Rightarrow> bool" where
  "refs_ok E b \<longleftrightarrow>
     (\<forall>sid r. sub_of b sid = Some r \<longrightarrow> get_topic E b (sr_topic r) \<noteq> None \<and>
        unat sid = Suc (sr_subscriber r) \<and> sr_subscriber r < length (subscribers b))"

definition wildcards_ok :: "sub_map \<Rightarrow> (subject_pattern \<times> u64) list \<Rightarrow> bool" where
  "wildcards_ok S wcs \<longleftrightarrow> distinct (map snd wcs) \<and>
     (\<forall>(p, sid) \<in> set wcs. \<exists>a. S sid = Some \<lparr>sr_topic = pat_as_str p, sr_subscriber = a, sr_group = None\<rparr>)"

definition conns_ok :: "sub_map \<Rightarrow> (u64, u64 list) hash_map \<Rightarrow> bool" where
  "conns_ok S cs \<longleftrightarrow> hm_ok cs \<and> distinct (concat (map snd cs)) \<and>
     (\<forall>(c, ss) \<in> set cs. ss \<noteq> [] \<and> set ss \<subseteq> dom S)"

definition routing_inv :: "'ch env \<Rightarrow> ('ch, 'w) broker \<Rightarrow> bool" where
  "routing_inv E b \<longleftrightarrow>
     subs_ok (subscriptions b) \<and> topics_ok E (sub_of b) b \<and> refs_ok E b \<and>
     unat (next_subscription_id b) = Suc (length (subscribers b)) \<and>
     wildcards_ok (sub_of b) (wildcard_subs b) \<and>
     wildcard_subs_len b = of_nat (length (wildcard_subs b)) \<and>
     length (wildcard_subs b) \<le> length (subscribers b) \<and>
     conns_ok (sub_of b) (connection_subs b)"

section \<open>Topics under updates\<close>

lemma topic_okD:
  assumes "topic_ok S n t"
  shows "hm_ok (topic_subscribers t)" "hm_ok (topic_groups t)"
    "counter_ok (topic_published_total t)" "counter_ok (topic_delivered_total t)"
    "hm_get (topic_subscribers t) sid = Some a \<longleftrightarrow>
       S sid = Some \<lparr>sr_topic = n, sr_subscriber = a, sr_group = None\<rparr>"
    "distinct (map fst (members_of t g))"
    "(sid, a) \<in> set (members_of t g) \<longleftrightarrow>
       S sid = Some \<lparr>sr_topic = n, sr_subscriber = a, sr_group = Some g\<rparr>"
  using assms unfolding topic_ok_def by blast+

lemma topic_okI:
  assumes "hm_ok (topic_subscribers t)" "hm_ok (topic_groups t)"
    "counter_ok (topic_published_total t)" "counter_ok (topic_delivered_total t)"
    "\<And>sid a. hm_get (topic_subscribers t) sid = Some a \<longleftrightarrow>
       S sid = Some \<lparr>sr_topic = n, sr_subscriber = a, sr_group = None\<rparr>"
    "\<And>g. distinct (map fst (members_of t g))"
    "\<And>g sid a. (sid, a) \<in> set (members_of t g) \<longleftrightarrow>
       S sid = Some \<lparr>sr_topic = n, sr_subscriber = a, sr_group = Some g\<rparr>"
  shows "topic_ok S n t"
  using assms unfolding topic_ok_def by blast

lemma topic_new_ok: "(\<And>sid r. S sid = Some r \<Longrightarrow> sr_topic r \<noteq> n) \<Longrightarrow> topic_ok S n (topic_new n)"
  by (rule topic_okI) (force simp: topic_new_def members_of_def)+

lemma topic_ok_upd_other:
  assumes "topic_ok S n t" and "\<And>r. S sid = Some r \<Longrightarrow> sr_topic r \<noteq> n"
    and "\<And>r. ro = Some r \<Longrightarrow> sr_topic r \<noteq> n"
  shows "topic_ok (S(sid := ro)) n t"
proof (rule topic_okI)
  have upd: "(S(sid := ro)) sid' = Some \<lparr>sr_topic = n, sr_subscriber = a, sr_group = g\<rparr> \<longleftrightarrow>
      S sid' = Some \<lparr>sr_topic = n, sr_subscriber = a, sr_group = g\<rparr>" for sid' a g
    using assms(2) [of "\<lparr>sr_topic = n, sr_subscriber = a, sr_group = g\<rparr>"]
      assms(3) [of "\<lparr>sr_topic = n, sr_subscriber = a, sr_group = g\<rparr>"] by auto
  show "hm_get (topic_subscribers t) sid' = Some a \<longleftrightarrow>
      (S(sid := ro)) sid' = Some \<lparr>sr_topic = n, sr_subscriber = a, sr_group = None\<rparr>" for sid' a
    unfolding upd by (rule topic_okD(5) [OF assms(1)])
  show "(sid', a) \<in> set (members_of t g) \<longleftrightarrow>
      (S(sid := ro)) sid' = Some \<lparr>sr_topic = n, sr_subscriber = a, sr_group = Some g\<rparr>" for g sid' a
    unfolding upd by (rule topic_okD(7) [OF assms(1)])
qed (rule topic_okD [OF assms(1)])+

lemma members_of_attach:
  "members_of (attach_to_topic sid a grp t) g =
     (if grp = Some g then members_of t g @ [(sid, a)] else members_of t g)"
  by (auto simp: members_of_def attach_to_topic_def Let_def consumer_group_new_def
      split: option.splits)

lemma attach_subscribers:
  "hm_get (topic_subscribers (attach_to_topic sid a grp t)) sid' =
     (if grp = None \<and> sid' = sid then Some a else hm_get (topic_subscribers t) sid')"
  by (auto simp: attach_to_topic_def Let_def split: option.splits)

lemma topic_ok_attach:
  assumes t: "topic_ok S n t" and new: "S sid = None"
  shows "topic_ok (S(sid \<mapsto> \<lparr>sr_topic = n, sr_subscriber = a, sr_group = grp\<rparr>)) n
           (attach_to_topic sid a grp t)"
proof (rule topic_okI)
  show "hm_get (topic_subscribers (attach_to_topic sid a grp t)) sid' = Some a' \<longleftrightarrow>
      (S(sid \<mapsto> \<lparr>sr_topic = n, sr_subscriber = a, sr_group = grp\<rparr>)) sid' =
      Some \<lparr>sr_topic = n, sr_subscriber = a', sr_group = None\<rparr>" for sid' a'
    using topic_okD(5) [OF t, of sid' a'] new
    by (auto simp: attach_subscribers simp del: map_of_eq_Some_iff)
  have no: "sid \<notin> fst ` set (members_of t g)" for g
    using topic_okD(7) [OF t, of sid _ g] new by auto
  then show "distinct (map fst (members_of (attach_to_topic sid a grp t) g))" for g
    using topic_okD(6) [OF t, of g] by (simp add: members_of_attach)
  show "(sid', a') \<in> set (members_of (attach_to_topic sid a grp t) g) \<longleftrightarrow>
      (S(sid \<mapsto> \<lparr>sr_topic = n, sr_subscriber = a, sr_group = grp\<rparr>)) sid' =
      Some \<lparr>sr_topic = n, sr_subscriber = a', sr_group = Some g\<rparr>" for g sid' a'
    using topic_okD(7) [OF t, of sid' a' g] no [of g] new by (auto simp: members_of_attach)
  show "hm_ok (topic_subscribers (attach_to_topic sid a grp t))"
    "hm_ok (topic_groups (attach_to_topic sid a grp t))"
    "counter_ok (topic_published_total (attach_to_topic sid a grp t))"
    "counter_ok (topic_delivered_total (attach_to_topic sid a grp t))"
    using topic_okD(1-4) [OF t] by (simp_all add: attach_to_topic_def Let_def split: option.splits)
qed

lemma members_of_detach:
  "members_of (detach_from_topic sid grp t) g =
     (if grp = Some g then filter (\<lambda>(s, _). s \<noteq> sid) (members_of t g) else members_of t g)"
  by (auto simp: members_of_def detach_from_topic_def split: option.splits)

lemma topic_ok_detach:
  assumes t: "topic_ok S n t" and r: "S sid = Some r" "sr_topic r = n"
  shows "topic_ok (S(sid := None)) n (detach_from_topic sid (sr_group r) t)"
proof (rule topic_okI)
  let ?t = "detach_from_topic sid (sr_group r) t"
  have r': "S sid = Some \<lparr>sr_topic = n, sr_subscriber = sr_subscriber r, sr_group = sr_group r\<rparr>"
    using r by simp
  have sub: "hm_get (topic_subscribers ?t) sid' =
      (if sr_group r = None \<and> sid' = sid then None else hm_get (topic_subscribers t) sid')" for sid'
    by (auto simp: detach_from_topic_def split: option.splits)
  show "hm_get (topic_subscribers ?t) sid' = Some a \<longleftrightarrow>
      (S(sid := None)) sid' = Some \<lparr>sr_topic = n, sr_subscriber = a, sr_group = None\<rparr>" for sid' a
    using topic_okD(5) [OF t, of sid' a] r'
    by (auto simp: sub simp del: map_of_eq_Some_iff)
  show "distinct (map fst (members_of ?t g))" for g
    using topic_okD(6) [OF t, of g] by (simp add: members_of_detach distinct_map_filter)
  show "(sid', a) \<in> set (members_of ?t g) \<longleftrightarrow>
      (S(sid := None)) sid' = Some \<lparr>sr_topic = n, sr_subscriber = a, sr_group = Some g\<rparr>" for g sid' a
    using topic_okD(7) [OF t, of sid' a g] r' by (auto simp: members_of_detach)
  show "hm_ok (topic_subscribers ?t)" "hm_ok (topic_groups ?t)"
    "counter_ok (topic_published_total ?t)" "counter_ok (topic_delivered_total ?t)"
    using topic_okD(1-4) [OF t] by (simp_all add: detach_from_topic_def split: option.splits)
qed

lemma update_topic_fields [simp]:
  "config (update_topic E n f b) = config b"
  "subscriptions (update_topic E n f b) = subscriptions b"
  "connection_subs (update_topic E n f b) = connection_subs b"
  "next_subscription_id (update_topic E n f b) = next_subscription_id b"
  "wal (update_topic E n f b) = wal b"
  "shutting_down (update_topic E n f b) = shutting_down b"
  "ack_cursors (update_topic E n f b) = ack_cursors b"
  "wildcard_subs (update_topic E n f b) = wildcard_subs b"
  "wildcard_subs_len (update_topic E n f b) = wildcard_subs_len b"
  "subscribers (update_topic E n f b) = subscribers b"
  "slots (update_topic E n f b) = slots b"
  "channels (update_topic E n f b) = channels b"
  "spawned_appends (update_topic E n f b) = spawned_appends b"
  by (simp_all add: update_topic_def split: option.splits)

lemma update_topic_shards:
  "shards_ok (topic_shard_index (env_hash E)) (topics b) \<Longrightarrow>
     shards_ok (topic_shard_index (env_hash E)) (topics (update_topic E n f b))"
  by (simp add: update_topic_def topic_reg.inv_update split: option.splits)

lemma update_topic_get:
  "shards_ok (topic_shard_index (env_hash E)) (topics b) \<Longrightarrow>
     get_topic E (update_topic E n f b) m =
       (if m = n then map_option f (get_topic E b n) else get_topic E b m)"
  by (auto simp: update_topic_def topic_reg.lookup_update split: option.splits)

lemma topics_okI:
  assumes "shards_ok (topic_shard_index (env_hash E)) (topics b)"
    "\<And>n t. get_topic E b n = Some t \<Longrightarrow> topic_ok S n t"
  shows "topics_ok E S b"
  using assms unfolding topics_ok_def by blast

lemma topics_okD:
  assumes "topics_ok E S b"
  shows "shards_ok (topic_shard_index (env_hash E)) (topics b)"
    "get_topic E b n = Some t \<Longrightarrow> topic_ok S n t"
  using assms unfolding topics_ok_def by blast+

lemma topics_ok_update:
  assumes ok: "topics_ok E S b"
    and upd: "\<And>t. topic_ok S n t \<Longrightarrow> topic_ok S' n (f t)"
    and other: "\<And>m t. m \<noteq> n \<Longrightarrow> topic_ok S m t \<Longrightarrow> topic_ok S' m t"
  shows "topics_ok E S' (update_topic E n f b)"
proof (rule topics_okI)
  note sh = topics_okD(1) [OF ok]
  show "shards_ok (topic_shard_index (env_hash E)) (topics (update_topic E n f b))"
    by (rule update_topic_shards [OF sh])
  show "topic_ok S' m t" if g: "get_topic E (update_topic E n f b) m = Some t" for m t
  proof (cases "m = n")
    case True
    then obtain t0 where "get_topic E b n = Some t0" "t = f t0"
      using g by (auto simp: update_topic_get [OF sh])
    then show ?thesis using upd [OF topics_okD(2) [OF ok]] True by simp
  next
    case False
    then have "get_topic E b m = Some t" using g by (simp add: update_topic_get [OF sh])
    then show ?thesis using other [OF False topics_okD(2) [OF ok]] by simp
  qed
qed

text \<open>\<open>get_or_insert\<close> on the topic registry.\<close>
lemma topics_get_or_insert_ok:
  assumes ok: "topics_ok E S b" and refs: "\<forall>sid r. S sid = Some r \<longrightarrow> get_topic E b (sr_topic r) \<noteq> None"
    and b'_def: "b' = b\<lparr>topics := snd (topics_get_or_insert (env_hash E) topic_new n (topics b))\<rparr>"
  shows "topics_ok E S b'" and "get_topic E b' n \<noteq> None"
    and "get_topic E b m \<noteq> None \<Longrightarrow> get_topic E b' m \<noteq> None"
proof -
  note sh = topics_okD(1) [OF ok]
  have get: "get_topic E b' m = (if m = n \<and> get_topic E b n = None then Some (topic_new n)
      else get_topic E b m)" for m
    by (auto simp: b'_def topics_get_or_insert_def topic_reg.lookup_update [OF sh] split: option.splits)
  show "get_topic E b' n \<noteq> None" "get_topic E b m \<noteq> None \<Longrightarrow> get_topic E b' m \<noteq> None"
    unfolding get by auto
  show "topics_ok E S b'"
  proof (rule topics_okI)
    show "shards_ok (topic_shard_index (env_hash E)) (topics b')"
      using sh by (simp add: b'_def topics_get_or_insert_def topic_reg.inv_update split: option.splits)
    show "topic_ok S m t" if "get_topic E b' m = Some t" for m t
    proof (cases "m = n \<and> get_topic E b n = None")
      case True
      then have "topic_ok S n (topic_new n)" using refs by (intro topic_new_ok) force
      then show ?thesis using that True unfolding get by simp
    next
      case False
      then show ?thesis using that topics_okD(2) [OF ok, of m t] unfolding get by (auto split: if_splits)
    qed
  qed
qed

lemma routing_invD:
  assumes "routing_inv E b"
  shows "subs_ok (subscriptions b)" "topics_ok E (sub_of b) b" "refs_ok E b"
    "unat (next_subscription_id b) = Suc (length (subscribers b))"
    "wildcards_ok (sub_of b) (wildcard_subs b)"
    "wildcard_subs_len b = of_nat (length (wildcard_subs b))"
    "length (wildcard_subs b) \<le> length (subscribers b)"
    "conns_ok (sub_of b) (connection_subs b)"
  using assms unfolding routing_inv_def by blast+

lemma refs_okD:
  assumes "refs_ok E b" "sub_of b sid = Some r"
  shows "get_topic E b (sr_topic r) \<noteq> None" "unat sid = Suc (sr_subscriber r)"
    "sr_subscriber r < length (subscribers b)"
  using assms unfolding refs_ok_def by blast+

lemma broker_init_inv: "routing_inv E (broker_init cfg w sl ch)"
  by (simp add: routing_inv_def broker_init_def topics_ok_def refs_ok_def wildcards_ok_def conns_ok_def)

section \<open>Subscribing keeps the invariant\<close>

lemma subscribe_fields:
  fixes b :: "('ch, 'w) broker"
  assumes "subscribe_inner_grouped E cid topic qos conn sender slot grp b = (sid, b')"
  shows "sid = next_subscription_id b"
    "next_subscription_id b' = sid + 1"
    "subscribers b' = subscribers b @ [\<lparr>sub_client_id = cid, sub_queue = queue_new qos (cfg_queue_capacity (config b)),
       sub_push_sender = sender, sub_push_slot = slot, sub_push_next_tag = 1\<rparr>]"
    "subscriptions b' = subs_insert sid
       \<lparr>sr_topic = topic, sr_subscriber = length (subscribers b), sr_group = grp\<rparr> (subscriptions b)"
    "topics b' = topics (update_topic E topic (attach_to_topic sid (length (subscribers b)) grp)
       (b\<lparr>topics := snd (topics_get_or_insert (env_hash E) topic_new topic (topics b))\<rparr>))"
    "wildcard_subs b' = wildcard_subs b" "wildcard_subs_len b' = wildcard_subs_len b"
    "connection_subs b' = (case conn of None \<Rightarrow> connection_subs b
      | Some c \<Rightarrow> hm_insert c ((case hm_get (connection_subs b) c of Some ss \<Rightarrow> ss | None \<Rightarrow> []) @ [sid])
          (connection_subs b))"
    "config b' = config b" "slots b' = slots b" "channels b' = channels b"
    "shutting_down b' = shutting_down b" "ack_cursors b' = ack_cursors b"
  using assms
  by (auto simp: subscribe_inner_grouped_def Let_def update_topic_def split: prod.splits option.splits)

lemma wildcards_ok_upd:
  "wildcards_ok S wcs \<Longrightarrow> S sid = None \<Longrightarrow> wildcards_ok (S(sid \<mapsto> r)) wcs"
  unfolding wildcards_ok_def by fastforce

lemma hm_mem_values: "hm_ok m \<Longrightarrow> (k, v) \<in> set (hm_insert k' v' m) \<Longrightarrow> (k, v) \<in> set m \<or> (k, v) = (k', v')"
  by (metis hm_get_insert hm_mem_iff_get hm_ok_insert option.inject)

lemma concat_values_insert:
  "hm_ok m \<Longrightarrow>
     mset (concat (map snd (hm_insert k ((case hm_get m k of Some ss \<Rightarrow> ss | None \<Rightarrow> []) @ [x]) m))) =
     add_mset x (mset (concat (map snd m)))"
proof (induction m)
  case (Cons kv m)
  obtain k1 v1 where "kv = (k1, v1)" by (cases kv)
  with Cons show ?case
    by (cases "k = k1") (auto simp: ac_simps)
qed simp

lemma conns_ok_insert:
  assumes ok: "conns_ok S cs" and new: "S sid = None"
  shows "conns_ok (S(sid \<mapsto> r))
    (hm_insert c ((case hm_get cs c of Some ss \<Rightarrow> ss | None \<Rightarrow> []) @ [sid]) cs)"
proof -
  let ?cs = "hm_insert c ((case hm_get cs c of Some ss \<Rightarrow> ss | None \<Rightarrow> []) @ [sid]) cs"
  have hm: "hm_ok cs" and d: "distinct (concat (map snd cs))"
    and e: "\<And>c ss. (c, ss) \<in> set cs \<Longrightarrow> ss \<noteq> [] \<and> set ss \<subseteq> dom S"
    using ok unfolding conns_ok_def by blast+
  have "sid \<notin> set (concat (map snd cs))" using e new by fastforce
  with d have "distinct (sid # concat (map snd cs))" by simp
  then have "distinct (concat (map snd ?cs))"
    using concat_values_insert [OF hm, of c sid] mset_eq_imp_distinct_iff
    by (metis mset.simps(2))
  moreover have "ss \<noteq> [] \<and> set ss \<subseteq> dom (S(sid \<mapsto> r))" if m: "(c', ss) \<in> set ?cs" for c' ss
  proof -
    from hm_mem_values [OF hm m] consider "(c', ss) \<in> set cs"
      | "ss = (case hm_get cs c of Some ss \<Rightarrow> ss | None \<Rightarrow> []) @ [sid]" by blast
    then show ?thesis
    proof cases
      case 1
      then show ?thesis using e by (metis dom_fun_upd option.distinct(1) subset_insertI2)
    next
      case 2
      then show ?thesis using e [of c] hm by (auto split: option.splits)
    qed
  qed
  ultimately show ?thesis
    using hm by (auto simp: conns_ok_def)
qed

lemma conns_ok_upd: "conns_ok S cs \<Longrightarrow> S sid = None \<Longrightarrow> conns_ok (S(sid \<mapsto> r)) cs"
  unfolding conns_ok_def by fastforce

text \<open>The id of a new subscription is not in use.\<close>
lemma next_id_fresh: "routing_inv E b \<Longrightarrow> sub_of b (next_subscription_id b) = None"
  using routing_invD(4) [of E b] refs_okD(2,3) [OF routing_invD(3) [of E b]]
  by (cases "sub_of b (next_subscription_id b)") fastforce+

lemma subscribe_inv:
  assumes inv: "routing_inv E b" and room: "Suc (Suc (length (subscribers b))) < 2 ^ 64"
    and s: "subscribe_inner_grouped E cid topic qos conn sender slot grp b = (sid, b')"
  shows "routing_inv E b'"
proof -
  note f = subscribe_fields [OF s] and D = routing_invD [OF inv]
  let ?r = "\<lparr>sr_topic = topic, sr_subscriber = length (subscribers b), sr_group = grp\<rparr>"
  let ?b = "b\<lparr>topics := snd (topics_get_or_insert (env_hash E) topic_new topic (topics b))\<rparr>"
  have new: "sub_of b sid = None" using next_id_fresh [OF inv] f(1) by simp
  have S: "sub_of b' = (sub_of b)(sid \<mapsto> ?r)"
    by (auto simp: fun_eq_iff f(4) subs_reg.lookup_update [OF D(1)])
  have refs: "\<forall>s r. sub_of b s = Some r \<longrightarrow> get_topic E b (sr_topic r) \<noteq> None"
    using refs_okD(1) [OF D(3)] by blast
  note ins = topics_get_or_insert_ok [OF D(2) refs refl, where n = topic]
  have "topics_ok E ((sub_of b)(sid \<mapsto> ?r))
      (update_topic E topic (attach_to_topic sid (length (subscribers b)) grp) ?b)"
    by (rule topics_ok_update [OF ins(1)]) (auto intro: topic_ok_attach topic_ok_upd_other simp: new)
  then have "topics_ok E (sub_of b') b'" by (simp add: topics_ok_def f(5) S)
  moreover have "refs_ok E b'"
    unfolding refs_ok_def
  proof (intro allI impI)
    fix s r assume s: "sub_of b' s = Some r"
    have "get_topic E b' n \<noteq> None" if "get_topic E ?b n \<noteq> None" for n
      using that by (auto simp: f(5) update_topic_get [OF topics_okD(1) [OF ins(1)]])
    then show "get_topic E b' (sr_topic r) \<noteq> None \<and> unat s = Suc (sr_subscriber r) \<and>
        sr_subscriber r < length (subscribers b')"
      using s refs_okD [OF D(3), of s r] ins(2) ins(3) [of "sr_topic r"] D(4) f(1,3)
      by (cases "s = sid") (auto simp: S)
  qed
  moreover have "unat (next_subscription_id b') = Suc (length (subscribers b'))"
    using word_Suc_unat [of "next_subscription_id b"] D(4) room by (simp add: f)
  moreover have "conns_ok (sub_of b') (connection_subs b')"
    unfolding S f(8) using conns_ok_insert [OF D(8) new] conns_ok_upd [OF D(8) new]
    by (cases conn) simp_all
  moreover have "wildcards_ok (sub_of b') (wildcard_subs b')"
    unfolding S f(6) by (rule wildcards_ok_upd [OF D(5) new])
  moreover have "subs_ok (subscriptions b')" unfolding f(4) by (rule subs_reg.inv_update [OF D(1)])
  ultimately show ?thesis
    using D(6,7) unfolding routing_inv_def by (simp add: f)
qed

lemma add_wildcard_inv:
  assumes inv: "routing_inv E b" and r: "sub_of b sid = Some \<lparr>sr_topic = pat_as_str p, sr_subscriber = a, sr_group = None\<rparr>"
    and new: "sid \<notin> snd ` set (wildcard_subs b)" and len: "length (wildcard_subs b) < length (subscribers b)"
  shows "routing_inv E (add_wildcard p sid b)"
proof -
  have "wildcards_ok (sub_of b) (wildcard_subs b @ [(p, sid)])"
    using routing_invD(5) [OF inv] r new by (auto simp: wildcards_ok_def)
  then show ?thesis
    using inv len by (simp add: routing_inv_def add_wildcard_def Let_def topics_ok_def refs_ok_def)
qed

lemma subscribe_wildcard_inv:
  assumes inv: "routing_inv E b" and room: "Suc (Suc (length (subscribers b))) < 2 ^ 64"
    and s: "subscribe_inner E cid (pat_as_str p) qos conn sender slot b = (sid, b')"
  shows "routing_inv E (add_wildcard p sid b')"
proof -
  note s' = s [unfolded subscribe_inner_def]
  note f = subscribe_fields [OF s'] and D = routing_invD [OF inv]
  have inv': "routing_inv E b'" by (rule subscribe_inv [OF inv room s'])
  have r: "sub_of b' sid = Some \<lparr>sr_topic = pat_as_str p, sr_subscriber = length (subscribers b), sr_group = None\<rparr>"
    by (simp add: f(4) subs_reg.lookup_update [OF D(1)])
  have "\<forall>sid \<in> snd ` set (wildcard_subs b). sub_of b sid \<noteq> None"
    using D(5) by (fastforce simp: wildcards_ok_def)
  then have "sid \<notin> snd ` set (wildcard_subs b')"
    using next_id_fresh [OF inv] f(1,6) by auto
  then show ?thesis
    by (rule add_wildcard_inv [OF inv' r]) (use D(7) f(3,6) in simp)
qed

section \<open>Unsubscribing keeps the invariant\<close>

text \<open>The registry, topics and wildcards after the subscriptions in a set are gone.\<close>
lemma wildcards_ok_filter:
  assumes "wildcards_ok S wcs"
  shows "wildcards_ok (S |` (- X)) (filter (\<lambda>(_, sid). sid \<notin> X) wcs)"
proof -
  have "distinct (map snd (filter (\<lambda>(_, sid). sid \<notin> X) wcs))"
    using assms by (simp add: wildcards_ok_def distinct_map_filter)
  then show ?thesis
    using assms by (fastforce simp: wildcards_ok_def)
qed

lemma topics_ok_detach:
  assumes ok: "topics_ok E S b" and r: "S sid = Some r"
  shows "topics_ok E (S(sid := None)) (update_topic E (sr_topic r) (detach_from_topic sid (sr_group r)) b)"
  by (rule topics_ok_update [OF ok]) (auto simp: r intro: topic_ok_detach topic_ok_upd_other)

lemma update_topic_dom:
  "shards_ok (topic_shard_index (env_hash E)) (topics b) \<Longrightarrow>
     get_topic E (update_topic E n f b) m = None \<longleftrightarrow> get_topic E b m = None"
  by (simp add: update_topic_get)

definition detach_all :: "'ch env \<Rightarrow> (u64 \<times> subscription_ref) list \<Rightarrow> ('ch, 'w) broker \<Rightarrow> ('ch, 'w) broker" where
  "detach_all E rs = fold (\<lambda>(sid, r). update_topic E (sr_topic r) (detach_from_topic sid (sr_group r))) rs"

lemma detach_all_fields [simp]:
  "config (detach_all E rs b) = config b"
  "subscriptions (detach_all E rs b) = subscriptions b"
  "connection_subs (detach_all E rs b) = connection_subs b"
  "next_subscription_id (detach_all E rs b) = next_subscription_id b"
  "wildcard_subs (detach_all E rs b) = wildcard_subs b"
  "wildcard_subs_len (detach_all E rs b) = wildcard_subs_len b"
  "subscribers (detach_all E rs b) = subscribers b"
  "slots (detach_all E rs b) = slots b" "channels (detach_all E rs b) = channels b"
  "ack_cursors (detach_all E rs b) = ack_cursors b"
  by (induction rs arbitrary: b) (auto simp: detach_all_def)

lemma detach_all_ok:
  assumes "topics_ok E S b" and "\<forall>(sid, r) \<in> set rs. S sid = Some r" and "distinct (map fst rs)"
  shows "topics_ok E (S |` (- (fst ` set rs))) (detach_all E rs b) \<and>
    (\<forall>n. get_topic E (detach_all E rs b) n = None \<longleftrightarrow> get_topic E b n = None)"
  using assms
proof (induction rs arbitrary: S b)
  case Nil
  then show ?case by (simp add: detach_all_def)
next
  case (Cons x rs)
  obtain sid r where x: "x = (sid, r)" by (cases x)
  let ?b = "update_topic E (sr_topic r) (detach_from_topic sid (sr_group r)) b"
  have r: "S sid = Some r" using Cons.prems(2) x by simp
  note ok = topics_ok_detach [OF Cons.prems(1) r]
  have "\<forall>(s, r) \<in> set rs. (S(sid := None)) s = Some r" "distinct (map fst rs)"
    using Cons.prems(2,3) x by (auto simp: rev_image_eqI)
  note ih = Cons.IH [OF ok this]
  have "(S(sid := None)) |` (- (fst ` set rs)) = S |` (- (fst ` set (x # rs)))"
    by (auto simp: restrict_map_def fun_eq_iff x)
  moreover have "detach_all E rs ?b = detach_all E (x # rs) b"
    by (simp add: detach_all_def x)
  ultimately show ?case
    using ih by (simp only: update_topic_dom [OF topics_okD(1) [OF Cons.prems(1)]] simp_thms)
qed

lemma take_subscriptions_spec:
  assumes "subs_ok ss" and "distinct sids" and "take_subscriptions sids ss = (rs, ss')"
  shows "subs_ok ss' \<and> subs_get ss' = subs_get ss |` (- set sids) \<and>
    fst ` set rs = set sids \<inter> dom (subs_get ss) \<and> distinct (map fst rs) \<and>
    (\<forall>(sid, r) \<in> set rs. subs_get ss sid = Some r)"
  using assms
proof (induction sids arbitrary: ss rs ss')
  case Nil
  then show ?case by (simp add: restrict_map_def fun_eq_iff)
next
  case (Cons sid sids)
  note ok = subs_reg.inv_delete [OF Cons.prems(1), of sid]
  obtain rs1 ss1 where t: "take_subscriptions sids (subs_remove sid ss) = (rs1, ss1)"
    by (cases "take_subscriptions sids (subs_remove sid ss)")
  have g: "subs_get (subs_remove sid ss) = (subs_get ss)(sid := None)"
    by (auto simp: fun_eq_iff subs_reg.lookup_delete [OF Cons.prems(1)])
  have "distinct sids" using Cons.prems(2) by simp
  note ih = Cons.IH [OF ok this t, unfolded g]
  have r: "(subs_get ss)(sid := None) |` (- set sids) = subs_get ss |` (- set (sid # sids))"
    by (auto simp: restrict_map_def fun_eq_iff)
  have "dom ((subs_get ss)(sid := None)) = dom (subs_get ss) - {sid}" by auto
  then have keys: "fst ` set rs1 = set sids \<inter> (dom (subs_get ss) - {sid})" "distinct (map fst rs1)"
    using ih by metis+
  have m: "\<forall>(s, r) \<in> set rs1. subs_get ss s = Some r"
    using ih by (auto split: if_splits)
  have g1: "subs_ok ss1" "subs_get ss1 = subs_get ss |` (- set (sid # sids))"
    using ih unfolding r by blast+
  show ?case
  proof (cases "subs_get ss sid")
    case None
    then have "rs = rs1" "ss' = ss1" using Cons.prems(3) t by simp_all
    moreover have "set sids \<inter> (dom (subs_get ss) - {sid}) = set (sid # sids) \<inter> dom (subs_get ss)"
      using None by auto
    ultimately show ?thesis using g1 keys m by simp
  next
    case (Some r)
    then have "rs = (sid, r) # rs1" "ss' = ss1" using Cons.prems(3) t by simp_all
    moreover have "insert sid (set sids \<inter> (dom (subs_get ss) - {sid})) = set (sid # sids) \<inter> dom (subs_get ss)"
      using Some by auto
    ultimately show ?thesis using g1 keys m Some by simp
  qed
qed

lemma removal_inv:
  assumes inv: "routing_inv E b" and S: "sub_of b' = sub_of b |` (- X)" and "subs_ok (subscriptions b')"
    and "topics_ok E (sub_of b') b'" and dom: "\<And>n. get_topic E b' n = None \<longleftrightarrow> get_topic E b n = None"
    and same: "next_subscription_id b' = next_subscription_id b" "subscribers b' = subscribers b"
    and w: "wildcard_subs b' = filter (\<lambda>(_, sid). sid \<notin> X) (wildcard_subs b)"
      "wildcard_subs_len b' = of_nat (length (wildcard_subs b'))"
    and "conns_ok (sub_of b') (connection_subs b')"
  shows "routing_inv E b'"
proof -
  note D = routing_invD [OF inv]
  have "refs_ok E b'"
    using D(3) dom unfolding refs_ok_def S same restrict_map_def by (simp split: if_splits)
  moreover have "wildcards_ok (sub_of b') (wildcard_subs b')"
    unfolding S w by (rule wildcards_ok_filter [OF D(5)])
  moreover have "length (wildcard_subs b') \<le> length (subscribers b')"
    using D(7) unfolding w same by (meson le_trans length_filter_le)
  ultimately show ?thesis
    using assms D(4) unfolding routing_inv_def by simp
qed

lemma conns_split:
  "hm_ok cs \<Longrightarrow> hm_get cs c = Some ss \<Longrightarrow>
     mset (concat (map snd cs)) = mset ss + mset (concat (map snd (hm_remove c cs)))"
  by (induction cs) (auto split: if_splits dest: hm_get_Some_key)

lemma conns_okD:
  assumes "conns_ok S cs" "hm_get cs c = Some ss"
  shows "ss \<noteq> []" "set ss \<subseteq> dom S" "distinct ss"
    "\<And>c' ss'. (c', ss') \<in> set (hm_remove c cs) \<Longrightarrow> set ss \<inter> set ss' = {}"
    "distinct (concat (map snd (hm_remove c cs)))"
proof -
  have hm: "hm_ok cs" and d: "distinct (concat (map snd cs))"
    using assms(1) unfolding conns_ok_def by blast+
  have m: "(c, ss) \<in> set cs" by (rule map_of_SomeD [OF assms(2)])
  show "ss \<noteq> []" "set ss \<subseteq> dom S" using assms(1) m unfolding conns_ok_def by blast+
  have "mset (concat (map snd cs)) = mset (ss @ concat (map snd (hm_remove c cs)))"
    using conns_split [OF hm assms(2)] by simp
  then have d': "distinct (ss @ concat (map snd (hm_remove c cs)))"
    using d mset_eq_imp_distinct_iff by blast
  then show "distinct ss" "distinct (concat (map snd (hm_remove c cs)))" by simp_all
  show "set ss \<inter> set ss' = {}" if "(c', ss') \<in> set (hm_remove c cs)" for c' ss'
  proof -
    have "set ss' \<subseteq> set (concat (map snd (hm_remove c cs)))" using that by force
    then show ?thesis using d' by auto
  qed
qed

lemma conns_ok_remove:
  assumes ok: "conns_ok S cs" and "hm_get cs c = Some ss"
  shows "conns_ok (S |` (- set ss)) (hm_remove c cs)"
proof -
  have hm: "hm_ok cs" using ok by (simp add: conns_ok_def)
  have sub: "x \<in> set cs" if "x \<in> set (hm_remove c cs)" for x
    using that by (auto simp: AList.delete_eq)
  have "ss' \<noteq> [] \<and> set ss' \<subseteq> dom (S |` (- set ss))" if "(c', ss') \<in> set (hm_remove c cs)" for c' ss'
  proof -
    have "ss' \<noteq> []" "set ss' \<subseteq> dom S" using ok sub [OF that] unfolding conns_ok_def by blast+
    then show ?thesis using conns_okD(4) [OF assms that] by auto
  qed
  then show ?thesis
    using hm_ok_remove [OF hm] conns_okD(5) [OF assms] unfolding conns_ok_def by blast
qed

lemma take_subscriptionsD:
  assumes "subs_ok ss" and "distinct sids" and "take_subscriptions sids ss = (rs, ss')"
  shows "subs_ok ss'" "subs_get ss' = subs_get ss |` (- set sids)"
    "fst ` set rs = set sids \<inter> dom (subs_get ss)" "distinct (map fst rs)"
    "\<forall>(sid, r) \<in> set rs. subs_get ss sid = Some r"
  by (insert take_subscriptions_spec [OF assms], (elim conjE, assumption)+)

text \<open>The subscriptions made by a connection.\<close>
definition conn_ids :: "('ch, 'w) broker \<Rightarrow> u64 \<Rightarrow> u64 list" where
  "conn_ids b c = (case hm_get (connection_subs b) c of Some ss \<Rightarrow> ss | None \<Rightarrow> [])"

lemma unsubscribe_connection_spec:
  assumes inv: "routing_inv E b" and b'_def: "b' = unsubscribe_connection E c b"
  shows "routing_inv E b'" and "sub_of b' = sub_of b |` (- set (conn_ids b c))"
    and "connection_subs b' = hm_remove c (connection_subs b)" and "subscribers b' = subscribers b"
proof -
  note D = routing_invD [OF inv]
  have "routing_inv E b' \<and> sub_of b' = sub_of b |` (- set (conn_ids b c)) \<and>
    connection_subs b' = hm_remove c (connection_subs b) \<and> subscribers b' = subscribers b"
  proof (cases "hm_get (connection_subs b) c")
    case None
    then have "b' = b\<lparr>connection_subs := hm_remove c (connection_subs b)\<rparr>"
      by (simp add: b'_def unsubscribe_connection_def)
    moreover have "hm_remove c (connection_subs b) = connection_subs b"
      using None by (intro delete_id) (simp only: hm_get_None_iff not_False_eq_True)
    ultimately show ?thesis using inv None by (simp add: conn_ids_def restrict_map_def fun_eq_iff)
  next
    case (Some ss)
    note C = conns_okD [OF D(8) Some]
    obtain rs sh where t: "take_subscriptions ss (subscriptions b) = (rs, sh)"
      by (cases "take_subscriptions ss (subscriptions b)")
    note T = take_subscriptionsD [OF D(1) C(3) t]
    have keys: "fst ` set rs = set ss" using T(3) C(2) by (simp only: Int_absorb2)
    with C(1) have ne: "rs \<noteq> []" by auto
    let ?b0 = "b\<lparr>connection_subs := hm_remove c (connection_subs b), subscriptions := sh\<rparr>"
    let ?wcs = "filter (\<lambda>(_, sid). sid \<notin> fst ` set rs) (wildcard_subs b)"
    have b': "b' = (detach_all E rs ?b0)\<lparr>wildcard_subs := ?wcs, wildcard_subs_len := of_nat (length ?wcs)\<rparr>"
      using C(1) ne by (simp add: b'_def unsubscribe_connection_def Some t Let_def flip: detach_all_def)
    have "topics_ok E (sub_of b) ?b0" using D(2) by (simp add: topics_ok_def)
    then have det: "topics_ok E (sub_of b |` (- set ss)) (detach_all E rs ?b0) \<and>
        (\<forall>n. get_topic E (detach_all E rs ?b0) n = None \<longleftrightarrow> get_topic E b n = None)"
      using detach_all_ok [OF _ T(5,4), of E ?b0] unfolding keys by simp
    have S: "sub_of b' = sub_of b |` (- set ss)" using T(2) by (simp add: b')
    have "routing_inv E b'"
    proof (rule removal_inv [OF inv S])
      show "topics_ok E (sub_of b') b'" using det unfolding S by (simp add: b' topics_ok_def)
      show "conns_ok (sub_of b') (connection_subs b')"
        unfolding S using conns_ok_remove [OF D(8) Some] by (simp add: b')
    qed (use T(1) det keys in \<open>simp_all add: b'\<close>)
    then show ?thesis using S Some by (simp add: conn_ids_def b')
  qed
  then show "routing_inv E b'" "sub_of b' = sub_of b |` (- set (conn_ids b c))"
    "connection_subs b' = hm_remove c (connection_subs b)" "subscribers b' = subscribers b" by blast+
qed

lemma conns_ok_filter:
  assumes "conns_ok S cs"
  shows "conns_ok (S(sid := None))
    (filter (\<lambda>(_, subs). subs \<noteq> []) (map (\<lambda>(c, subs). (c, filter (\<lambda>s. s \<noteq> sid) subs)) cs))"
    (is "conns_ok _ (filter ?ne (map ?f cs))")
proof -
  have "concat (map snd (filter ?ne (map ?f cs))) = filter (\<lambda>s. s \<noteq> sid) (concat (map snd cs))" for cs
    by (induction cs) auto
  then have "distinct (concat (map snd (filter ?ne (map ?f cs))))"
    using assms by (simp add: conns_ok_def)
  moreover have "map fst (filter ?ne (map ?f cs)) = map fst (filter (\<lambda>x. ?ne (?f x)) cs)"
    by (simp add: filter_map comp_def case_prod_beta)
  then have "hm_ok (filter ?ne (map ?f cs))"
    using assms by (simp add: conns_ok_def distinct_map_filter)
  moreover have "\<forall>(c, ss) \<in> set (filter ?ne (map ?f cs)). ss \<noteq> [] \<and> set ss \<subseteq> dom (S(sid := None))"
    using assms by (fastforce simp: conns_ok_def)
  ultimately show ?thesis
    unfolding conns_ok_def by blast
qed

lemma unsubscribe_one_spec:
  assumes inv: "routing_inv E b" and b': "b' = snd (unsubscribe_one E sid b)"
  shows "routing_inv E b'" and "sub_of b' = (sub_of b)(sid := None)" and "subscribers b' = subscribers b"
proof -
  note D = routing_invD [OF inv]
  have S: "sub_of b' = sub_of b |` (- {sid})"
    using subs_reg.lookup_delete [OF D(1)]
    by (auto simp: fun_eq_iff b' unsubscribe_one_def Let_def restrict_map_def split: option.splits)
  then show "sub_of b' = (sub_of b)(sid := None)" by (simp add: restrict_complement_singleton_eq)
  show "subscribers b' = subscribers b"
    by (simp add: b' unsubscribe_one_def Let_def split: option.splits)
  note ok = subs_reg.inv_delete [OF D(1), of sid]
  show "routing_inv E b'"
  proof (cases "sub_of b sid")
    case None
    then have "b' = b\<lparr>subscriptions := subs_remove sid (subscriptions b)\<rparr>" and "sub_of b' = sub_of b"
      using S by (auto simp: b' unsubscribe_one_def restrict_map_def fun_eq_iff)
    then show ?thesis
      using inv ok by (simp add: routing_inv_def topics_ok_def refs_ok_def)
  next
    case (Some r)
    note f = b' [unfolded unsubscribe_one_def Some option.case Let_def snd_conv]
    have S': "sub_of b' = (sub_of b)(sid := None)" using S by (simp add: restrict_complement_singleton_eq)
    have ok': "topics_ok E (sub_of b) (b\<lparr>subscriptions := subs_remove sid (subscriptions b)\<rparr>)"
      using D(2) by (simp add: topics_ok_def)
    show ?thesis
    proof (rule removal_inv [OF inv S])
      show "topics_ok E (sub_of b') b'"
        unfolding S' using topics_ok_detach [OF ok' Some] by (simp add: f topics_ok_def)
      show "get_topic E b' n = None \<longleftrightarrow> get_topic E b n = None" for n
        using update_topic_dom [OF topics_okD(1) [OF ok']] by (simp add: f)
      show "conns_ok (sub_of b') (connection_subs b')"
        unfolding S' using conns_ok_filter [OF D(8)] by (simp add: f)
    qed (simp_all add: f ok)
  qed
qed

section \<open>Operations that keep the routes\<close>

text \<open>What publishing, polling, acknowledging and maintenance leave as it is.\<close>
definition same_routes :: "'ch env \<Rightarrow> ('ch, 'w) broker \<Rightarrow> ('ch, 'w) broker \<Rightarrow> bool" where
  "same_routes E b b' \<longleftrightarrow>
     config b' = config b \<and> subscriptions b' = subscriptions b \<and>
     connection_subs b' = connection_subs b \<and>
     next_subscription_id b' = next_subscription_id b \<and> wildcard_subs b' = wildcard_subs b \<and>
     wildcard_subs_len b' = wildcard_subs_len b \<and> length (subscribers b') = length (subscribers b) \<and>
     length (slots b') = length (slots b) \<and>
     (\<forall>S. topics_ok E S b \<longrightarrow> topics_ok E S b' \<and>
        (\<forall>n. get_topic E b' n = None \<longleftrightarrow> get_topic E b n = None))"

lemma same_routes_refl [simp]: "same_routes E b b"
  by (simp add: same_routes_def)

lemma same_routes_trans [trans]: "same_routes E a b \<Longrightarrow> same_routes E b c \<Longrightarrow> same_routes E a c"
  unfolding same_routes_def by auto

lemma same_routes_inv: "same_routes E b b' \<Longrightarrow> routing_inv E b \<Longrightarrow> routing_inv E b'"
  unfolding same_routes_def routing_inv_def refs_ok_def by metis

lemma same_routes_fields [simp]:
  "same_routes E b (b\<lparr>publish_count := c\<rparr>)" "same_routes E b (b\<lparr>max_wal_id_observed := m\<rparr>)"
  "same_routes E b (b\<lparr>messages_published_total := c\<rparr>)" "same_routes E b (b\<lparr>messages_delivered_total := c\<rparr>)"
  "same_routes E b (b\<lparr>push_dropped_total := d\<rparr>)" "same_routes E b (b\<lparr>channels := chs\<rparr>)"
  "same_routes E b (b\<lparr>slots := (slots b)[i := s]\<rparr>)" "same_routes E b (b\<lparr>wal := w\<rparr>)"
  "same_routes E b (b\<lparr>ack_cursors := cs\<rparr>)" "same_routes E b (b\<lparr>drain_notified := k\<rparr>)"
  "same_routes E b (b\<lparr>spawned_appends := as\<rparr>)" "same_routes E b (update_subscriber a f b)"
  "same_routes E b (b\<lparr>shutting_down := x\<rparr>)" "same_routes E b (b\<lparr>ready := x\<rparr>)"
  by (simp_all add: same_routes_def topics_ok_def update_subscriber_def)

lemma same_routes_update_topic:
  assumes "\<And>S t. topic_ok S n t \<Longrightarrow> topic_ok S n (f t)"
  shows "same_routes E b (update_topic E n f b)"
proof -
  have "topics_ok E S (update_topic E n f b)" if "topics_ok E S b" for S
    by (rule topics_ok_update [OF that]) (auto intro: assms)
  then show ?thesis
    by (auto simp: same_routes_def update_topic_dom dest: topics_okD(1))
qed

lemma pick_members_alt:
  "pick_members E key groups =
     (List.map_filter (\<lambda>(_, cg). fst (pick_member E key cg)) groups,
      map (\<lambda>(g, cg). (g, snd (pick_member E key cg))) groups)"
  by (induction groups) (auto simp: map_filter_simps split: prod.splits option.splits)

lemma pick_member_members [simp]: "cg_members (snd (pick_member E key cg)) = cg_members cg"
  by (simp add: pick_member_def Let_def split: option.splits)

lemma hm_get_map: "hm_get (map (\<lambda>(k, v). (k, f v)) m) k = map_option f (hm_get m k)"
  by (induction m) auto

lemma topic_receivers_ok: "topic_ok S n t \<Longrightarrow> topic_ok S n (snd (topic_receivers E ticket key t))"
proof -
  assume t: "topic_ok S n t"
  let ?t = "snd (topic_receivers E ticket key t)"
  have f: "topic_subscribers ?t = topic_subscribers t"
    "topic_groups ?t = map (\<lambda>(g, cg). (g, snd (pick_member E key cg))) (topic_groups t)"
    "topic_published_total ?t = snd (counter_add ticket 1 (topic_published_total t))"
    "topic_delivered_total ?t = topic_delivered_total t"
    by (simp_all add: topic_receivers_def pick_members_alt)
  have m: "members_of ?t g = members_of t g" for g
    by (simp add: members_of_def f hm_get_map split: option.splits)
  have "map fst (topic_groups ?t) = map fst (topic_groups t)"
    by (simp add: f comp_def case_prod_beta)
  then show ?thesis
    using t unfolding topic_ok_def m f(1,3,4) by simp
qed

lemma snapshot_alt:
  "snapshot E ticket name topic_opt key b =
     ((case Option.bind topic_opt (get_topic E b) of
         Some t \<Rightarrow> fst (topic_receivers E ticket key t) | None \<Rightarrow> []) @
      (if wildcard_subs_len b > 0 then wildcard_receivers b name (wildcard_subs b) else []),
      case topic_opt of
        Some n \<Rightarrow> update_topic E n (\<lambda>t. snd (topic_receivers E ticket key t)) b | None \<Rightarrow> b)"
proof -
  have w: "wildcard_receivers (b\<lparr>topics := ts\<rparr>) name wcs = wildcard_receivers b name wcs" for ts wcs
    by (induction wcs) (auto split: option.splits)
  show ?thesis
    by (cases topic_opt) (auto simp: snapshot_def Let_def update_topic_def w split: prod.splits option.splits)
qed

lemma snapshot_routes: "same_routes E b (snd (snapshot E ticket name topic_opt key b))"
  by (simp add: snapshot_alt same_routes_update_topic topic_receivers_ok split: option.splits)

lemma next_push_tag_routes: "next_push_tag a b = (tag, b') \<Longrightarrow> same_routes E b b'"
  by (auto simp: next_push_tag_def Let_def)

lemma deliver_one_routes:
  "deliver_one E now name payload qos wid ttl sid a b = (d, b') \<Longrightarrow> same_routes E b b'"
proof -
  assume d: "deliver_one E now name payload qos wid ttl sid a b = (d, b')"
  obtain tag b1 where t: "next_push_tag a b = (tag, b1)" by (cases "next_push_tag a b")
  note r1 = next_push_tag_routes [OF t, of E]
  let ?b2 = "if qos = AtLeastOnce then register_inflight now a tag payload wid ttl b1 else b1"
  have "same_routes E b1 ?b2" by (simp add: register_inflight_def)
  then have r2: "same_routes E b ?b2" using r1 same_routes_trans by blast
  have drop: "same_routes E b2 (if qos = AtLeastOnce then cancel_inflight a tag (b2\<lparr>push_dropped_total := k\<rparr>)
      else b2\<lparr>push_dropped_total := k\<rparr>)" for b2 k
    using same_routes_fields(5) [of E b2 k]
    by (auto simp: cancel_inflight_def intro: same_routes_trans [OF _ same_routes_fields(12)])
  have slot: "same_routes E b2 (write_slot slot enc qos tg name payload b2)" for slot enc tg b2
    by (simp add: write_slot_def Let_def)
  note step = same_routes_trans [OF r2]
  show ?thesis
    using d step [OF drop] step [OF slot] step [OF same_routes_fields(6)]
    by (auto simp: deliver_one_def deliver_slot_def deliver_channel_def t Let_def
        split: option.splits if_splits)
qed

lemma deliver_all_routes:
  "deliver_all E now name payload qos wid ttl rs drops n b = (drops', n', b') \<Longrightarrow> same_routes E b b'"
proof (induction rs arbitrary: drops n b)
  case (Cons x rs)
  obtain sid a where x: "x = (sid, a)" by (cases x)
  obtain d b1 where d: "deliver_one E now name payload qos wid ttl sid a b = (d, b1)"
    by (cases "deliver_one E now name payload qos wid ttl sid a b")
  have "same_routes E b1 b'"
    using Cons by (cases d) (auto simp: x d)
  then show ?case using deliver_one_routes [OF d] same_routes_trans by blast
qed simp

lemma members_of_delivered [simp]: "members_of (t\<lparr>topic_delivered_total := c\<rparr>) g = members_of t g"
  by (simp add: members_of_def)

lemma count_delivered_routes: "same_routes E b (count_delivered E ticket topic_opt n b)"
proof -
  have "same_routes E b (update_topic E m (\<lambda>t. t\<lparr>topic_delivered_total :=
      snd (counter_add ticket n (topic_delivered_total t))\<rparr>) b)" for m
    by (rule same_routes_update_topic) (simp add: topic_ok_def)
  then show ?thesis
    by (auto simp: count_delivered_def Let_def split: option.splits
        intro: same_routes_trans [OF _ same_routes_fields(4)])
qed

lemma fanout_routes:
  assumes "fanout E now ticket name topic_opt payload qos wid ttl key b = (drops, n, b')"
  shows "same_routes E b b'"
proof -
  let ?b0 = "b\<lparr>publish_count := snd (counter_add ticket 1 (publish_count b))\<rparr>"
  let ?b1 = "case wid of Some w \<Rightarrow> ?b0\<lparr>max_wal_id_observed := max w (max_wal_id_observed ?b0)\<rparr> | None \<Rightarrow> ?b0"
  let ?b2 = "?b1\<lparr>messages_published_total := snd (counter_add ticket 1 (messages_published_total ?b1))\<rparr>"
  have "same_routes E b ?b0" by simp
  also have "same_routes E ?b0 ?b1" by (simp split: option.splits)
  also have "same_routes E ?b1 ?b2" by simp
  finally have r: "same_routes E b ?b2" .
  have "same_routes E ?b2 b'"
    using assms same_routes_trans [OF snapshot_routes deliver_all_routes]
    unfolding fanout_def Let_def case_prod_beta by blast
  with r show ?thesis by (rule same_routes_trans)
qed

lemma unsubscribe_fold_spec:
  "routing_inv E b \<Longrightarrow> b' = fold (\<lambda>sid b. snd (unsubscribe_one E sid b)) drops b \<Longrightarrow>
     routing_inv E b' \<and> sub_of b' = sub_of b |` (- set drops) \<and> subscribers b' = subscribers b"
proof (induction drops arbitrary: b b')
  case (Cons sid drops)
  note u = unsubscribe_one_spec [OF Cons.prems(1) refl, of sid]
  have eq: "(sub_of b)(sid := None) |` (- set drops) = sub_of b |` (- set (sid # drops))"
    by (auto simp: restrict_map_def fun_eq_iff)
  show ?case
    using Cons.IH [OF u(1) refl, unfolded u(2,3) eq] Cons.prems(2) by (simp only: fold_simps)
qed (simp add: restrict_map_def fun_eq_iff)

lemma publish_inner_inv:
  assumes "routing_inv E b"
  shows "routing_inv E (publish_inner E now ticket name pre payload qos wid ttl key b)"
proof -
  obtain drops n b1 where f: "fanout E now ticket name (topic_handle E name pre b) payload qos wid ttl key b
      = (drops, n, b1)" by (metis prod_cases3)
  have "routing_inv E (count_delivered E ticket t n b1)" for t
    by (rule same_routes_inv [OF count_delivered_routes same_routes_inv [OF fanout_routes [OF f] assms]])
  then show ?thesis
    using assms unsubscribe_fold_spec by (fastforce simp: publish_inner_def f)
qed

end
