(* ===== verification/Recovery.thy ===== *)
theory Recovery
  imports Publish
begin

text \<open>
  Recovery of \<open>Broker\<close> from the write-ahead log: \<open>replay_from_wal_with_checkpoint\<close>,
  which rebuilds the acknowledgement cursors and delivers again what they do not
  cover, and \<open>replay_to_subscriber\<close>, the offset replay of a single subscription.
  The log's \<open>iterate_from\<close> is an argument. The checkpoint file is a value: reading
  it gives an I/O error, or its bytes.
\<close>

section \<open>Replay from the log\<close>

text \<open>The first pass: cursors raised by one acknowledgement record.\<close>
definition note_ack :: "wal_record \<Rightarrow> cursor_map \<Rightarrow> cursor_map" where
  "note_ack record cs =
     (case wal_entry_decode (rec_payload record) of
        Ok (AckEntry ack) \<Rightarrow>
          raise_cursor (wa_client_id ack, wa_topic ack) (wa_acked_wal_id ack) cs
      | _ \<Rightarrow> cs)"

text \<open>One subscriber in the second pass.\<close>
definition replay_one ::
  "instant \<Rightarrow> cursor_map \<Rightarrow> u64 \<Rightarrow> wal_message_record \<Rightarrow> u64 \<times> nat \<Rightarrow> ('ch, 'w) broker \<Rightarrow> ('ch, 'w) broker" where
  "replay_one now cs wal_id msg receiver b =
     (let a = snd receiver;
          s = subscribers b ! a;
          acked_up_to = (case hm_get cs (sub_client_id s, wm_topic msg) of Some c \<Rightarrow> c | None \<Rightarrow> 0);
          ttl = Some (cfg_message_ttl (config b))
      in if wal_id \<le> acked_up_to then b
         else case sub_push_slot s of
           Some (slot, encoder) \<Rightarrow>
             (let (tag, b) = next_push_tag a b;
                  b = (if wm_qos msg = AtLeastOnce
                       then register_inflight now a tag (wm_payload msg) (Some wal_id) ttl b else b)
              in write_slot slot encoder (wm_qos msg) (wire_tag (wm_qos msg) tag) (wm_topic msg)
                   (wm_payload msg) b)
         | None \<Rightarrow> update_subscriber a
             (\<lambda>s. s\<lparr>sub_queue := enqueue now (wm_payload msg) (wm_qos msg) (Some wal_id) ttl (sub_queue s)\<rparr>) b)"

text \<open>The second pass on one record: messages go to the topic's broadcast subscribers.\<close>
definition replay_record ::
  "'ch env \<Rightarrow> instant \<Rightarrow> cursor_map \<Rightarrow> wal_record \<Rightarrow> ('ch, 'w) broker \<Rightarrow> ('ch, 'w) broker" where
  "replay_record E now cs record b =
     (case wal_entry_decode (rec_payload record) of
        Ok (MessageEntry msg) \<Rightarrow>
          (case get_topic E b (wm_topic msg) of
             Some t \<Rightarrow> fold (replay_one now cs (rec_id record) msg) (topic_subscribers t) b
           | None \<Rightarrow> b)
      | _ \<Rightarrow> b)"

definition replay_from_wal_with_checkpoint ::
  "(u64 \<Rightarrow> 'w \<Rightarrow> (wal_error, wal_record list) result) \<Rightarrow> 'ch env \<Rightarrow> instant \<Rightarrow>
   checkpoint_snapshot option \<Rightarrow> ('ch, 'w) broker \<Rightarrow> (wal_error, unit) result \<times> ('ch, 'w) broker" where
  "replay_from_wal_with_checkpoint iterate_from E now checkpoint b =
     (case wal b of
        None \<Rightarrow> (Ok (), b)
      | Some w \<Rightarrow>
          (let (cs, start_from) =
                 (case checkpoint of
                    Some cp \<Rightarrow> (cursors cp, saturating_inc (snapshot_id cp))
                  | None \<Rightarrow> ([], 1))
           in case iterate_from start_from w of
                Ok records \<Rightarrow>
                  (let cs = fold note_ack records cs;
                       b = fold (replay_record E now cs) records b;
                       live = fold (\<lambda>(key, wal_id). raise_cursor key wal_id) cs (ack_cursors b)
                   in (Ok (), b\<lparr>ack_cursors := live\<rparr>))
              | Err e \<Rightarrow> (Err e, b)
              | Panic \<Rightarrow> (Panic, b)))"

definition replay_from_wal ::
  "(u64 \<Rightarrow> 'w \<Rightarrow> (wal_error, wal_record list) result) \<Rightarrow> 'ch env \<Rightarrow> instant \<Rightarrow>
   ('ch, 'w) broker \<Rightarrow> (wal_error, unit) result \<times> ('ch, 'w) broker" where
  "replay_from_wal iterate_from E now = replay_from_wal_with_checkpoint iterate_from E now None"

section \<open>Offset replay\<close>

text \<open>One message of an offset replay: the number delivered and the broker.\<close>
definition replay_to_one ::
  "'ch env \<Rightarrow> instant \<Rightarrow> u64 \<Rightarrow> nat \<Rightarrow> rstring \<Rightarrow> u64 \<Rightarrow> wal_message_record \<Rightarrow>
   u64 \<times> ('ch, 'w) broker \<Rightarrow> u64 \<times> ('ch, 'w) broker" where
  "replay_to_one E now sub_id a topic wal_id msg nb =
     (let (delivered, b) = nb;
          s = subscribers b ! a; qos = wm_qos msg; payload = wm_payload msg;
          ttl = Some (cfg_message_ttl (config b))
      in case sub_push_slot s of
           Some (slot, encoder) \<Rightarrow>
             (let (tag, b) = next_push_tag a b;
                  b = (if qos = AtLeastOnce
                       then register_inflight now a tag payload (Some wal_id) ttl b else b)
              in if length (slot_buf (slots b ! slot)) \<ge> cfg_slow_consumer_buffer_bytes (config b)
                 then (delivered, if qos = AtLeastOnce then cancel_inflight a tag b else b)
                 else (saturating_inc delivered,
                       write_slot slot encoder qos (wire_tag qos tag) topic payload b))
         | None \<Rightarrow>
             (case sub_push_sender s of
                Some ch \<Rightarrow>
                  (let (tag, b) = next_push_tag a b;
                       b = (if qos = AtLeastOnce
                            then register_inflight now a tag payload (Some wal_id) ttl b else b);
                       handle = \<lparr>dh_subscription_id = sub_id, dh_topic = topic, dh_payload = payload,
                                 dh_qos = qos, dh_delivery_tag = wire_tag qos tag\<rparr>
                   in case env_try_send E (channels b ! ch) handle of
                        None \<Rightarrow> (delivered, if qos = AtLeastOnce then cancel_inflight a tag b else b)
                      | Some c \<Rightarrow> (saturating_inc delivered, b\<lparr>channels := (channels b)[ch := c]\<rparr>))
              | None \<Rightarrow> (delivered, b)))"

definition replay_to_record ::
  "'ch env \<Rightarrow> instant \<Rightarrow> u64 \<Rightarrow> nat \<Rightarrow> rstring \<Rightarrow> wal_record \<Rightarrow>
   u64 \<times> ('ch, 'w) broker \<Rightarrow> u64 \<times> ('ch, 'w) broker" where
  "replay_to_record E now sub_id a topic record nb =
     (case wal_entry_decode (rec_payload record) of
        Ok (MessageEntry msg) \<Rightarrow>
          (if wm_topic msg \<noteq> topic then nb
           else replay_to_one E now sub_id a topic (rec_id record) msg nb)
      | _ \<Rightarrow> nb)"

definition replay_to_subscriber ::
  "(u64 \<Rightarrow> 'w \<Rightarrow> (wal_error, wal_record list) result) \<Rightarrow> 'ch env \<Rightarrow> instant \<Rightarrow> u64 \<Rightarrow> u64 \<Rightarrow>
   ('ch, 'w) broker \<Rightarrow> (wal_error, u64) result \<times> ('ch, 'w) broker" where
  "replay_to_subscriber iterate_from E now sub_id from_offset b =
     (case wal b of
        None \<Rightarrow> (Ok 0, b)
      | Some w \<Rightarrow>
          (case subs_get (subscriptions b) sub_id of
             None \<Rightarrow> (Ok 0, b)
           | Some r \<Rightarrow>
               (let start_id = (if from_offset = 0 then 1 else from_offset)
                in case iterate_from start_id w of
                     Ok records \<Rightarrow>
                       (let (delivered, b) =
                              fold (replay_to_record E now sub_id (sr_subscriber r) (sr_topic r))
                                records (0, b)
                        in (Ok delivered, b))
                   | Err e \<Rightarrow> (Err e, b)
                   | Panic \<Rightarrow> (Panic, b))))"

section \<open>Checkpoint files\<close>

text \<open>
  What the file system does in a write: an error of \<open>create_dir_all\<close>, an error of
  \<open>write\<close> after some bytes, an error of \<open>rename\<close>.
\<close>
record checkpoint_io =
  ck_mkdir :: "io_error option"
  ck_write :: "(nat \<times> io_error) option"
  ck_rename :: "io_error option"

text \<open>The checkpoint file and its temporary file, when they exist.\<close>
record checkpoint_files =
  ck_file :: "bytes option"
  ck_tmp :: "bytes option"

definition write_checkpoint_to ::
  "(bytes \<Rightarrow> u32) \<Rightarrow> checkpoint_io \<Rightarrow> ('ch, 'w) broker \<Rightarrow> checkpoint_files \<Rightarrow>
   (wal_error, unit) result \<times> checkpoint_files" where
  "write_checkpoint_to crc32 io b fs =
     (case checkpoint_encode crc32 (current_snapshot b) of
        Ok bs \<Rightarrow>
          (case ck_mkdir io of
             Some e \<Rightarrow> (Err (WalIo e), fs)
           | None \<Rightarrow>
               (case ck_write io of
                  Some (n, e) \<Rightarrow> (Err (WalIo e), fs\<lparr>ck_tmp := Some (take n bs)\<rparr>)
                | None \<Rightarrow>
                    (let fs = fs\<lparr>ck_tmp := Some bs\<rparr>
                     in case ck_rename io of
                          Some e \<Rightarrow> (Err (WalIo e), fs)
                        | None \<Rightarrow> (Ok (), fs\<lparr>ck_file := ck_tmp fs, ck_tmp := None\<rparr>))))
      | Err e \<Rightarrow> (Err e, fs)
      | Panic \<Rightarrow> (Panic, fs))"

text \<open>\<open>read\<close> is the outcome of reading the file.\<close>
definition load_checkpoint_from ::
  "(bytes \<Rightarrow> u32) \<Rightarrow> (io_error, bytes) result \<Rightarrow> (wal_error, checkpoint_snapshot option) result" where
  "load_checkpoint_from crc32 read =
     (case read of
        Ok bs \<Rightarrow> and_then (checkpoint_decode crc32 bs) (\<lambda>cp. Ok (Some cp))
      | Err e \<Rightarrow> (if e = NotFound then Ok None else Err (WalIo e))
      | Panic \<Rightarrow> Panic)"

end
