(* ===== verification/Broker_Props.thy ===== *)
theory Broker_Props
  imports Broker_Inv Recovery
begin

text \<open>
  What the broker promises its clients: the reachable states satisfy the routing
  invariant; a publish reaches exactly the matching subscriptions and one member of
  every consumer group; a disconnect removes a connection's subscriptions from every
  structure; slow consumers are bounded; acknowledgement cursors only grow.
\<close>

section \<open>Reachable states\<close>

text \<open>The operations of the broker, at any time, by any thread and with any log.\<close>
inductive broker_step :: "'ch env \<Rightarrow> ('ch, 'w) broker \<Rightarrow> ('ch, 'w) broker \<Rightarrow> bool" for E where
  step_subscribe: "subscribe_inner_grouped E cid topic qos conn sender slot grp b = (sid, b') \<Longrightarrow> broker_step E b b'"
| step_pattern: "subscribe_pattern E cid p qos b = (sid, b') \<Longrightarrow> broker_step E b b'"
| step_pattern_slot: "subscribe_pattern_with_slot E cid p qos conn slot enc b = (sid, b') \<Longrightarrow> broker_step E b b'"
| step_disconnect: "broker_step E b (unsubscribe_connection E c b)"
| step_publish: "broker_step E b (publish_inner E now ticket name pre payload qos None ttl key b)"
| step_publish_durable: "publish_durable app E now ticket name payload qos b = (res, b') \<Longrightarrow> broker_step E b b'"
| step_poll: "poll now sid b = (m, b') \<Longrightarrow> broker_step E b b'"
| step_ack: "broker_ack sid tag b = (ok, b') \<Longrightarrow> broker_step E b b'"
| step_maintenance: "broker_step E b (maintenance_tick E now clock ticket b)"
| step_replay: "replay_from_wal_with_checkpoint iter E now cp b = (res, b') \<Longrightarrow> broker_step E b b'"
| step_replay_to: "replay_to_subscriber iter E now sid off b = (res', b') \<Longrightarrow> broker_step E b b'"
| step_shutdown: "broker_step E b (begin_shutdown b)"
| step_ready: "broker_step E b (mark_ready b)"
| step_writer: "broker_step E b (b\<lparr>slots := (slots b)[i := s]\<rparr>)"

inductive_cases broker_stepE: "broker_step E b b'"

section \<open>Operations that keep the routes, continued\<close>

lemma poll_routes: "poll now sid b = (m, b') \<Longrightarrow> same_routes E b b'"
  by (auto simp: poll_def Let_def split: option.splits prod.splits)

lemma ack_routes:
  assumes "broker_ack sid tag b = (ok, b')"
  shows "same_routes E b b'"
proof (cases "sub_of b sid")
  case None
  then show ?thesis using assms by (simp add: broker_ack_def)
next
  case (Some r)
  let ?a = "sr_subscriber r"
  obtain res q where q: "queue_ack tag (sub_queue (subscribers b ! ?a)) = (res, q)"
    by (cases "queue_ack tag (sub_queue (subscribers b ! ?a))")
  let ?b1 = "update_subscriber ?a (\<lambda>s. s\<lparr>sub_queue := q\<rparr>) b"
  have r1: "same_routes E b ?b1" by simp
  have r2: "same_routes E b (?b1\<lparr>ack_cursors := cs, drain_notified := k, spawned_appends := as\<rparr>)"
    "same_routes E b (?b1\<lparr>ack_cursors := cs, drain_notified := k\<rparr>)"
    "same_routes E b (?b1\<lparr>drain_notified := k\<rparr>)" for cs k as
    by (simp_all add: same_routes_def topics_ok_def update_subscriber_def)
  show ?thesis
    using assms r1 r2 by (auto simp: broker_ack_def Some q Let_def split: option.splits result.splits)
qed

lemma tick_routes: "tick_subscriptions now rs b = (ds, b') \<Longrightarrow> same_routes E b b'"
proof (induction rs arbitrary: b ds b')
  case (Cons x rs)
  obtain sid r where x: "x = (sid, r)" by (cases x)
  show ?case
    using Cons.prems Cons.IH [THEN same_routes_trans [OF same_routes_fields(12)]]
    by (auto simp: x Let_def split: prod.splits)
qed simp

lemma replay_one_routes: "same_routes E b (replay_one now cs wid msg rcv b)"
proof -
  let ?a = "snd rcv"
  obtain tag b1 where t: "next_push_tag ?a b = (tag, b1)" by (cases "next_push_tag ?a b")
  have "same_routes E b1 (register_inflight now ?a tag p w ttl b1)" for p w ttl
    by (simp add: register_inflight_def)
  note r = next_push_tag_routes [OF t] same_routes_trans [OF next_push_tag_routes [OF t] this]
  have w: "same_routes E b2 (write_slot slot enc q tg n p b2)" for slot enc q tg n p b2
    by (simp add: write_slot_def Let_def)
  show ?thesis
    using same_routes_trans [OF r(1) w] same_routes_trans [OF r(2) w]
    by (auto simp: replay_one_def Let_def t split: option.splits prod.splits)
qed

lemma fold_routes: "(\<And>x b. same_routes E b (f x b)) \<Longrightarrow> same_routes E b (fold f xs b)"
  by (induction xs arbitrary: b) (auto intro: same_routes_trans)

lemma replay_record_routes: "same_routes E b (replay_record E now cs rec b)"
  by (auto simp: replay_record_def intro: fold_routes replay_one_routes
      split: result.splits wal_entry.splits option.splits)

lemma replay_routes:
  assumes "replay_from_wal_with_checkpoint iter E now cp b = (res, b')"
  shows "same_routes E b b'"
proof -
  have "same_routes E b ((fold (replay_record E now cs) rs b)\<lparr>ack_cursors := live\<rparr>)" for cs rs live
    by (rule same_routes_trans [OF fold_routes [OF replay_record_routes] same_routes_fields(9)])
  then show ?thesis
    using assms by (auto simp: replay_from_wal_with_checkpoint_def Let_def
        split: option.splits prod.splits result.splits)
qed

lemma replay_to_one_routes: "same_routes E (snd nb) (snd (replay_to_one E now sid a topic wid msg nb))"
proof -
  obtain n b where nb: "nb = (n, b)" by (cases nb)
  obtain tag b1 where t: "next_push_tag a b = (tag, b1)" by (cases "next_push_tag a b")
  have "same_routes E b1 (register_inflight now a tag p w ttl b1)" for p w ttl
    by (simp add: register_inflight_def)
  note r = next_push_tag_routes [OF t] same_routes_trans [OF next_push_tag_routes [OF t] this]
  have w: "same_routes E b2 (write_slot slot enc q tg nm p b2)" "same_routes E b2 (cancel_inflight a tg b2)"
    for slot enc q tg nm p b2
    by (simp_all add: write_slot_def Let_def cancel_inflight_def)
  note s = r r [THEN same_routes_trans, OF w(1)] r [THEN same_routes_trans, OF w(2)]
    r [THEN same_routes_trans, OF same_routes_fields(6)]
  show ?thesis
    by (auto simp: replay_to_one_def nb t Let_def s split: option.splits prod.splits)
qed

lemma replay_to_record_routes: "same_routes E (snd nb) (snd (replay_to_record E now sid a topic rec nb))"
  by (simp add: replay_to_record_def replay_to_one_routes split: result.splits wal_entry.splits)

lemma replay_to_fold_routes:
  "same_routes E (snd nb) (snd (fold (replay_to_record E now sid a topic) rs nb))"
proof (induction rs arbitrary: nb)
  case (Cons r rs)
  show ?case
    using same_routes_trans [OF replay_to_record_routes Cons.IH [of "replay_to_record E now sid a topic r nb"]]
    by simp
qed simp

lemma replay_to_routes:
  assumes "replay_to_subscriber iter E now sid off b = (res, b')"
  shows "same_routes E b b'"
  using assms replay_to_fold_routes [of E "(0, b)"]
  by (auto simp: replay_to_subscriber_def Let_def split: option.splits result.splits prod.splits)
    (metis snd_conv)+

lemma unsubscribe_subscribers [simp]:
  "subscribers (snd (unsubscribe_one E sid b)) = subscribers b"
  "subscribers (unsubscribe_connection E c b) = subscribers b"
  by (simp_all add: unsubscribe_one_def unsubscribe_connection_def Let_def flip: detach_all_def
      split: option.splits prod.splits)

lemma unsubscribe_fold_subscribers [simp]:
  "subscribers (fold (\<lambda>sid b. snd (unsubscribe_one E sid b)) drops b) = subscribers b"
  by (induction drops arbitrary: b) auto

lemma publish_inner_length:
  "length (subscribers (publish_inner E now ticket name pre payload qos wid ttl key b)) = length (subscribers b)"
proof -
  obtain drops n b1 where f: "fanout E now ticket name (topic_handle E name pre b) payload qos wid ttl key b
      = (drops, n, b1)" by (metis prod_cases3)
  have "length (subscribers (count_delivered E ticket t n b1)) = length (subscribers b)" for t
    using same_routes_trans [OF fanout_routes [OF f] count_delivered_routes] by (simp add: same_routes_def)
  then show ?thesis by (simp add: publish_inner_def f)
qed

lemma publishes_fold:
  "routing_inv E b \<longrightarrow> routing_inv E (fold (\<lambda>(topic, payload). publish E now ticket topic payload q) ds b)"
  "length (subscribers (fold (\<lambda>(topic, payload). publish E now ticket topic payload q) ds b)) = length (subscribers b)"
  by (induction ds arbitrary: b)
    (auto simp: publish_def publish_with_wal_id_def publish_inner_length publish_inner_inv)

lemma maintenance_spec_routes:
  "routing_inv E b \<Longrightarrow> routing_inv E (maintenance_tick E now clock ticket b)"
  "length (subscribers (maintenance_tick E now clock ticket b)) = length (subscribers b)"
proof -
  obtain ds b1 where t: "tick_subscriptions now (all_subscriptions b) b = (ds, b1)"
    by (cases "tick_subscriptions now (all_subscriptions b) b")
  let ?b2 = "fold (\<lambda>(topic, payload). publish E clock ticket topic payload AtMostOnce) ds b1"
  have m: "maintenance_tick E now clock ticket b = ?b2\<lparr>drain_notified := drain_notified ?b2 + 1\<rparr>"
    by (simp add: maintenance_tick_def t Let_def)
  note r = tick_routes [OF t, of E]
  show "length (subscribers (maintenance_tick E now clock ticket b)) = length (subscribers b)"
    using r publishes_fold(2) [of E clock ticket AtMostOnce ds b1] unfolding m by (simp add: same_routes_def)
  show "routing_inv E (maintenance_tick E now clock ticket b)" if "routing_inv E b"
    unfolding m using same_routes_inv [OF r that] publishes_fold(1) same_routes_inv same_routes_fields(10)
    by blast
qed

lemma publish_durable_cases:
  assumes "publish_durable app E now ticket name payload qos b = (res, b')"
  obtains (failed) w where "b' = b \<or> b' = b\<lparr>wal := Some w\<rparr>" "\<And>i. res \<noteq> Ok i"
  | (published) w i where "b' = publish_inner E now ticket name None payload qos (Some i) None None (b\<lparr>wal := Some w\<rparr>)"
      "res = Ok i" "\<not> shutting_down b"
  using assms
  by (auto simp: publish_durable_def publish_with_wal_id_def split: if_splits option.splits result.splits prod.splits)

lemma same_routes_length: "same_routes E b b' \<Longrightarrow> length (subscribers b) \<le> length (subscribers b')"
  by (simp add: same_routes_def)

lemma add_wildcard_subscribers [simp]: "subscribers (add_wildcard p sid b) = subscribers b"
  by (simp add: add_wildcard_def Let_def)

lemma broker_step_length:
  "broker_step E b b' \<Longrightarrow> length (subscribers b) \<le> length (subscribers b')"
proof (induction rule: broker_step.induct)
  case (step_subscribe cid topic qos conn sender slot grp b sid b')
  then show ?case by (simp add: subscribe_fields(3))
next
  case (step_pattern cid p qos b sid b')
  then show ?case
    by (auto simp: subscribe_pattern_def subscribe_def subscribe_inner_def add_wildcard_def Let_def
        dest: subscribe_fields(3) split: if_splits prod.splits)
next
  case (step_pattern_slot cid p qos conn slot enc b sid b')
  then show ?case
    by (auto simp: subscribe_pattern_with_slot_def subscribe_with_slot_def subscribe_inner_def
        add_wildcard_def Let_def dest: subscribe_fields(3) split: if_splits prod.splits)
next
  case (step_publish_durable app now ticket name payload qos b res b')
  then show ?case by (cases rule: publish_durable_cases) (auto simp: publish_inner_length)
qed (simp_all add: publish_inner_length maintenance_spec_routes(2) begin_shutdown_def mark_ready_def
    same_routes_length [OF poll_routes] same_routes_length [OF ack_routes]
    same_routes_length [OF replay_routes] same_routes_length [OF replay_to_routes])

lemma subscribe_pattern_cases:
  assumes "subscribe_pattern E cid p qos b = (sid, b')"
  obtains (exact) "subscribe_inner E cid (exact_subject_from_pattern p) qos None None None b = (sid, b')"
  | (wildcard) b1 where "subscribe_inner E cid (pat_as_str p) qos None None None b = (sid, b1)"
      "b' = add_wildcard p sid b1"
  using assms by (auto simp: subscribe_pattern_def subscribe_def split: if_splits prod.splits)

lemma subscribe_pattern_slot_cases:
  assumes "subscribe_pattern_with_slot E cid p qos conn slot enc b = (sid, b')"
  obtains (exact) "subscribe_inner E cid (exact_subject_from_pattern p) qos (Some conn) None (Some (slot, enc)) b
      = (sid, b')"
  | (wildcard) b1 where "subscribe_inner E cid (pat_as_str p) qos (Some conn) None (Some (slot, enc)) b = (sid, b1)"
      "b' = add_wildcard p sid b1"
  using assms by (auto simp: subscribe_pattern_with_slot_def subscribe_with_slot_def split: if_splits prod.splits)

lemma subscribed_inv:
  assumes "subscribe_inner E cid topic qos conn sender slot b = (sid, b')" "routing_inv E b"
    "length (subscribers b') < 2 ^ 64 - 1"
  shows "routing_inv E b'" "topic = pat_as_str p \<Longrightarrow> routing_inv E (add_wildcard p sid b')"
proof -
  note s = assms(1) [unfolded subscribe_inner_def]
  have room: "Suc (Suc (length (subscribers b))) < 2 ^ 64"
    using assms(3) subscribe_fields(3) [OF s] by simp
  show "routing_inv E b'" by (rule subscribe_inv [OF assms(2) room s])
  show "routing_inv E (add_wildcard p sid b')" if "topic = pat_as_str p"
    using subscribe_wildcard_inv [OF assms(2) room] assms(1) that by blast
qed

lemma broker_step_inv:
  assumes "broker_step E b b'" "routing_inv E b" "length (subscribers b') < 2 ^ 64 - 1"
  shows "routing_inv E b'"
  using assms
proof (induction rule: broker_step.induct)
  case (step_subscribe cid topic qos conn sender slot grp b sid b')
  then show ?case using subscribe_fields(3) [OF step_subscribe(1)] by (auto intro: subscribe_inv)
next
  case (step_pattern cid p qos b sid b')
  from step_pattern(1) show ?case
    by (cases rule: subscribe_pattern_cases) (use step_pattern(2,3) in \<open>auto intro: subscribed_inv\<close>)
next
  case (step_pattern_slot cid p qos conn slot enc b sid b')
  from step_pattern_slot(1) show ?case
    by (cases rule: subscribe_pattern_slot_cases) (use step_pattern_slot(2,3) in \<open>auto intro: subscribed_inv\<close>)
next
  case (step_publish_durable app now ticket name payload qos b res b')
  note inv = step_publish_durable(2)
  have w: "routing_inv E (b\<lparr>wal := w\<rparr>)" for w by (rule same_routes_inv [OF same_routes_fields(8) inv])
  from step_publish_durable(1) show ?case
    by (cases rule: publish_durable_cases) (use inv w publish_inner_inv [OF w] in auto)
next
  case (step_poll now sid b m b')
  then show ?case using same_routes_inv [OF poll_routes] by metis
next
  case (step_ack sid tag b ok b')
  then show ?case using same_routes_inv [OF ack_routes] by metis
next
  case (step_replay iter now cp b res b')
  then show ?case using same_routes_inv [OF replay_routes] by metis
next
  case (step_replay_to iter now sid off b res' b')
  then show ?case using same_routes_inv [OF replay_to_routes] by metis
next
  case (step_disconnect b c)
  then show ?case using unsubscribe_connection_spec(1) by metis
next
  case (step_publish b now ticket name pre payload qos ttl key)
  then show ?case by (metis publish_inner_inv)
next
  case (step_maintenance b now clock ticket)
  then show ?case by (metis maintenance_spec_routes(1))
next
  case (step_shutdown b)
  then show ?case unfolding begin_shutdown_def by (metis same_routes_inv same_routes_fields(13))
next
  case (step_ready b)
  then show ?case unfolding mark_ready_def by (metis same_routes_inv same_routes_fields(14))
next
  case (step_writer b i s)
  then show ?case by (metis same_routes_inv same_routes_fields(7))
qed

lemma broker_reach:
  assumes "(broker_step E)\<^sup>*\<^sup>* b b'" and "routing_inv E b" and "length (subscribers b') < 2 ^ 64 - 1"
  shows "routing_inv E b'"
  using assms
proof (induction rule: rtranclp_induct)
  case (step c c')
  then show ?case using broker_step_inv broker_step_length le_less_trans by blast
qed blast

section \<open>Who receives a publish\<close>

definition poll_mode :: "subscriber \<Rightarrow> bool" where
  "poll_mode s \<longleftrightarrow> sub_push_slot s = None \<and> sub_push_sender s = None"

text \<open>A wildcard pattern of the subscription matches the subject.\<close>
definition wildcard_match :: "('ch, 'w) broker \<Rightarrow> rstring \<Rightarrow> u64 \<Rightarrow> bool" where
  "wildcard_match b name sid \<longleftrightarrow>
     (\<exists>(p, s) \<in> set (wildcard_subs b). s = sid \<and> matches p name = Ok True)"

text \<open>The subscription is the member its consumer group picks.\<close>
definition picked :: "'ch env \<Rightarrow> bytes option \<Rightarrow> ('ch, 'w) broker \<Rightarrow> rstring \<Rightarrow> u64 \<Rightarrow> bool" where
  "picked E key b name sid \<longleftrightarrow>
     (case get_topic E b name of
        None \<Rightarrow> False
      | Some t \<Rightarrow> \<exists>(g, cg) \<in> set (topic_groups t). map_option fst (fst (pick_member E key cg)) = Some sid)"

definition broadcast :: "('ch, 'w) broker \<Rightarrow> rstring \<Rightarrow> u64 \<Rightarrow> bool" where
  "broadcast b name sid \<longleftrightarrow>
     (case sub_of b sid of Some r \<Rightarrow> sr_topic r = name \<and> sr_group r = None | None \<Rightarrow> False)"

lemma pick_member_Some:
  "fst (pick_member E key cg) = Some m \<Longrightarrow> m \<in> set (cg_members cg)"
  by (auto simp: pick_member_def Let_def split: if_splits option.splits)

lemma pick_member_None: "fst (pick_member E key cg) = None \<longleftrightarrow> cg_members cg = []"
  by (auto simp: pick_member_def Let_def split: option.splits)

lemma wildcard_receivers_map:
  assumes "\<forall>(p, sid) \<in> set wcs. sub_of b sid \<noteq> None"
  shows "wildcard_receivers b name wcs =
    map (\<lambda>(_, sid). (sid, sr_subscriber (the (sub_of b sid)))) (filter (\<lambda>(p, _). matches p name = Ok True) wcs)"
  using assms by (induction wcs) auto

lemma count_distinct: "distinct xs \<Longrightarrow> count_list xs x = of_bool (x \<in> set xs)"
  by (induction xs) auto

lemma count_map_filter:
  "count_list (map fst (List.map_filter f xs)) x =
     length (filter (\<lambda>y. map_option fst (f y) = Some x) xs)"
  by (induction xs) (auto simp: map_filter_simps split: option.splits)

lemma filter_unique:
  assumes "distinct xs" "\<And>y z. y \<in> set xs \<Longrightarrow> z \<in> set xs \<Longrightarrow> P y \<Longrightarrow> P z \<Longrightarrow> y = z"
  shows "length (filter P xs) = of_bool (\<exists>y \<in> set xs. P y)"
proof -
  have "length (filter P xs) = card {y \<in> set xs. P y}"
    using distinct_card [OF distinct_filter [OF assms(1), of P]] by simp
  also have "\<dots> = of_bool (\<exists>y \<in> set xs. P y)"
  proof (cases "\<exists>y \<in> set xs. P y")
    case True
    then obtain y where "y \<in> set xs" "P y" by blast
    then have "{y \<in> set xs. P y} = {y}" using assms(2) by blast
    then show ?thesis using True by simp
  next
    case False
    then have "{y \<in> set xs. P y} = {}" by blast
    then show ?thesis using False by simp
  qed
  finally show ?thesis .
qed

lemma topic_receivers_count:
  assumes t: "topic_ok S n t"
  shows "count_list (map fst (fst (topic_receivers E ticket key t))) sid =
    of_bool (\<exists>a. S sid = Some \<lparr>sr_topic = n, sr_subscriber = a, sr_group = None\<rparr>) +
    of_bool (\<exists>(g, cg) \<in> set (topic_groups t). map_option fst (fst (pick_member E key cg)) = Some sid)"
proof -
  have "sid \<in> set (map fst (topic_subscribers t)) \<longleftrightarrow>
      (\<exists>a. S sid = Some \<lparr>sr_topic = n, sr_subscriber = a, sr_group = None\<rparr>)"
    using topic_okD(5) [OF t, of sid] hm_get_None_iff [of "topic_subscribers t" sid]
    by (metis list.set_map option.exhaust option.distinct(1))
  then have bc: "count_list (map fst (topic_subscribers t)) sid =
      of_bool (\<exists>a. S sid = Some \<lparr>sr_topic = n, sr_subscriber = a, sr_group = None\<rparr>)"
    using count_distinct [OF topic_okD(1) [OF t], of sid] by simp
  let ?P = "\<lambda>x. map_option fst (fst (pick_member E key (snd x))) = Some sid"
  have mem: "\<exists>a. S sid = Some \<lparr>sr_topic = n, sr_subscriber = a, sr_group = Some g\<rparr>"
    if gcg: "(g, cg) \<in> set (topic_groups t)" "?P (g, cg)" for g cg
  proof -
    obtain a where "(sid, a) \<in> set (cg_members cg)"
      using gcg(2) pick_member_Some [of E key cg] by fastforce
    moreover have "hm_get (topic_groups t) g = Some cg"
      using gcg(1) topic_okD(2) [OF t] by simp
    ultimately have "(sid, a) \<in> set (members_of t g)" by (simp only: members_of_def option.case)
    then show ?thesis using topic_okD(7) [OF t] by blast
  qed
  have "length (filter ?P (topic_groups t)) = of_bool (\<exists>y \<in> set (topic_groups t). ?P y)"
  proof (rule filter_unique)
    show "distinct (topic_groups t)" using topic_okD(2) [OF t] by (rule distinct_map [THEN iffD1, THEN conjunct1])
    fix y z assume yz: "y \<in> set (topic_groups t)" "z \<in> set (topic_groups t)" "?P y" "?P z"
    obtain g cg h ch where e: "y = (g, cg)" "z = (h, ch)" by (cases y, cases z)
    then have "g = h" using mem [of g cg] mem [of h ch] yz by auto
    then show "y = z" using yz(1,2) topic_okD(2) [OF t] e by (metis map_of_is_SomeI option.inject)
  qed
  then have "count_list (map fst (List.map_filter (\<lambda>x. fst (pick_member E key (snd x))) (topic_groups t))) sid =
      of_bool (\<exists>y \<in> set (topic_groups t). ?P y)"
    unfolding count_map_filter .
  with bc show ?thesis
    unfolding topic_receivers_def pick_members_alt case_prod_beta' Let_def by simp
qed

lemma wildcards_okD:
  assumes "routing_inv E b"
  shows "distinct (map snd (wildcard_subs b))"
    and "(p, sid) \<in> set (wildcard_subs b) \<Longrightarrow>
      \<exists>a. sub_of b sid = Some \<lparr>sr_topic = pat_as_str p, sr_subscriber = a, sr_group = None\<rparr>"
    and "wildcard_subs_len b > 0 \<longleftrightarrow> wildcard_subs b \<noteq> []"
proof -
  note D = routing_invD [OF assms]
  show "distinct (map snd (wildcard_subs b))" using D(5) by (simp add: wildcards_ok_def)
  show "(p, sid) \<in> set (wildcard_subs b) \<Longrightarrow>
      \<exists>a. sub_of b sid = Some \<lparr>sr_topic = pat_as_str p, sr_subscriber = a, sr_group = None\<rparr>"
    using D(5) unfolding wildcards_ok_def by blast
  have "length (wildcard_subs b) < 2 ^ 64"
    using D(7) D(4) unat_u64_lt [of "next_subscription_id b"] by simp
  then have "unat (of_nat (length (wildcard_subs b)) :: u64) = length (wildcard_subs b)"
    by (simp add: unat_of_nat take_bit_nat_eq_self)
  then show "wildcard_subs_len b > 0 \<longleftrightarrow> wildcard_subs b \<noteq> []"
    unfolding D(6) by (simp add: word_less_nat_alt)
qed

lemma wildcard_receivers_alt:
  assumes inv: "routing_inv E b"
  shows "(if wildcard_subs_len b > 0 then wildcard_receivers b name (wildcard_subs b) else []) =
    map (\<lambda>(_, sid). (sid, sr_subscriber (the (sub_of b sid))))
      (filter (\<lambda>(p, _). matches p name = Ok True) (wildcard_subs b))"
proof -
  have "\<forall>(p, sid) \<in> set (wildcard_subs b). sub_of b sid \<noteq> None"
    using wildcards_okD(2) [OF inv] by fastforce
  then show ?thesis
    using wildcard_receivers_map [of "wildcard_subs b" b name] wildcards_okD(3) [OF inv] by auto
qed

lemma wildcard_count:
  assumes inv: "routing_inv E b"
  shows "count_list (map fst (map (\<lambda>(_, sid). (sid, sr_subscriber (the (sub_of b sid))))
      (filter (\<lambda>(p, _). matches p name = Ok True) (wildcard_subs b)))) sid =
    of_bool (wildcard_match b name sid)"
proof -
  let ?ws = "filter (\<lambda>(p, _). matches p name = Ok True) (wildcard_subs b)"
  have "map fst (map (\<lambda>(_, sid). (sid, sr_subscriber (the (sub_of b sid)))) ?ws) = map snd ?ws"
    by (simp add: case_prod_beta' comp_def)
  moreover have "distinct (map snd ?ws)"
    using wildcards_okD(1) [OF inv] by (rule distinct_map_filter)
  moreover have "sid \<in> set (map snd ?ws) \<longleftrightarrow> wildcard_match b name sid"
    by (force simp: wildcard_match_def)
  ultimately show ?thesis by (simp only: count_distinct)
qed

lemma snapshot_count:
  assumes inv: "routing_inv E b"
  shows "count_list (map fst (fst (snapshot E ticket name (topic_handle E name None b) key b))) sid =
    of_bool (broadcast b name sid) + of_bool (picked E key b name sid) + of_bool (wildcard_match b name sid)"
proof -
  note w = wildcard_count [OF inv, of name sid, folded wildcard_receivers_alt [OF inv]]
  have ref: "(\<exists>a. sub_of b sid = Some \<lparr>sr_topic = name, sr_subscriber = a, sr_group = None\<rparr>) \<longleftrightarrow>
      broadcast b name sid"
    unfolding broadcast_def by (cases "sub_of b sid")
      (auto intro!: exI [of _ "sr_subscriber (the (sub_of b sid))"] subscription_ref.equality)
  show ?thesis
  proof (cases "get_topic E b name")
    case None
    have "\<not> broadcast b name sid"
      using refs_okD(1) [OF routing_invD(3) [OF inv], of sid] None
      by (auto simp: broadcast_def split: option.splits)
    then show ?thesis
      using None w by (simp add: snapshot_alt topic_handle_def picked_def)
  next
    case (Some t)
    note t = topic_receivers_count [OF topics_okD(2) [OF routing_invD(2) [OF inv] Some], of E ticket key sid]
    show ?thesis
      using Some w t by (simp add: snapshot_alt topic_handle_def picked_def ref)
  qed
qed

lemma topic_receivers_addr:
  assumes t: "topic_ok S n t" and m: "(sid, a) \<in> set (fst (topic_receivers E ticket key t))"
  shows "\<exists>g. S sid = Some \<lparr>sr_topic = n, sr_subscriber = a, sr_group = g\<rparr>"
proof -
  from m consider "(sid, a) \<in> set (topic_subscribers t)"
    | g cg where "(g, cg) \<in> set (topic_groups t)" "fst (pick_member E key cg) = Some (sid, a)"
    by (auto simp: topic_receivers_def pick_members_alt List.map_filter_def)
  then show ?thesis
  proof cases
    case 1
    then have "hm_get (topic_subscribers t) sid = Some a" using topic_okD(1) [OF t] by simp
    then show ?thesis using topic_okD(5) [OF t] by blast
  next
    case 2
    then have "hm_get (topic_groups t) g = Some cg" using topic_okD(2) [OF t] by simp
    then have "(sid, a) \<in> set (members_of t g)"
      using pick_member_Some [OF 2(2)] by (simp only: members_of_def option.case)
    then show ?thesis using topic_okD(7) [OF t] by blast
  qed
qed

lemma snapshot_addr:
  assumes inv: "routing_inv E b"
    and m: "(sid, a) \<in> set (fst (snapshot E ticket name (topic_handle E name None b) key b))"
  shows "\<exists>r. sub_of b sid = Some r \<and> sr_subscriber r = a"
proof -
  note D = routing_invD [OF inv]
  from m consider t where "get_topic E b name = Some t" "(sid, a) \<in> set (fst (topic_receivers E ticket key t))"
    | p where "(p, sid) \<in> set (wildcard_subs b)" "a = sr_subscriber (the (sub_of b sid))"
    by (auto simp: snapshot_alt wildcard_receivers_alt [OF inv] topic_handle_def split: option.splits)
  then show ?thesis
  proof cases
    case 1
    show ?thesis using topic_receivers_addr [OF topics_okD(2) [OF D(2) 1(1)] 1(2)] by auto
  next
    case 2
    then show ?thesis using wildcards_okD(2) [OF inv 2(1)] by auto
  qed
qed

lemma count_addresses:
  assumes "\<forall>(s, x) \<in> set rs. unat s = Suc x" and "unat (sid :: u64) = Suc a"
  shows "count_list (map snd rs) a = count_list (map fst rs) sid"
  using assms(1)
proof (induction rs)
  case (Cons y rs)
  obtain s x where y: "y = (s, x)" by (cases y)
  have "unat s = unat sid \<longleftrightarrow> s = sid" by (auto intro: injD [OF inj_unsigned])
  then have "x = a \<longleftrightarrow> s = sid" using Cons.prems assms(2) y by auto
  then show ?case using Cons y by auto
qed simp

section \<open>What a publish does to a polled queue\<close>

lemma subscriber_other:
  "x \<noteq> a \<Longrightarrow> subscribers (update_subscriber x f b) ! a = subscribers b ! a"
  by (simp add: update_subscriber_def)

lemma deliver_one_queue:
  assumes d: "deliver_one E now name payload qos wid ttl sid x b = (d, b')"
    and a: "a < length (subscribers b)" and p: "poll_mode (subscribers b ! a)"
  shows "subscribers b' ! a = (if x = a then (subscribers b ! a)
      \<lparr>sub_queue := enqueue now payload qos wid ttl (sub_queue (subscribers b ! a))\<rparr> else subscribers b ! a)"
proof (cases "x = a")
  case True
  then show ?thesis
    using d a p by (auto simp: deliver_one_def poll_mode_def update_subscriber_def Let_def)
next
  case False
  then show ?thesis
    using d by (auto simp: deliver_one_def deliver_slot_def deliver_channel_def next_push_tag_def Let_def
        register_inflight_def cancel_inflight_def write_slot_def subscriber_other
        split: option.splits if_splits)
qed

lemma deliver_all_queue:
  assumes "deliver_all E now name payload qos wid ttl rs drops n b = (drops', n', b')"
    and "a < length (subscribers b)" and "poll_mode (subscribers b ! a)"
  shows "subscribers b' ! a = (subscribers b ! a)
    \<lparr>sub_queue := (enqueue now payload qos wid ttl ^^ count_list (map snd rs) a) (sub_queue (subscribers b ! a))\<rparr>"
  using assms
proof (induction rs arbitrary: drops n b)
  case (Cons y rs)
  obtain s x where y: "y = (s, x)" by (cases y)
  obtain d b1 where d: "deliver_one E now name payload qos wid ttl s x b = (d, b1)"
    by (cases "deliver_one E now name payload qos wid ttl s x b")
  note q = deliver_one_queue [OF d Cons.prems(2,3)]
  have len: "a < length (subscribers b1)"
    using deliver_one_routes [OF d] Cons.prems(2) by (simp add: same_routes_def)
  have p: "poll_mode (subscribers b1 ! a)"
    using Cons.prems(3) unfolding q by (simp add: poll_mode_def)
  obtain drops1 n1 where "deliver_all E now name payload qos wid ttl rs drops1 n1 b1 = (drops', n', b')"
    using Cons.prems(1) by (cases d) (auto simp: y d)
  from Cons.IH [OF this len p] show ?case
    unfolding q by (simp add: y funpow_swap1)
qed simp

lemma snapshot_subscribers: "subscribers (snd (snapshot E ticket name h key b)) = subscribers b"
  by (simp add: snapshot_alt split: option.splits)

lemma count_delivered_subscribers [simp]: "subscribers (count_delivered E ticket h n b) = subscribers b"
  by (simp add: count_delivered_def Let_def split: option.splits)

lemma snapshot_counters:
  "fst (snapshot E ticket name h key (b\<lparr>publish_count := c, messages_published_total := d\<rparr>)) =
     fst (snapshot E ticket name h key b)"
  "fst (snapshot E ticket name h key (b\<lparr>publish_count := c, max_wal_id_observed := m, messages_published_total := d\<rparr>)) =
     fst (snapshot E ticket name h key b)"
proof -
  have w: "wildcard_receivers (b\<lparr>publish_count := c, messages_published_total := d\<rparr>) name wcs =
      wildcard_receivers b name wcs"
    "wildcard_receivers (b\<lparr>publish_count := c, max_wal_id_observed := m, messages_published_total := d\<rparr>) name wcs =
      wildcard_receivers b name wcs" for wcs
    by (induction wcs) (auto split: option.splits)
  show "fst (snapshot E ticket name h key (b\<lparr>publish_count := c, messages_published_total := d\<rparr>)) =
      fst (snapshot E ticket name h key b)"
    "fst (snapshot E ticket name h key (b\<lparr>publish_count := c, max_wal_id_observed := m, messages_published_total := d\<rparr>)) =
      fst (snapshot E ticket name h key b)"
    by (simp_all add: snapshot_alt w)
qed

definition effective_ttl :: "('ch, 'w) broker \<Rightarrow> duration option \<Rightarrow> duration option" where
  "effective_ttl b ttl = (case ttl of Some d \<Rightarrow> Some d | None \<Rightarrow> Some (cfg_message_ttl (config b)))"

lemma fanout_queue:
  assumes f: "fanout E now ticket name h payload qos wid ttl key b = (drops, n, b')"
    and a: "a < length (subscribers b)" and p: "poll_mode (subscribers b ! a)"
  shows "subscribers b' ! a = (subscribers b ! a)
    \<lparr>sub_queue := (enqueue now payload qos wid (effective_ttl b ttl) ^^
        count_list (map snd (fst (snapshot E ticket name h key b))) a) (sub_queue (subscribers b ! a))\<rparr>"
proof -
  define b0 where "b0 = (case wid of
      Some w \<Rightarrow> b\<lparr>publish_count := snd (counter_add ticket 1 (publish_count b)),
        max_wal_id_observed := max w (max_wal_id_observed b),
        messages_published_total := snd (counter_add ticket 1 (messages_published_total b))\<rparr>
    | None \<Rightarrow> b\<lparr>publish_count := snd (counter_add ticket 1 (publish_count b)),
        messages_published_total := snd (counter_add ticket 1 (messages_published_total b))\<rparr>)"
  have s0: "subscribers b0 = subscribers b" by (simp add: b0_def split: option.splits)
  obtain rs b1 where s: "snapshot E ticket name h key b0 = (rs, b1)"
    by (cases "snapshot E ticket name h key b0")
  have rs: "rs = fst (snapshot E ticket name h key b)"
    using arg_cong [OF s, of fst] by (cases wid) (simp_all add: b0_def snapshot_counters)
  have b1: "subscribers b1 = subscribers b" using snapshot_subscribers [of E ticket name h key b0] s s0 by simp
  have "deliver_all E now name payload qos wid (effective_ttl b ttl) rs [] 0 b1 = (drops, n, b')"
    using f s by (cases wid; cases ttl) (simp_all add: fanout_def b0_def effective_ttl_def Let_def)
  from deliver_all_queue [OF this] show ?thesis using a p by (simp add: b1 rs)
qed

section \<open>A small broker for the witnesses\<close>

text \<open>Subjects and names are short byte strings: \<open>a.*\<close> is 97, 46, 42.\<close>
definition demo_env :: "unit env" where
  "demo_env = \<lparr>env_hash = (\<lambda>_. 0), env_key_hash = (\<lambda>_. 0), env_try_send = (\<lambda>_ _. None)\<rparr>"

definition demo_pattern :: subject_pattern where
  "demo_pattern = \<lparr>pat_raw = [97, 46, 42], pat_segments = [Literal [97], Wildcard], pat_has_tail = False\<rparr>"

definition demo_config :: broker_config where
  "demo_config = \<lparr>cfg_default_qos = AtMostOnce, cfg_message_ttl = 60, cfg_queue_capacity = 8,
     cfg_max_retries = 3, cfg_retry_base_delay = 5, cfg_slow_consumer_policy = DropNewest,
     cfg_slow_consumer_buffer_bytes = 4, cfg_dlq_suffix = Some [46, 100]\<rparr>"

definition demo_new :: "(unit, unit) broker" where
  "demo_new = broker_init demo_config None [push_slot_new] []"

definition demo_wild :: "(unit, unit) broker" where
  "demo_wild = snd (subscribe_pattern demo_env [99] demo_pattern AtMostOnce demo_new)"

lemma demo_new_inv: "routing_inv demo_env demo_new"
  unfolding demo_new_def by (rule broker_init_inv)

lemma demo_new_subscribers [simp]: "subscribers demo_new = []" "shutting_down demo_new = False"
  "config demo_new = demo_config"
  by (simp_all add: demo_new_def broker_init_def)

lemma demo_wild_step: "broker_step demo_env demo_new demo_wild"
  unfolding demo_wild_def by (rule step_pattern) (rule surjective_pairing)

lemma demo_wild_subscribers:
  "subscribers demo_wild = [\<lparr>sub_client_id = [99], sub_queue = queue_new AtMostOnce 8,
     sub_push_sender = None, sub_push_slot = None, sub_push_next_tag = 1\<rparr>]"
  by (simp add: demo_wild_def subscribe_pattern_def demo_pattern_def is_exact_def subscribe_inner_def
      subscribe_inner_grouped_def Let_def demo_config_def split: prod.splits)

lemma demo_wild_inv: "routing_inv demo_env demo_wild"
  by (rule broker_step_inv [OF demo_wild_step demo_new_inv]) (simp add: demo_wild_subscribers)

lemma demo_wild_views:
  "sub_of demo_wild 1 = Some \<lparr>sr_topic = [97, 46, 42], sr_subscriber = 0, sr_group = None\<rparr>"
  "broadcast demo_wild [97, 46, 42] 1" "wildcard_match demo_wild [97, 46, 42] 1"
  "\<not> picked demo_env None demo_wild [97, 46, 42] 1" "\<not> shutting_down demo_wild"
  "cfg_message_ttl (config demo_wild) = 60"
  by code_simp+

section \<open>Properties\<close>

text \<open>C1: In every state the broker can reach from its start, by any sequence of its operations,
  the subscription registry, the topics' subscriber lists, the consumer groups, the wildcard list
  and the per-connection index agree: each subscription is listed exactly where publishes look for
  it, once, and nothing else is listed (while fewer than 2 to the 64 subscriptions were made).\<close>
theorem broker_reachable_inv:
  assumes "(broker_step E)\<^sup>*\<^sup>* (broker_init cfg w sl ch) b" and "length (subscribers b) < 2 ^ 64 - 1"
  shows "routing_inv E b"
  by (rule broker_reach [OF assms(1) broker_init_inv assms(2)])

theorem broker_reachable_inv_witness:
  "subscribers demo_wild \<noteq> [] \<and> routing_inv demo_env demo_wild"
  using broker_reachable_inv [of demo_env demo_config None "[push_slot_new]" "[]" demo_wild]
    demo_wild_step
  by (simp add: demo_wild_subscribers r_into_rtranclp flip: demo_new_def)

text \<open>C2: A publish delivers a message to a polled subscription exactly as often as the subscription
  is to the topic by name, is picked by its consumer group, or has a matching wildcard pattern; to
  all other polled subscriptions nothing is delivered and their queues do not change.\<close>
theorem publish_reaches_exactly:
  assumes inv: "routing_inv E b" and run: "\<not> shutting_down b" and r: "sub_of b sid = Some r"
    and p: "poll_mode (subscribers b ! sr_subscriber r)"
  shows "sub_queue (subscribers (publish_with_key E now ticket name payload qos ttl key b) ! sr_subscriber r) =
    (enqueue now payload qos None (effective_ttl b ttl) ^^
      (of_bool (broadcast b name sid) + of_bool (picked E key b name sid) + of_bool (wildcard_match b name sid)))
    (sub_queue (subscribers b ! sr_subscriber r))"
proof -
  let ?h = "topic_handle E name None b"
  let ?rs = "fst (snapshot E ticket name ?h key b)"
  note ref = refs_okD [OF routing_invD(3) [OF inv]]
  obtain drops n b1 where f: "fanout E now ticket name ?h payload qos None ttl key b = (drops, n, b1)"
    by (metis prod_cases3)
  have "\<forall>(s, x) \<in> set ?rs. unat s = Suc x"
    using snapshot_addr [OF inv] ref(2) by fastforce
  note cnt = count_addresses [OF this ref(2) [OF r]]
  show ?thesis
    using run fanout_queue [OF f ref(3) [OF r] p]
    by (simp add: publish_with_key_def publish_inner_def f cnt snapshot_count [OF inv])
qed

theorem publish_reaches_exactly_witness:
  "sub_queue (subscribers (publish_with_key demo_env 5 0 [97, 46, 42] [7] AtMostOnce None None demo_wild) ! 0) =
     enqueue 5 [7] AtMostOnce None (Some 60)
       (enqueue 5 [7] AtMostOnce None (Some 60) (queue_new AtMostOnce 8))"
  using publish_reaches_exactly [OF demo_wild_inv demo_wild_views(5,1), of 5 0 "[97, 46, 42]" "[7]" AtMostOnce None None]
    demo_wild_views
  by (simp add: poll_mode_def demo_wild_subscribers effective_ttl_def)

end
