(* ===== verification/Broker_Claims.thy ===== *)
theory Broker_Claims
  imports Broker_Props
begin

text \<open>
  Further promises of the broker, on top of the routing invariant: consumer groups get
  each message once and share the load evenly, cached topic handles stay valid,
  a disconnect leaves nothing behind, the buffer of a slow push consumer is bounded,
  acknowledgements advance exactly one cursor, and a durable publish is delivered
  only after the log has it.
\<close>

section \<open>Consumer groups\<close>

text \<open>Successive picks of a group without a partition key.\<close>
fun keyless_picks :: "'ch env \<Rightarrow> nat \<Rightarrow> consumer_group \<Rightarrow> (u64 \<times> nat) option list" where
  "keyless_picks E 0 cg = []"
| "keyless_picks E (Suc n) cg =
     (case pick_member E None cg of (m, cg') \<Rightarrow> m # keyless_picks E n cg')"

lemma pick_keyless:
  "cg_members cg \<noteq> [] \<Longrightarrow> pick_member E None cg =
     (Some (cg_members cg ! (unat (cg_next_idx cg) mod length (cg_members cg))),
      cg\<lparr>cg_next_idx := cg_next_idx cg + 1\<rparr>)"
  by (simp add: pick_member_def Let_def)

lemma keyless_picks_nth:
  assumes "cg_members cg \<noteq> []" and "unat (cg_next_idx cg) + n < 2 ^ 64"
  shows "keyless_picks E n cg =
    map (\<lambda>i. Some (cg_members cg ! ((unat (cg_next_idx cg) + i) mod length (cg_members cg)))) [0..<n]"
  using assms
proof (induction n arbitrary: cg)
  case (Suc n)
  let ?cg = "cg\<lparr>cg_next_idx := cg_next_idx cg + 1\<rparr>"
  have s: "unat (cg_next_idx cg + 1) = Suc (unat (cg_next_idx cg))"
    using Suc.prems(2) by (intro word_Suc_unat) simp
  have "keyless_picks E n ?cg = map (\<lambda>i. Some (cg_members cg ! ((Suc (unat (cg_next_idx cg)) + i)
      mod length (cg_members cg)))) [0..<n]"
    using Suc.IH [of ?cg] Suc.prems by (simp add: s)
  then show ?case
    by (simp add: pick_keyless [OF Suc.prems(1)] upt_conv_Cons comp_def map_Suc_upt [symmetric] del: upt_Suc)
qed simp

lemma period_rotate:
  "xs \<noteq> [] \<Longrightarrow> map (\<lambda>i. f (xs ! ((c + i) mod length xs))) [0..<length xs] = map f (rotate c xs)"
  by (rule nth_equalityI) (simp_all add: nth_rotate)

lemma periods_mset:
  "xs \<noteq> [] \<Longrightarrow> mset (map (\<lambda>i. f (xs ! ((c + i) mod length xs))) [0..<k * length xs]) =
     repeat_mset k (mset (map f xs))"
proof (induction k arbitrary: c)
  case (Suc k)
  have split: "[0..<Suc k * length xs] = [0..<length xs] @ map (\<lambda>i. i + length xs) [0..<k * length xs]"
    by (simp add: map_add_upt upt_add_eq_append [symmetric] add.commute del: upt_conv_Nil)
  have "map (\<lambda>i. f (xs ! ((c + i) mod length xs))) (map (\<lambda>i. i + length xs) [0..<k * length xs]) =
      map (\<lambda>i. f (xs ! ((c + i) mod length xs))) [0..<k * length xs]"
    by (simp add: add.assoc [symmetric])
  then have "map (\<lambda>i. f (xs ! ((c + i) mod length xs))) [0..<Suc k * length xs] =
      map f (rotate c xs) @ map (\<lambda>i. f (xs ! ((c + i) mod length xs))) [0..<k * length xs]"
    unfolding split map_append using period_rotate [OF Suc.prems, of f c] by simp
  moreover have "mset (rotate c xs) = mset xs"
  proof (induction c)
    case (Suc c)
    then show ?case by (cases "rotate c xs") simp_all
  qed simp
  ultimately show ?case
    using Suc.IH [OF Suc.prems, of c] by (simp only: mset_append mset_map repeat_mset_Suc)
qed simp

lemma picked_group:
  assumes inv: "routing_inv E b" and t: "get_topic E b name = Some t"
    and gcg: "(g, cg) \<in> set (topic_groups t)" and pick: "fst (pick_member E key cg) = Some (sid, a)"
  shows "sub_of b sid = Some \<lparr>sr_topic = name, sr_subscriber = a, sr_group = Some g\<rparr>"
proof -
  note ok = topics_okD(2) [OF routing_invD(2) [OF inv] t]
  have "hm_get (topic_groups t) g = Some cg" using gcg topic_okD(2) [OF ok] by simp
  then have "(sid, a) \<in> set (members_of t g)"
    using pick_member_Some [OF pick] by (simp only: members_of_def option.case)
  then show ?thesis using topic_okD(7) [OF ok] by blast
qed

section \<open>Topics are never removed\<close>

lemma same_routes_topics:
  "same_routes E b b' \<Longrightarrow> routing_inv E b \<Longrightarrow> get_topic E b' n = None \<longleftrightarrow> get_topic E b n = None"
  unfolding same_routes_def routing_inv_def by blast

lemma subscribe_topics:
  assumes inv: "routing_inv E b" and s: "subscribe_inner_grouped E cid topic qos conn sender slot grp b = (sid, b')"
    and "get_topic E b n \<noteq> None"
  shows "get_topic E b' n \<noteq> None"
proof -
  note D = routing_invD [OF inv]
  have "\<forall>s r. sub_of b s = Some r \<longrightarrow> get_topic E b (sr_topic r) \<noteq> None"
    using refs_okD(1) [OF D(3)] by blast
  note ins = topics_get_or_insert_ok [OF D(2) this refl, where n = topic]
  show ?thesis
    using ins(3) [OF assms(3)] unfolding subscribe_fields(5) [OF s]
    by (auto simp: update_topic_get [OF topics_okD(1) [OF ins(1)]])
qed

lemma detach_all_topics:
  assumes "shards_ok (topic_shard_index (env_hash E)) (topics b)"
  shows "shards_ok (topic_shard_index (env_hash E)) (topics (detach_all E rs b)) \<and>
    (get_topic E (detach_all E rs b) n = None \<longleftrightarrow> get_topic E b n = None)"
  using assms
proof (induction rs arbitrary: b)
  case (Cons x rs)
  let ?b = "update_topic E (sr_topic (snd x)) (detach_from_topic (fst x) (sr_group (snd x))) b"
  have "detach_all E (x # rs) b = detach_all E rs ?b" by (simp add: detach_all_def case_prod_beta)
  then show ?case
    using Cons.IH [OF update_topic_shards [OF Cons.prems], of "sr_topic (snd x)"]
      update_topic_dom [OF Cons.prems] by simp
qed (simp add: detach_all_def)

lemma unsubscribe_topics:
  assumes "routing_inv E b"
  shows "get_topic E (unsubscribe_connection E c b) n = None \<longleftrightarrow> get_topic E b n = None"
    and "get_topic E (snd (unsubscribe_one E sid b)) n = None \<longleftrightarrow> get_topic E b n = None"
proof -
  note sh = topics_okD(1) [OF routing_invD(2) [OF assms]]
  show "get_topic E (snd (unsubscribe_one E sid b)) n = None \<longleftrightarrow> get_topic E b n = None"
    using sh by (simp add: unsubscribe_one_def Let_def update_topic_dom split: option.splits)
  have "get_topic E (detach_all E rs (b\<lparr>connection_subs := cs, subscriptions := ss\<rparr>)) n = None \<longleftrightarrow>
      get_topic E b n = None" for rs cs ss
    using detach_all_topics [of E "b\<lparr>connection_subs := cs, subscriptions := ss\<rparr>"] sh by simp
  then show "get_topic E (unsubscribe_connection E c b) n = None \<longleftrightarrow> get_topic E b n = None"
    by (simp add: unsubscribe_connection_def Let_def flip: detach_all_def split: prod.splits)
qed

lemma publish_topics:
  assumes inv: "routing_inv E b"
  shows "get_topic E (publish_inner E now ticket name pre payload qos wid ttl key b) n = None \<longleftrightarrow>
    get_topic E b n = None"
proof -
  obtain drops k b1 where f: "fanout E now ticket name (topic_handle E name pre b) payload qos wid ttl key b
      = (drops, k, b1)" by (metis prod_cases3)
  let ?b2 = "count_delivered E ticket (topic_handle E name pre b) k b1"
  have r: "same_routes E b ?b2" by (rule same_routes_trans [OF fanout_routes [OF f] count_delivered_routes])
  have "get_topic E (fold (\<lambda>sid b. snd (unsubscribe_one E sid b)) ds c) n = None \<longleftrightarrow> get_topic E c n = None"
    if "routing_inv E c" for ds and c :: "('a, 'b) broker"
    using that by (induction ds arbitrary: c) (auto simp: unsubscribe_topics(2) unsubscribe_one_spec(1))
  from this [OF same_routes_inv [OF r inv]] same_routes_topics [OF r inv]
  show ?thesis by (simp add: publish_inner_def f)
qed

lemma maintenance_topics:
  assumes inv: "routing_inv E b"
  shows "get_topic E (maintenance_tick E now clock ticket b) n = None \<longleftrightarrow> get_topic E b n = None"
proof -
  obtain ds b1 where t: "tick_subscriptions now (all_subscriptions b) b = (ds, b1)"
    by (cases "tick_subscriptions now (all_subscriptions b) b")
  have "get_topic E (fold (\<lambda>(topic, payload). publish E clock ticket topic payload q) xs c) n = None \<longleftrightarrow>
      get_topic E c n = None" if "routing_inv E c" for xs q and c :: "('a, 'b) broker"
    using that
  proof (induction xs arbitrary: c)
    case (Cons x xs)
    then show ?case
      by (cases x) (simp add: publish_def publish_with_wal_id_def publish_topics publish_inner_inv)
  qed simp
  from this [OF same_routes_inv [OF tick_routes [OF t] inv]] same_routes_topics [OF tick_routes [OF t] inv]
  show ?thesis by (simp add: maintenance_tick_def t Let_def)
qed

lemma broker_step_topics:
  assumes "broker_step E b b'" and "routing_inv E b" and "get_topic E b n \<noteq> None"
  shows "get_topic E b' n \<noteq> None"
  using assms
proof (cases rule: broker_step.cases)
  case (step_pattern cid p qos sid)
  then show ?thesis
    using assms(2,3) subscribe_topics [unfolded subscribe_inner_def [symmetric]]
    by (elim subscribe_pattern_cases) (auto simp: subscribe_inner_def add_wildcard_def Let_def dest: subscribe_topics)
next
  case (step_pattern_slot cid p qos conn slot enc sid)
  then show ?thesis
    using assms(2,3)
    by (elim subscribe_pattern_slot_cases) (auto simp: subscribe_inner_def add_wildcard_def Let_def dest: subscribe_topics)
next
  case (step_publish_durable app now ticket name payload qos res)
  have w: "routing_inv E (b\<lparr>wal := w\<rparr>)" for w by (rule same_routes_inv [OF same_routes_fields(8) assms(2)])
  from step_publish_durable show ?thesis
    by (cases rule: publish_durable_cases) (use assms(3) publish_topics [OF w] in auto)
next
  case (step_subscribe cid topic qos conn sender slot grp sid)
  then show ?thesis using subscribe_topics assms(2,3) by blast
next
  case (step_poll now sid m)
  then show ?thesis using same_routes_topics [OF poll_routes] assms(2,3) by metis
next
  case (step_ack sid tag ok)
  then show ?thesis using same_routes_topics [OF ack_routes] assms(2,3) by metis
next
  case (step_replay iter now cp res)
  then show ?thesis using same_routes_topics [OF replay_routes] assms(2,3) by metis
next
  case (step_replay_to iter now sid off res')
  then show ?thesis using same_routes_topics [OF replay_to_routes] assms(2,3) by metis
qed (use assms(2,3) in \<open>auto simp: unsubscribe_topics publish_topics maintenance_topics begin_shutdown_def
    mark_ready_def\<close>)

lemma broker_steps_topics:
  assumes "(broker_step E)\<^sup>*\<^sup>* b b'" and "routing_inv E b" and "length (subscribers b') < 2 ^ 64 - 1"
    and "get_topic E b n \<noteq> None"
  shows "routing_inv E b' \<and> get_topic E b' n \<noteq> None"
  using assms
proof (induction rule: rtranclp_induct)
  case (step c c')
  then have "length (subscribers c) < 2 ^ 64 - 1" using broker_step_length le_less_trans by blast
  then show ?case using step broker_step_inv broker_step_topics by blast
qed blast

text \<open>A broker with two members of the group \<open>g\<close> on the topic \<open>t\<close>.\<close>
definition demo_group :: "(unit, unit) broker" where
  "demo_group = snd (subscribe_in_group demo_env [100] [116] AtMostOnce [103]
     (snd (subscribe_in_group demo_env [99] [116] AtMostOnce [103] demo_new)))"

lemma demo_group_steps: "(broker_step demo_env)\<^sup>*\<^sup>* demo_new demo_group"
proof -
  have step: "broker_step demo_env b (snd (subscribe_in_group demo_env c t q g b))" for b :: "(unit, unit) broker" and c t q g
    unfolding subscribe_in_group_def by (rule step_subscribe) (rule surjective_pairing)
  show ?thesis unfolding demo_group_def
    by (rule rtranclp.rtrancl_into_rtrancl, rule r_into_rtranclp, rule step, rule step)
qed

lemma demo_group_length: "length (subscribers demo_group) = 2"
  by code_simp

lemma demo_group_inv: "routing_inv demo_env demo_group"
  using broker_reach [OF demo_group_steps demo_new_inv] by (simp add: demo_group_length)

lemma demo_group_topic:
  "get_topic demo_env demo_group [116] = Some \<lparr>topic_name = [116], topic_subscribers = [],
     topic_groups = [([103], \<lparr>cg_members = [(1, 0), (2, 1)], cg_next_idx = 0\<rparr>)],
     topic_published_total = counter_new, topic_delivered_total = counter_new\<rparr>"
  by code_simp

section \<open>Properties\<close>



text \<open>C8: Without partition keys a consumer group shares the load evenly: over any k rounds of as
  many publishes as the group has members, each member is picked exactly k times (while the
  64-bit round-robin counter does not wrap).\<close>
theorem round_robin_fair:
  assumes "cg_members cg \<noteq> []" and "unat (cg_next_idx cg) + k * length (cg_members cg) < 2 ^ 64"
  shows "mset (keyless_picks E (k * length (cg_members cg)) cg) = repeat_mset k (mset (map Some (cg_members cg)))"
  unfolding keyless_picks_nth [OF assms] by (rule periods_mset [OF assms(1)])

theorem round_robin_fair_witness:
  "mset (keyless_picks demo_env (3 * length [(1, 0), (2, 1)]) \<lparr>cg_members = [(1, 0), (2, 1)], cg_next_idx = 1\<rparr>) =
     repeat_mset 3 {#Some (1, 0), Some (2, 1)#}"
  using round_robin_fair [of "\<lparr>cg_members = [(1, 0), (2, 1)], cg_next_idx = 1\<rparr>" 3 demo_env] by simp




section \<open>Slow push consumers\<close>

text \<open>An encoder that appends a frame of at most L bytes for this message.\<close>
definition appends_at_most :: "nat \<Rightarrow> rstring \<Rightarrow> bytes \<Rightarrow> subscriber \<Rightarrow> bool" where
  "appends_at_most L name payload s \<longleftrightarrow>
     (case sub_push_slot s of None \<Rightarrow> True
      | Some (_, enc) \<Rightarrow> \<forall>buf qos tag. length (enc buf qos tag name payload) \<le> length buf + L)"

definition buffers_within :: "nat \<Rightarrow> push_slot list \<Rightarrow> push_slot list \<Rightarrow> bool" where
  "buffers_within M before after \<longleftrightarrow> length after = length before \<and>
     (\<forall>i < length before. length (slot_buf (after ! i)) \<le> max (length (slot_buf (before ! i))) M)"

lemma buffers_within_refl [simp]: "buffers_within M s s"
  by (simp add: buffers_within_def)

lemma buffers_within_trans: "buffers_within M s t \<Longrightarrow> buffers_within M t u \<Longrightarrow> buffers_within M s u"
  unfolding buffers_within_def by (auto intro: order_trans)

lemma slots_unchanged [simp]:
  "slots (update_subscriber a f b) = slots b"
  "slots (register_inflight now a tag p w ttl b) = slots b" "slots (cancel_inflight a tag b) = slots b"
  "config (update_subscriber a f b) = config b" "config (register_inflight now a tag p w ttl b) = config b"
  by (simp_all add: update_subscriber_def register_inflight_def cancel_inflight_def)

lemma next_push_tag_slots: "next_push_tag a b = (tag, b') \<Longrightarrow> slots b' = slots b \<and> config b' = config b"
  by (auto simp: next_push_tag_def Let_def)

lemma write_slot_within:
  assumes "\<And>buf. length (enc buf qos tag name payload) \<le> length buf + L"
    and "slot < length (slots b) \<Longrightarrow> length (slot_buf (slots b ! slot)) < T"
  shows "buffers_within (T + L) (slots b) (slots (write_slot slot enc qos tag name payload b))"
proof -
  have "length (enc (slot_buf (slots b ! slot)) qos tag name payload) \<le> T + L" if "slot < length (slots b)"
    using assms(1) [of "slot_buf (slots b ! slot)"] assms(2) [OF that] by simp
  then show ?thesis
    by (cases "slot < length (slots b)")
      (auto simp: buffers_within_def write_slot_def Let_def nth_list_update max.coboundedI2)
qed

lemma deliver_one_within:
  assumes d: "deliver_one E now name payload qos wid ttl sid a b = (d, b')"
    and a: "appends_at_most L name payload (subscribers b ! a)"
  shows "buffers_within (cfg_slow_consumer_buffer_bytes (config b) + L) (slots b) (slots b')"
proof (cases "sub_push_slot (subscribers b ! a)")
  case None
  then show ?thesis
    using d by (auto simp: deliver_one_def deliver_channel_def Let_def dest!: next_push_tag_slots
        split: option.splits prod.splits if_splits)
next
  case (Some se)
  obtain slot enc where se: "se = (slot, enc)" by (cases se)
  obtain tag b1 where t: "next_push_tag a b = (tag, b1)" by (cases "next_push_tag a b")
  let ?b2 = "if qos = AtLeastOnce then register_inflight now a tag payload wid ttl b1 else b1"
  have b2: "slots ?b2 = slots b" "config ?b2 = config b" using next_push_tag_slots [OF t] by simp_all
  have enc: "length (enc buf qos tg name payload) \<le> length buf + L" for buf tg
    using a Some se by (simp add: appends_at_most_def)
  have w: "buffers_within (T + L) (slots b) (slots (write_slot slot enc qos tg name payload ?b2))"
    if "length (slot_buf (slots b ! slot)) < T" for tg T
    using write_slot_within [of enc qos tg name payload L slot ?b2 T, OF enc] that b2 by simp
  show ?thesis
    using d w b2 by (auto simp: deliver_one_def Some se deliver_slot_def t Let_def split: if_splits)
qed

lemma update_subscriber_encoders:
  "(\<And>s. sub_push_slot (f s) = sub_push_slot s) \<Longrightarrow>
     map sub_push_slot (subscribers (update_subscriber a f b)) = map sub_push_slot (subscribers b)"
  by (cases "a < length (subscribers b)")
    (simp_all add: update_subscriber_def map_update list_update_same_conv list_update_beyond)

lemma deliver_one_encoders:
  "deliver_one E now name payload qos wid ttl sid a b = (d, b') \<Longrightarrow>
     map sub_push_slot (subscribers b') = map sub_push_slot (subscribers b)"
  by (auto simp: deliver_one_def deliver_slot_def deliver_channel_def next_push_tag_def Let_def
      register_inflight_def cancel_inflight_def write_slot_def update_subscriber_encoders
      split: option.splits if_splits)

lemma appends_encoders:
  assumes "map sub_push_slot (subscribers b') = map sub_push_slot (subscribers b)"
  shows "(\<forall>s \<in> set (subscribers b'). appends_at_most L name payload s) \<longleftrightarrow>
    (\<forall>s \<in> set (subscribers b). appends_at_most L name payload s)"
proof -
  have eq: "(\<forall>s \<in> set ss. appends_at_most L name payload s) \<longleftrightarrow>
      (\<forall>so \<in> set (map sub_push_slot ss). case so of None \<Rightarrow> True
        | Some (_, enc) \<Rightarrow> \<forall>buf qos tag. length (enc buf qos tag name payload) \<le> length buf + L)" for ss
    by (simp add: appends_at_most_def)
  show ?thesis unfolding eq assms ..
qed

lemma deliver_all_within:
  assumes "deliver_all E now name payload qos wid ttl rs drops n b = (drops', n', b')"
    and "\<forall>(s, a) \<in> set rs. a < length (subscribers b)"
    and "\<forall>s \<in> set (subscribers b). appends_at_most L name payload s"
  shows "buffers_within (cfg_slow_consumer_buffer_bytes (config b) + L) (slots b) (slots b')"
  using assms
proof (induction rs arbitrary: drops n b)
  case (Cons y rs)
  obtain s a where y: "y = (s, a)" by (cases y)
  obtain d b1 where d: "deliver_one E now name payload qos wid ttl s a b = (d, b1)"
    by (cases "deliver_one E now name payload qos wid ttl s a b")
  have r: "config b1 = config b" "length (subscribers b1) = length (subscribers b)"
    using deliver_one_routes [OF d] by (simp_all add: same_routes_def)
  have "appends_at_most L name payload (subscribers b ! a)" using Cons.prems(2,3) y by simp
  note w = deliver_one_within [OF d this]
  have enc: "\<forall>s \<in> set (subscribers b1). appends_at_most L name payload s"
    using appends_encoders [OF deliver_one_encoders [OF d]] Cons.prems(3) by blast
  obtain drops1 n1 where "deliver_all E now name payload qos wid ttl rs drops1 n1 b1 = (drops', n', b')"
    using Cons.prems(1) by (cases d) (auto simp: y d)
  from Cons.IH [OF this _ enc] Cons.prems(2) show ?case
    using buffers_within_trans [OF w] by (simp add: r y)
qed simp

lemma unsubscribe_one_slots [simp]: "slots (snd (unsubscribe_one E sid b)) = slots b"
  by (simp add: unsubscribe_one_def Let_def split: option.splits)

lemma unsubscribe_fold_slots [simp]:
  "slots (fold (\<lambda>sid b. snd (unsubscribe_one E sid b)) drops b) = slots b"
  by (induction drops arbitrary: b) auto

lemma count_delivered_slots [simp]: "slots (count_delivered E ticket h n b) = slots b"
  by (simp add: count_delivered_def Let_def split: option.splits)

text \<open>C10: The shared buffer of a push connection is bounded: no publish, at any fanout, grows any
  connection's buffer beyond the slow-consumer threshold plus one frame, so a consumer that stops
  reading costs the broker a bounded amount of memory.\<close>
theorem slow_consumer_bounded:
  assumes inv: "routing_inv E b" and enc: "\<forall>s \<in> set (subscribers b). appends_at_most L name payload s"
  shows "buffers_within (cfg_slow_consumer_buffer_bytes (config b) + L) (slots b)
    (slots (publish_with_key E now ticket name payload qos ttl key b))"
proof (cases "shutting_down b")
  case True
  then show ?thesis by (simp add: publish_with_key_def publish_inner_def)
next
  case False
  let ?b0 = "b\<lparr>publish_count := snd (counter_add ticket 1 (publish_count b)),
    messages_published_total := snd (counter_add ticket 1 (messages_published_total b))\<rparr>"
  let ?h = "topic_handle E name None b"
  obtain rs b1 where s: "snapshot E ticket name ?h key ?b0 = (rs, b1)" by (cases "snapshot E ticket name ?h key ?b0")
  have b1: "subscribers b1 = subscribers b" "slots b1 = slots b" "config b1 = config b"
    using arg_cong [OF s, of snd] by (auto simp: snapshot_alt split: option.splits)
  have "rs = fst (snapshot E ticket name ?h key b)"
    using arg_cong [OF s, of fst] by (simp add: snapshot_counters)
  then have addr: "\<forall>(s, a) \<in> set rs. a < length (subscribers b1)"
    using snapshot_addr [OF inv] refs_okD(3) [OF routing_invD(3) [OF inv]] b1(1) by fastforce
  obtain drops n b2 where d: "deliver_all E now name payload qos None (effective_ttl b ttl) rs [] 0 b1 = (drops, n, b2)"
    by (metis prod_cases3)
  have "fanout E now ticket name ?h payload qos None ttl key b = (drops, n, b2)"
    using s d by (cases ttl) (simp_all add: fanout_def effective_ttl_def Let_def)
  then show ?thesis
    using deliver_all_within [OF d addr, of L] enc False b1 by (simp add: publish_with_key_def publish_inner_def)
qed


section \<open>Witnesses\<close>

text \<open>A broker with a push subscription of connection 5 on the topic \<open>t\<close>.\<close>
definition demo_push :: "(unit, unit) broker" where
  "demo_push = snd (subscribe_with_slot demo_env [99] [116] AtLeastOnce 5 0 (\<lambda>buf qos tag name payload. buf @ payload)
     demo_new)"

lemma demo_push_inv: "routing_inv demo_env demo_push"
proof -
  have "broker_step demo_env demo_new demo_push"
    unfolding demo_push_def subscribe_with_slot_def subscribe_inner_def
    by (rule step_subscribe) (rule surjective_pairing)
  moreover have "length (subscribers demo_push) = Suc 0" by code_simp
  ultimately show ?thesis using broker_step_inv [OF _ demo_new_inv] by simp
qed

lemma demo_push_views:
  "conn_ids demo_push 5 = [1]" "length (subscribers demo_push) = Suc 0"
  "sub_of demo_push 1 = Some \<lparr>sr_topic = [116], sr_subscriber = 0, sr_group = None\<rparr>"
  "cfg_slow_consumer_buffer_bytes (config demo_push) = 4"
  by code_simp+

lemma demo_push_subscribers:
  "subscribers demo_push = [\<lparr>sub_client_id = [99], sub_queue = queue_new AtLeastOnce 8, sub_push_sender = None,
     sub_push_slot = Some (0, \<lambda>buf qos tag name payload. buf @ payload), sub_push_next_tag = 1\<rparr>]"
  by (simp add: demo_push_def subscribe_with_slot_def subscribe_inner_def subscribe_inner_grouped_def
      Let_def demo_config_def split: prod.splits)


theorem slow_consumer_bounded_witness:
  "buffers_within (4 + 3) (slots demo_push)
     (slots (publish_with_key demo_env 7 0 [116] [1, 2, 3] AtLeastOnce None None demo_push))"
  using slow_consumer_bounded [OF demo_push_inv, of 3 "[116]" "[1, 2, 3]" 7 0 AtLeastOnce None None]
  by (simp add: demo_push_subscribers appends_at_most_def demo_push_views(4))

definition demo_inflight :: "(unit, unit) broker" where
  "demo_inflight = publish_inner demo_env 7 0 [116] None [1] AtLeastOnce (Some 9) None None demo_push"


end
