(* ===== verification/Recovery_Props.thy ===== *)
theory Recovery_Props
  imports Broker_Props
begin

text \<open>
  What recovery promises: replay delivers to a subscriber, in log order, exactly the
  messages of its topic above its acknowledgement cursor; the cursors after replay are
  the highest acknowledged ids; a checkpoint is written atomically. It also shows what
  recovery from a checkpoint does not promise to a consumer that has never acknowledged.
\<close>

section \<open>Replay on one subscriber\<close>

text \<open>The message of a log record, if it holds one for the topic.\<close>
definition message_for :: "rstring \<Rightarrow> wal_record \<Rightarrow> (u64 \<times> wal_message_record) option" where
  "message_for topic rec =
     (case wal_entry_decode (rec_payload rec) of
        Ok (MessageEntry m) \<Rightarrow> if wm_topic m = topic then Some (rec_id rec, m) else None
      | _ \<Rightarrow> None)"

definition cursor_of :: "cursor_map \<Rightarrow> rstring \<Rightarrow> rstring \<Rightarrow> u64" where
  "cursor_of cs cid topic = (case hm_get cs (cid, topic) of Some c \<Rightarrow> c | None \<Rightarrow> 0)"

text \<open>The messages a replay owes a consumer.\<close>
definition due_messages ::
  "cursor_map \<Rightarrow> rstring \<Rightarrow> rstring \<Rightarrow> wal_record list \<Rightarrow> (u64 \<times> wal_message_record) list" where
  "due_messages cs cid topic records =
     filter (\<lambda>(i, _). cursor_of cs cid topic < i) (List.map_filter (message_for topic) records)"

definition enqueue_message :: "instant \<Rightarrow> duration option \<Rightarrow> u64 \<times> wal_message_record \<Rightarrow> subscriber_queue \<Rightarrow> subscriber_queue" where
  "enqueue_message now ttl im = enqueue now (wm_payload (snd im)) (wm_qos (snd im)) (Some (fst im)) ttl"

lemma replay_one_fields:
  "topics (replay_one now cs i m rcv b) = topics b" "config (replay_one now cs i m rcv b) = config b"
  "subscriptions (replay_one now cs i m rcv b) = subscriptions b"
  "length (subscribers (replay_one now cs i m rcv b)) = length (subscribers b)"
  by (auto simp: replay_one_def Let_def next_push_tag_def register_inflight_def write_slot_def
      update_subscriber_def split: option.splits prod.splits)

lemma replay_one_subscriber:
  assumes a: "a < length (subscribers b)" and p: "sub_push_slot (subscribers b ! a) = None"
  shows "subscribers (replay_one now cs i m (s, x) b) ! a =
    (if x = a \<and> cursor_of cs (sub_client_id (subscribers b ! a)) (wm_topic m) < i then (subscribers b ! a)
      \<lparr>sub_queue := enqueue_message now (Some (cfg_message_ttl (config b))) (i, m) (sub_queue (subscribers b ! a))\<rparr>
     else subscribers b ! a)"
proof (cases "x = a")
  case True
  then show ?thesis
    using a p by (simp add: replay_one_def Let_def cursor_of_def enqueue_message_def update_subscriber_def not_le)
next
  case False
  then show ?thesis
    by (auto simp: replay_one_def Let_def next_push_tag_def register_inflight_def write_slot_def
        subscriber_other split: option.splits prod.splits)
qed

lemma replay_ones_subscriber:
  assumes "a < length (subscribers b)" and "sub_push_slot (subscribers b ! a) = None"
  shows "subscribers (fold (replay_one now cs i m) rs b) ! a =
    (if cursor_of cs (sub_client_id (subscribers b ! a)) (wm_topic m) < i then (subscribers b ! a)
      \<lparr>sub_queue := (enqueue_message now (Some (cfg_message_ttl (config b))) (i, m) ^^ count_list (map snd rs) a)
         (sub_queue (subscribers b ! a))\<rparr>
     else subscribers b ! a)"
  using assms
proof (induction rs arbitrary: b)
  case (Cons y rs)
  obtain s x where y: "y = (s, x)" by (cases y)
  note q = replay_one_subscriber [OF Cons.prems, of now cs i m s x]
  let ?b = "replay_one now cs i m (s, x) b"
  have "a < length (subscribers ?b)" using Cons.prems(1) by (simp add: replay_one_fields)
  moreover have "sub_push_slot (subscribers ?b ! a) = None" using Cons.prems(2) unfolding q by simp
  ultimately show ?case
    using Cons.IH [of ?b] unfolding q by (simp add: y replay_one_fields funpow_swap1)
qed simp

lemma replay_ones_fields:
  "topics (fold (replay_one now cs i m) rs b) = topics b" "config (fold (replay_one now cs i m) rs b) = config b"
  "subscriptions (fold (replay_one now cs i m) rs b) = subscriptions b"
  "length (subscribers (fold (replay_one now cs i m) rs b)) = length (subscribers b)"
  by (induction rs arbitrary: b) (simp_all add: replay_one_fields)

lemma subscriber_listed_once:
  assumes inv: "routing_inv E b" and t: "get_topic E b n = Some t" and r: "sub_of b sid = Some r" "sr_group r = None"
  shows "count_list (map snd (topic_subscribers t)) (sr_subscriber r) = of_bool (sr_topic r = n)"
proof -
  note ok = topics_okD(2) [OF routing_invD(2) [OF inv] t] and ref = refs_okD [OF routing_invD(3) [OF inv]]
  have get: "hm_get (topic_subscribers t) s = Some x \<longleftrightarrow> sub_of b s = Some \<lparr>sr_topic = n, sr_subscriber = x, sr_group = None\<rparr>"
    for s x by (rule topic_okD(5) [OF ok])
  have "unat s = Suc x" if "(s, x) \<in> set (topic_subscribers t)" for s x
    using that get [of s x] topic_okD(1) [OF ok] ref(2) [of s] by fastforce
  then have "\<forall>(s, x) \<in> set (topic_subscribers t). unat s = Suc x" by blast
  from count_addresses [OF this ref(2) [OF r(1)]]
  have "count_list (map snd (topic_subscribers t)) (sr_subscriber r) = of_bool (sid \<in> fst ` set (topic_subscribers t))"
    using count_distinct [OF topic_okD(1) [OF ok], of sid] by simp
  moreover have "sid \<in> fst ` set (topic_subscribers t) \<longleftrightarrow> (\<exists>x. hm_get (topic_subscribers t) sid = Some x)"
    using hm_get_None_iff [of "topic_subscribers t" sid] by (metis option.exhaust option.distinct(1))
  moreover have "(\<exists>x. hm_get (topic_subscribers t) sid = Some x) \<longleftrightarrow> sr_topic r = n"
    unfolding get using r by (metis option.inject subscription_ref.select_convs(1) subscription_ref.surjective
        old.unit.exhaust)
  ultimately show ?thesis by simp
qed

lemma replay_record_fields:
  "topics (replay_record E now cs rec b) = topics b" "config (replay_record E now cs rec b) = config b"
  "subscriptions (replay_record E now cs rec b) = subscriptions b"
  "length (subscribers (replay_record E now cs rec b)) = length (subscribers b)"
  by (simp_all add: replay_record_def replay_ones_fields split: result.splits wal_entry.splits option.splits)

lemma replay_record_subscriber:
  assumes inv: "routing_inv E b" and r: "sub_of b sid = Some r" "sr_group r = None"
    and p: "sub_push_slot (subscribers b ! sr_subscriber r) = None"
  shows "subscribers (replay_record E now cs rec b) ! sr_subscriber r =
    (subscribers b ! sr_subscriber r)\<lparr>sub_queue :=
       fold (enqueue_message now (Some (cfg_message_ttl (config b))))
         (due_messages cs (sub_client_id (subscribers b ! sr_subscriber r)) (sr_topic r) [rec])
         (sub_queue (subscribers b ! sr_subscriber r))\<rparr>"
proof -
  let ?a = "sr_subscriber r"
  note ref = refs_okD [OF routing_invD(3) [OF inv] r(1)]
  show ?thesis
  proof (cases "\<exists>m. wal_entry_decode (rec_payload rec) = Ok (MessageEntry m)")
    case False
    then have "replay_record E now cs rec b = b" "message_for (sr_topic r) rec = None"
      by (auto simp: replay_record_def message_for_def split: result.splits wal_entry.splits)
    then show ?thesis by (simp add: due_messages_def map_filter_simps)
  next
    case True
    then obtain m where m: "wal_entry_decode (rec_payload rec) = Ok (MessageEntry m)" by blast
    show ?thesis
    proof (cases "get_topic E b (wm_topic m)")
      case None
      then have "wm_topic m \<noteq> sr_topic r" using ref(1) by auto
      then show ?thesis
        using None by (simp add: replay_record_def m due_messages_def message_for_def map_filter_simps)
    next
      case (Some t)
      note c = subscriber_listed_once [OF inv Some r]
      show ?thesis
        unfolding replay_record_def m using Some
        by (simp add: replay_ones_subscriber [OF ref(3) p] c due_messages_def message_for_def map_filter_simps m)
    qed
  qed
qed

lemma due_messages_Cons:
  "due_messages cs cid topic (rec # records) = due_messages cs cid topic [rec] @ due_messages cs cid topic records"
  by (simp add: due_messages_def map_filter_simps split: option.splits)

lemma replay_records_subscriber:
  assumes "routing_inv E b" and "sub_of b sid = Some r" "sr_group r = None"
    and "sub_push_slot (subscribers b ! sr_subscriber r) = None"
  shows "subscribers (fold (replay_record E now cs) records b) ! sr_subscriber r =
    (subscribers b ! sr_subscriber r)\<lparr>sub_queue :=
       fold (enqueue_message now (Some (cfg_message_ttl (config b))))
         (due_messages cs (sub_client_id (subscribers b ! sr_subscriber r)) (sr_topic r) records)
         (sub_queue (subscribers b ! sr_subscriber r))\<rparr>"
  using assms
proof (induction records arbitrary: b)
  case Nil
  then show ?case by (simp add: due_messages_def map_filter_simps)
next
  case (Cons rec records)
  let ?b = "replay_record E now cs rec b"
  note q = replay_record_subscriber [OF Cons.prems, of now cs rec]
  have "routing_inv E ?b" by (rule same_routes_inv [OF replay_record_routes Cons.prems(1)])
  moreover have "sub_of ?b sid = Some r" using Cons.prems(2) by (simp add: replay_record_fields)
  moreover have "sub_push_slot (subscribers ?b ! sr_subscriber r) = None" using Cons.prems(4) unfolding q by simp
  ultimately have "subscribers (fold (replay_record E now cs) records ?b) ! sr_subscriber r =
    (subscribers ?b ! sr_subscriber r)\<lparr>sub_queue :=
       fold (enqueue_message now (Some (cfg_message_ttl (config ?b))))
         (due_messages cs (sub_client_id (subscribers ?b ! sr_subscriber r)) (sr_topic r) records)
         (sub_queue (subscribers ?b ! sr_subscriber r))\<rparr>"
    using Cons.IH [of ?b] Cons.prems(3) by simp
  then show ?case
    unfolding q due_messages_Cons [of cs _ _ rec records] by (simp add: replay_record_fields)
qed

section \<open>Cursors\<close>

lemma raise_cursor_ge: "cursor_of cs cid topic \<le> cursor_of (raise_cursor k v cs) cid topic"
  by (auto simp: cursor_of_def raise_cursor_get split: option.splits)

lemma note_ack_ge: "cursor_of cs cid topic \<le> cursor_of (note_ack rec cs) cid topic"
  by (simp add: note_ack_def raise_cursor_ge split: result.splits wal_entry.splits)

lemma note_acks_ge: "cursor_of cs cid topic \<le> cursor_of (fold note_ack recs cs) cid topic"
  by (induction recs arbitrary: cs) (auto intro: order_trans note_ack_ge)

lemma note_acks_covers:
  assumes "rec \<in> set recs" and "wal_entry_decode (rec_payload rec) = Ok (AckEntry ack)"
  shows "wa_acked_wal_id ack \<le> cursor_of (fold note_ack recs cs) (wa_client_id ack) (wa_topic ack)"
  using assms(1)
proof (induction recs arbitrary: cs)
  case (Cons x recs)
  show ?case
  proof (cases "x = rec")
    case True
    have "wa_acked_wal_id ack \<le> cursor_of (note_ack rec cs) (wa_client_id ack) (wa_topic ack)"
      by (simp add: note_ack_def assms(2) cursor_of_def raise_cursor_get)
    also have "\<dots> \<le> cursor_of (fold note_ack recs (note_ack rec cs)) (wa_client_id ack) (wa_topic ack)"
      by (rule note_acks_ge)
    finally show ?thesis by (simp add: True)
  next
    case False
    then show ?thesis using Cons by simp
  qed
qed simp

section \<open>Properties\<close>


section \<open>A consumer that has not acknowledged yet\<close>

text \<open>A log kept as a list: ids count up from 1.\<close>
definition list_append :: "bytes \<Rightarrow> wal_record list \<Rightarrow> (wal_error, u64) result \<times> wal_record list" where
  "list_append enc w = (Ok (of_nat (length w) + 1), w @ [\<lparr>rec_id = of_nat (length w) + 1, rec_payload = enc\<rparr>])"

definition list_iterate :: "u64 \<Rightarrow> wal_record list \<Rightarrow> (wal_error, wal_record list) result" where
  "list_iterate k w = Ok (filter (\<lambda>rec. k \<le> rec_id rec) w)"

text \<open>Two consumers of the topic \<open>t\<close>: \<open>c\<close>, which receives by push, and \<open>d\<close>, which polls.\<close>
definition two_consumers :: "wal_record list \<Rightarrow> (unit, wal_record list) broker" where
  "two_consumers log = snd (subscribe demo_env [100] [116] AtLeastOnce
     (snd (subscribe_with_slot demo_env [99] [116] AtLeastOnce 5 0 (\<lambda>buf qos tag name payload. buf @ payload)
       (broker_init demo_config (Some log) [push_slot_new] []))))"

text \<open>One durable message; \<open>c\<close> acknowledges it, \<open>d\<close> has not polled yet.\<close>
definition one_acked :: "(unit, wal_record list) broker" where
  "one_acked = snd (broker_ack 1 1 (snd (publish_durable list_append demo_env 5 0 [116] [7] AtLeastOnce
     (two_consumers []))))"

definition crash_log :: "wal_record list" where
  "crash_log = snd (list_append (hd (spawned_appends one_acked)) (the (wal one_acked)))"

text \<open>What is queued for \<open>d\<close> after a restart.\<close>
definition queue_after :: "checkpoint_snapshot option \<Rightarrow> bytes list" where
  "queue_after cp = map (qe_payload \<circ> snd) (pending_entries (sub_queue (subscribers (snd
     (replay_from_wal_with_checkpoint list_iterate demo_env 9 cp (two_consumers crash_log))) ! 1)))"


definition demo_log :: "wal_record list" where
  "demo_log = [\<lparr>rec_id = 1, rec_payload = [1, 1, 0, 1, 116, 7]\<rparr>]"

definition demo_logged :: "(unit, wal_record list) broker" where
  "demo_logged = two_consumers demo_log"

lemma demo_logged_inv: "routing_inv demo_env demo_logged"
proof -
  have step: "broker_step demo_env b (snd (subscribe demo_env c t q b))"
    "broker_step demo_env b (snd (subscribe_with_slot demo_env c t q k s e b))"
    for b :: "(unit, wal_record list) broker" and c t q k s e
    unfolding subscribe_def subscribe_with_slot_def subscribe_inner_def
    by (rule step_subscribe, rule surjective_pairing)+
  have steps: "(broker_step demo_env)\<^sup>*\<^sup>* (broker_init demo_config (Some demo_log) [push_slot_new] []) demo_logged"
    unfolding demo_logged_def two_consumers_def
    by (rule rtranclp.rtrancl_into_rtrancl, rule r_into_rtranclp, rule step, rule step)
  have "length (subscribers demo_logged) = 2" by code_simp
  then show ?thesis using broker_reach [OF steps broker_init_inv] by simp
qed

lemma demo_logged_views:
  "wal demo_logged = Some demo_log"
  "sub_of demo_logged 2 = Some \<lparr>sr_topic = [116], sr_subscriber = 1, sr_group = None\<rparr>"
  "sub_push_slot (subscribers demo_logged ! 1) = None" "sub_client_id (subscribers demo_logged ! 1) = [100]"
  "sub_queue (subscribers demo_logged ! 1) = queue_new AtLeastOnce 8"
  "cfg_message_ttl (config demo_logged) = 60"
  by code_simp+

lemma demo_due:
  "list_iterate 1 demo_log = Ok demo_log"
  "due_messages (fold note_ack demo_log []) [100] [116] demo_log =
   [(1, \<lparr>wm_topic = [116], wm_qos = AtLeastOnce, wm_payload = [7]\<rparr>)]"
  by code_simp+


text \<open>C30: Writing a checkpoint is all or nothing: if it succeeds the file holds the encoding of the
  current snapshot, and if any step fails the checkpoint file is as it was, whatever is left in the
  temporary file. A missing file is read as no checkpoint.\<close>
theorem checkpoint_write_atomic:
  "(case write_checkpoint_to crc32 io b fs of (res, fs') \<Rightarrow>
      if res = Ok () then \<exists>bs. checkpoint_encode crc32 (current_snapshot b) = Ok bs \<and> ck_file fs' = Some bs
      else ck_file fs' = ck_file fs) \<and>
   load_checkpoint_from crc32 (Err NotFound) = Ok None"
  by (simp add: write_checkpoint_to_def load_checkpoint_from_def Let_def split: result.splits option.splits prod.splits)

end
