(* ===== verification/SubQueue_Props.thy ===== *)
theory SubQueue_Props
  imports SubQueue
begin

text \<open>
  What a subscriber queue promises. The locale \<open>bounded_fifo\<close> is the contract of a
  queue that drops its oldest elements when it is full; the subscriber queue is an
  interpretation of it. The theorems state FIFO order, what eviction drops, the
  reachable states of a polled queue, that maintenance neither loses nor
  duplicates a message, that TTL expiry is complete, when an unacknowledged
  message is delivered again, and the backoff in closed form.
\<close>

section \<open>The contract of a bounded queue\<close>

text \<open>Polling at a list of times: the elements obtained until the queue is empty.\<close>
fun polls :: "('t \<Rightarrow> 'q \<Rightarrow> 'a option \<times> 'q) \<Rightarrow> 't list \<Rightarrow> 'q \<Rightarrow> 'a list" where
  "polls deq [] q = []"
| "polls deq (t # ts) q =
     (case deq t q of (Some x, q') \<Rightarrow> x # polls deq ts q' | (None, _) \<Rightarrow> [])"

locale bounded_fifo =
  fixes elems :: "'q \<Rightarrow> 'a list"
    and room :: "'q \<Rightarrow> nat"
    and content :: "'x \<Rightarrow> 'a"
    and enq :: "'x \<Rightarrow> 'q \<Rightarrow> 'q"
    and deq :: "'t \<Rightarrow> 'q \<Rightarrow> 'a option \<times> 'q"
    and inv :: "nat \<Rightarrow> 'q \<Rightarrow> bool"
  assumes enq_elems: "inv (Suc n) q \<Longrightarrow>
      elems (enq x q) = drop (length (elems q) - room q) (elems q) @ [content x]"
    and enq_room: "inv (Suc n) q \<Longrightarrow> room (enq x q) = room q"
    and enq_inv: "inv (Suc n) q \<Longrightarrow> inv n (enq x q)"
    and deq_hd: "inv n q \<Longrightarrow> fst (deq t q) = (case elems q of [] \<Rightarrow> None | x # _ \<Rightarrow> Some x)"
    and deq_tl: "inv n q \<Longrightarrow> elems (snd (deq t q)) = tl (elems q)"
    and deq_inv: "inv n q \<Longrightarrow> inv n (snd (deq t q))"
begin

lemma enqs_fit:
  "inv (n + length xs) q \<Longrightarrow> length (elems q) + length xs \<le> Suc (room q) \<Longrightarrow>
     elems (fold enq xs q) = elems q @ map content xs \<and> inv n (fold enq xs q)"
proof (induction xs arbitrary: q)
  case (Cons x xs)
  have i: "inv (Suc (n + length xs)) q" using Cons.prems(1) by simp
  have "elems (enq x q) = elems q @ [content x]"
    using enq_elems [OF i] Cons.prems(2) by simp
  then show ?case
    using Cons.IH [OF enq_inv [OF i]] enq_room [OF i] Cons.prems(2) by simp
qed simp

lemma polls_take: "inv n q \<Longrightarrow> polls deq ts q = take (length ts) (elems q)"
proof (induction ts arbitrary: q)
  case (Cons t ts)
  obtain xo q' where d: "deq t q = (xo, q')" by (cases "deq t q")
  show ?case
    using Cons.IH [of q'] deq_hd [OF Cons.prems, of t] deq_tl [OF Cons.prems, of t]
      deq_inv [OF Cons.prems, of t]
    by (cases "elems q") (auto simp: d)
qed simp

lemma fifo:
  assumes "inv (n + length xs) q" and "length (elems q) + length xs \<le> Suc (room q)"
  shows "polls deq ts (fold enq xs q) = take (length ts) (elems q @ map content xs)"
  using enqs_fit [OF assms] polls_take by metis

end

section \<open>The subscriber queue meets the contract\<close>

definition queued :: "subscriber_queue \<Rightarrow> bytes list" where
  "queued q = map qe_payload (live_pending (pending q) (pending_entries q))"

definition queue_room :: "subscriber_queue \<Rightarrow> nat" where
  "queue_room q = sq_capacity q - length (inflight q) - 1"

text \<open>One call of \<open>enqueue\<close>: time, payload, QoS, WAL id and TTL.\<close>
type_synonym enqueue_request = "instant \<times> bytes \<times> qos \<times> u64 option \<times> duration option"

definition enqueue_req :: "enqueue_request \<Rightarrow> subscriber_queue \<Rightarrow> subscriber_queue" where
  "enqueue_req = (\<lambda>(now, payload, mq, wid, ttl). enqueue now payload mq wid ttl)"

definition request_payload :: "enqueue_request \<Rightarrow> bytes" where
  "request_payload = (\<lambda>(now, payload, mq, wid, ttl). payload)"

text \<open>One poll, at a time and with a retry base delay: the payload obtained.\<close>
definition poll_payload_at ::
  "instant \<times> duration \<Rightarrow> subscriber_queue \<Rightarrow> bytes option \<times> subscriber_queue" where
  "poll_payload_at = (\<lambda>(now, base) q.
     map_prod (map_option (qe_payload \<circ> fst)) id (dequeue now base q))"

definition poll_budget :: "nat \<Rightarrow> subscriber_queue \<Rightarrow> bool" where
  "poll_budget n q \<longleftrightarrow> poll_inv q \<and> unat (next_tag q) + n < 2 ^ 64"

lemma poll_inv_parts:
  assumes "poll_inv q"
  shows "hm_ok (pending_entries q)" "distinct (pending q)"
    "hm_keys (pending_entries q) \<subseteq> set (pending q)"
  using assms by (auto simp only: poll_inv_def queue_inv_def entries_ok_def)

lemma enqueue_queued:
  assumes "poll_inv q"
  shows "queued (enqueue now p mq w ttl q) = drop (length (queued q) - queue_room q) (queued q) @ [p]"
proof -
  note parts = poll_inv_parts [OF assms]
  obtain ts pe where ev: "evict (sq_capacity q) (length (inflight q)) (pending q) (pending_entries q)
      = (ts, pe)" by (cases "evict (sq_capacity q) (length (inflight q)) (pending q) (pending_entries q)")
  note spec = evict_live [OF parts ev]
  have "next_tag q \<notin> set ts"
    using poll_fresh [OF assms] evict_subset [OF ev] by blast
  then have "live_pending ts (hm_insert (next_tag q) e pe) = live_pending ts pe" for e
    by (intro live_pending_cong) auto
  then show ?thesis
    using spec live_pending_length [OF parts]
    by (simp add: queued_def queue_room_def enqueue_def ev Let_def drop_map)
qed

lemma next_tag_step: "unat (n :: u64) + Suc k < 2 ^ 64 \<Longrightarrow> n \<noteq> - 1 \<and> unat (n + 1) + k < 2 ^ 64"
proof -
  assume a: "unat n + Suc k < 2 ^ 64"
  then have "unat (n + 1) = Suc (unat n)"
    by (simp add: unat_word_ariths)
  moreover have "n \<noteq> - 1"
    using a by (auto simp: unsigned_minus_1_eq_mask mask_eq_exp_minus_1)
  ultimately show ?thesis using a by simp
qed

lemma enqueue_budget:
  "poll_budget (Suc n) q \<Longrightarrow> poll_budget n (enqueue now p mq w ttl q)"
  unfolding poll_budget_def
  using next_tag_step [of "next_tag q" n] enqueue_poll_inv [of q now p mq w ttl]
  by (simp add: enqueue_fields)

lemma dequeue_fields:
  "next_tag (snd (dequeue now base q)) = next_tag q"
  by (auto simp: dequeue_def Let_def split: prod.splits option.splits qos.splits)

lemma dequeue_queued:
  assumes "poll_inv q"
  shows "fst (poll_payload_at (now, base) q) = (case queued q of [] \<Rightarrow> None | x # _ \<Rightarrow> Some x)"
    and "queued (snd (poll_payload_at (now, base) q)) = tl (queued q)"
proof -
  note parts = poll_inv_parts [OF assms]
  note pop = pop_pending_live [OF parts(2,3,1)]
  show "fst (poll_payload_at (now, base) q) = (case queued q of [] \<Rightarrow> None | x # _ \<Rightarrow> Some x)"
    "queued (snd (poll_payload_at (now, base) q)) = tl (queued q)"
    using pop by (auto simp: queued_def poll_payload_at_def dequeue_def Let_def
        split: list.splits qos.splits)
qed

interpretation subscriber_fifo: bounded_fifo queued queue_room request_payload enqueue_req
  poll_payload_at poll_budget
proof
  fix n q and x :: enqueue_request and t :: "instant \<times> duration"
  obtain now p mq w ttl where x: "x = (now, p, mq, w, ttl)" by (cases x) auto
  obtain at base where t: "t = (at, base)" by (cases t)
  show "queued (enqueue_req x q) = drop (length (queued q) - queue_room q) (queued q) @ [request_payload x]"
    if "poll_budget (Suc n) q"
    using that enqueue_queued [of q]
    by (simp add: x enqueue_req_def request_payload_def poll_budget_def)
  show "queue_room (enqueue_req x q) = queue_room q"
    by (simp add: x enqueue_req_def queue_room_def enqueue_fields)
  show "poll_budget n (enqueue_req x q)" if "poll_budget (Suc n) q"
    using enqueue_budget [OF that] by (simp add: x enqueue_req_def)
  show "fst (poll_payload_at t q) = (case queued q of [] \<Rightarrow> None | x # _ \<Rightarrow> Some x)"
    "queued (snd (poll_payload_at t q)) = tl (queued q)" if "poll_budget n q"
    using that dequeue_queued [of q] by (simp_all add: t poll_budget_def)
  show "poll_budget n (snd (poll_payload_at t q))" if "poll_budget n q"
    using that dequeue_poll_inv [of q]
    by (simp add: t poll_budget_def poll_payload_at_def dequeue_fields)
qed

section \<open>Steps of a polled queue and of a pushed queue\<close>

text \<open>A polled queue takes these steps, in any order and at any times.\<close>
inductive poll_step :: "subscriber_queue \<Rightarrow> subscriber_queue \<Rightarrow> bool" where
  step_enqueue: "next_tag q \<noteq> - 1 \<Longrightarrow> poll_step q (enqueue now p mq w ttl q)"
| step_dequeue: "poll_step q (snd (dequeue now base q))"
| step_ack: "poll_step q (snd (queue_ack tag q))"
| step_tick: "poll_step q (snd (queue_maintenance_tick now mr q))"

text \<open>The queue of a push subscription only tracks deliveries in flight.\<close>
inductive push_step :: "subscriber_queue \<Rightarrow> subscriber_queue \<Rightarrow> bool" where
  push_register: "push_step q (register_push_inflight now tag p w ttl q)"
| push_cancel: "push_step q (cancel_push_inflight tag q)"
| push_ack: "push_step q (snd (queue_ack tag q))"
| push_tick: "push_step q (snd (queue_maintenance_tick now mr q))"

inductive_cases poll_stepE: "poll_step q q'"
inductive_cases push_stepE: "push_step q q'"

lemma poll_step_inv: "poll_step q q' \<Longrightarrow> poll_inv q \<Longrightarrow> poll_inv q'"
  by (erule poll_stepE) (auto intro: enqueue_poll_inv dequeue_poll_inv ack_poll_inv maintenance_spec(3))

lemma Un_subset_chain: "A \<subseteq> P \<union> I \<and> I' \<subseteq> I \<Longrightarrow> X \<and> I \<subseteq> J \<Longrightarrow> A \<union> I' \<subseteq> P \<union> J"
  by blast

lemma maintenance_tags:
  assumes "queue_inv q"
  shows "set (pending (snd (queue_maintenance_tick now mr q))) \<union>
      hm_keys (inflight (snd (queue_maintenance_tick now mr q))) \<subseteq>
    set (pending q) \<union> hm_keys (inflight q)"
    and "next_tag (snd (queue_maintenance_tick now mr q)) = next_tag q"
proof -
  obtain xh pe infl dr where x: "expire_loop now (expiration_heap q) (pending_entries q) (inflight q) []
      = (xh, pe, infl, dr)" and core: "core_inv pe infl (pending q) xh"
    using maintenance_loops [OF assms] by metis
  obtain rh pend pe' infl' dr' where r: "retry_loop now mr (retry_heap q) (pending q) pe infl dr
      = (rh, pend, pe', infl', dr')" by (metis prod_cases5)
  have "entries_ok infl xh" using core by (simp add: core_inv_def)
  note sub = retry_loop_pending [OF this r] expire_loop_subset [OF x]
  have "set pend \<union> hm_keys infl' \<subseteq> set (pending q) \<union> hm_keys (inflight q)"
    by (rule Un_subset_chain [OF sub])
  then show "set (pending (snd (queue_maintenance_tick now mr q))) \<union>
      hm_keys (inflight (snd (queue_maintenance_tick now mr q))) \<subseteq>
    set (pending q) \<union> hm_keys (inflight q)"
    by (simp add: queue_maintenance_tick_def x r)
  show "next_tag (snd (queue_maintenance_tick now mr q)) = next_tag q"
    by (simp add: queue_maintenance_tick_def x r)
qed

lemma dequeue_tags:
  assumes "queue_inv q"
  shows "set (pending (snd (dequeue now base q))) \<union> hm_keys (inflight (snd (dequeue now base q))) \<subseteq>
    set (pending q) \<union> hm_keys (inflight q)"
proof -
  obtain eo ts pe where p: "pop_pending (pending q) (pending_entries q) = (eo, ts, pe)"
    by (metis prod_cases3)
  note sub = pop_pending_subset [OF p]
  have "qe_tag e \<in> set (pending q)" if "eo = Some e" for e
    using that sub assms unfolding queue_inv_def by (metis entries_ok_tag)
  then show ?thesis
    using sub by (cases eo) (auto simp: dequeue_def p Let_def simp del: set_map split: qos.splits)
qed

text \<open>A tag that is not in the queue and was already issued.\<close>
definition retired :: "u64 \<Rightarrow> subscriber_queue \<Rightarrow> bool" where
  "retired tag q \<longleftrightarrow> tag < next_tag q \<and> tag \<notin> set (pending q) \<union> hm_keys (inflight q)"

lemma retired_step:
  assumes "poll_step q q'" and "poll_inv q" and "retired tag q"
  shows "retired tag q'"
proof -
  have qi: "queue_inv q" using assms(2) by (simp add: poll_inv_def)
  from assms(1) show ?thesis
  proof cases
    case (step_enqueue now p mq w ttl)
    then show ?thesis
      using assms(3) less_succ_word(2) enqueue_fields(6) [of now p mq w ttl q]
      by (auto simp: retired_def enqueue_fields(1,3) simp del: set_map)
  next
    case (step_dequeue now base)
    then show ?thesis
      using assms(3) dequeue_tags [OF qi, of now base] dequeue_fields [of now base q]
      unfolding retired_def by auto
  next
    case (step_ack t)
    then show ?thesis
      using assms(3) unfolding retired_def queue_ack_def by auto
  next
    case (step_tick now mr)
    then show ?thesis
      using assms(3) maintenance_tags [OF qi, of now mr] unfolding retired_def by auto
  qed
qed

lemma retired_steps:
  "poll_step\<^sup>*\<^sup>* q q' \<Longrightarrow> poll_inv q \<Longrightarrow> retired tag q \<Longrightarrow> poll_inv q' \<and> retired tag q'"
  by (induction rule: rtranclp_induct) (auto intro: poll_step_inv retired_step)

lemma double_times_power:
  "unat f * 2 ^ n < 2 ^ 32 \<Longrightarrow> unat (double_times n f) = unat f * 2 ^ n"
proof (induction n arbitrary: f)
  case (Suc n)
  have "unat f * 2 < 2 ^ 32"
    using Suc.prems by (metis (no_types, lifting) le_less_trans mult.assoc mult.commute
        mult_le_mono2 one_le_numeral one_le_power mult.right_neutral power_Suc)
  then have "unat (saturating_mul_u32 f 2) = unat f * 2"
    by (simp add: saturating_mul_u32_def unat_word_ariths)
  then show ?case using Suc by (simp add: mult.assoc)
qed simp

section \<open>Properties\<close>

lemma poll_inv_enqueue_new: "poll_inv (enqueue now p mq w ttl (queue_new dq cap))"
  by (rule enqueue_poll_inv) (simp, simp add: queue_new_def)

text \<open>C12: FIFO: on a queue with room, polling after a series of enqueues returns the payloads
  that were queued, then the new ones, in the order they were enqueued, for every choice of times,
  QoS levels and TTLs.\<close>
theorem queue_fifo_order:
  assumes "poll_inv q" and "unat (next_tag q) + length reqs < 2 ^ 64"
    and "length (queued q) + length reqs \<le> Suc (queue_room q)"
  shows "polls poll_payload_at ts (fold enqueue_req reqs q) =
    take (length ts) (queued q @ map request_payload reqs)"
  using subscriber_fifo.fifo [of 0 reqs q ts] assms by (simp add: poll_budget_def)

theorem queue_fifo_order_witness:
  "polls poll_payload_at [(5, 1), (6, 1)] (fold enqueue_req
     [(1, [7], AtLeastOnce, None, Some 9), (2, [8], AtMostOnce, None, None)] (queue_new AtLeastOnce 4)) =
   [[7], [8]]"
proof -
  have "queued (queue_new AtLeastOnce 4) = []" "queue_room (queue_new AtLeastOnce 4) = 3"
    "unat (next_tag (queue_new AtLeastOnce 4)) = 1"
    by (simp_all add: queued_def queue_room_def queue_new_def)
  then show ?thesis
    using queue_fifo_order [of "queue_new AtLeastOnce 4"
        "[(1, [7], AtLeastOnce, None, Some 9), (2, [8], AtMostOnce, None, None)]" "[(5, 1), (6, 1)]"]
    by (simp add: request_payload_def)
qed

text \<open>C18: Drop-oldest: enqueueing keeps the newest messages that fit beside the new one and drops
  the oldest pending ones, never one in flight; the queue then holds at most its capacity, or one
  message more than are in flight when those alone fill it.\<close>
theorem enqueue_drops_oldest:
  assumes "poll_inv q"
  shows "let q' = enqueue now p mq w ttl q in
    queued q' = drop (length (queued q) - queue_room q) (queued q) @ [p] \<and>
    inflight q' = inflight q \<and>
    length (pending_entries q') + length (inflight q') \<le> max (sq_capacity q) (Suc (length (inflight q)))"
proof -
  let ?q' = "enqueue now p mq w ttl q"
  have "queue_inv ?q'"
    using assms by (intro enqueue_inv poll_fresh) (simp add: poll_inv_def)
  then have "length (pending_entries ?q') = length (queued ?q')"
    by (simp add: queued_def live_pending_length queue_inv_def entries_ok_def)
  moreover have "queued ?q' = drop (length (queued q) - queue_room q) (queued q) @ [p]"
    by (rule enqueue_queued [OF assms(1)])
  ultimately show ?thesis
    by (simp add: enqueue_fields queue_room_def)
qed

theorem enqueue_drops_oldest_witness:
  "queued (enqueue 2 [9] AtMostOnce None None (enqueue 1 [8] AtMostOnce None None (queue_new AtMostOnce 1)))
   = [[9]]"
proof -
  let ?q = "enqueue 1 [8] AtMostOnce None None (queue_new AtMostOnce 1)"
  have "poll_inv ?q" by (rule poll_inv_enqueue_new)
  moreover have "queue_room ?q = 0" by (simp add: queue_room_def enqueue_fields queue_new_def)
  ultimately show ?thesis
    using enqueue_drops_oldest [of ?q 2 "[9]" AtMostOnce None None] by (simp add: Let_def)
qed

text \<open>C13: Every state a polled queue can reach, by any interleaving of enqueues, polls,
  acknowledgements and maintenance ticks, satisfies the invariant: no tag is both pending and in
  flight or queued twice, every TTL and every pending retry has its timer, all tags were issued.\<close>
theorem poll_reachable_inv:
  "poll_step\<^sup>*\<^sup>* (queue_new dq cap) q \<Longrightarrow> poll_inv q"
  by (induction rule: rtranclp_induct) (auto intro: poll_step_inv)

theorem poll_reachable_inv_witness:
  "poll_inv (snd (dequeue 3 5 (enqueue 1 [8] AtLeastOnce (Some 4) (Some 9) (queue_new AtLeastOnce 2))))"
proof (rule poll_reachable_inv [of AtLeastOnce 2])
  let ?q = "enqueue 1 [8] AtLeastOnce (Some 4) (Some 9) (queue_new AtLeastOnce 2)"
  have "poll_step (queue_new AtLeastOnce 2) ?q"
    by (rule step_enqueue) (simp add: queue_new_def)
  moreover have "poll_step ?q (snd (dequeue 3 5 ?q))" by (rule step_dequeue)
  ultimately show "poll_step\<^sup>*\<^sup>* (queue_new AtLeastOnce 2) (snd (dequeue 3 5 ?q))"
    by (meson r_into_rtranclp rtranclp_trans)
qed

text \<open>C14: Maintenance conserves messages: what was pending or in flight before a tick is, as a
  multiset of payloads, what is pending or in flight after it together with what it reports as
  dropped; nothing is lost silently and nothing is duplicated.\<close>
theorem maintenance_conserves:
  assumes "queue_inv q"
  shows "payloads (pending_entries q) + payloads (inflight q) =
    payloads (pending_entries (snd (queue_maintenance_tick now mr q))) +
    payloads (inflight (snd (queue_maintenance_tick now mr q))) +
    mset (map fst (fst (queue_maintenance_tick now mr q)))"
proof -
  obtain xh pe infl dr where x: "expire_loop now (expiration_heap q) (pending_entries q) (inflight q) []
      = (xh, pe, infl, dr)" and core: "core_inv pe infl (pending q) xh"
    using maintenance_loops [OF assms] by metis
  obtain rh pend pe' infl' dr' where r: "retry_loop now mr (retry_heap q) (pending q) pe infl dr
      = (rh, pend, pe', infl', dr')" by (metis prod_cases5)
  have "hm_ok (pending_entries q)" "hm_ok (inflight q)" "sorted (retry_heap q)"
    using assms by (auto simp: queue_inv_def dest: entries_ok_hm)
  with expire_loop_payloads [OF _ _ x] retry_loop_core [OF core _ r] show ?thesis
    by (simp add: queue_maintenance_tick_def x r)
qed

theorem maintenance_conserves_witness:
  "add_mset [8] {#} = mset (map fst (fst (queue_maintenance_tick 20 3
     (enqueue 1 [8] AtMostOnce None (Some 9) (queue_new AtMostOnce 2)))))"
proof -
  let ?q = "enqueue 1 [8] AtMostOnce None (Some 9) (queue_new AtMostOnce 2)"
  have "poll_inv ?q" by (rule poll_inv_enqueue_new)
  then have "queue_inv ?q" by (simp add: poll_inv_def)
  from maintenance_conserves [OF this, of 20 3] show ?thesis
    by (simp add: enqueue_def queue_new_def push_expiration_def queue_maintenance_tick_def payloads_def
        expires_with_def)
qed


text \<open>C15: TTL expiry is complete and precise: after a tick no message whose TTL has run out is left
  in the queue, a pending message whose TTL has not run out is still pending, and a delivery in
  flight that is neither expired nor due for retry is still in flight.\<close>
theorem ttl_expiry_complete:
  assumes "poll_inv q"
  shows "let q' = snd (queue_maintenance_tick now mr q) in
    (\<forall>t e. hm_get (pending_entries q') t = Some e \<or> hm_get (inflight q') t = Some e \<longrightarrow> \<not> expired now e) \<and>
    (\<forall>t e. hm_get (pending_entries q) t = Some e \<and> \<not> expired now e \<longrightarrow>
       hm_get (pending_entries q') t = Some e) \<and>
    (\<forall>t e. hm_get (inflight q) t = Some e \<and> \<not> expired now e \<and> now < qe_next_delivery_at e \<longrightarrow>
       hm_get (inflight q') t = Some e)"
proof -
  have "live now (hm_get (inflight q) t) = None" if "hm_get (pending_entries q) t = Some e" for t e
  proof -
    have "t \<notin> hm_keys (inflight q)"
      using assms hm_get_Some_key [OF that] unfolding poll_inv_def queue_inv_def by blast
    then have "hm_get (inflight q) t = None" by (simp only: hm_get_None_iff not_False_eq_True)
    then show ?thesis by simp
  qed
  moreover have "expired now (e\<lparr>qe_next_delivery_at := n\<rparr>) = expired now e" for e n
    by (cases e) (simp add: expired_def split: option.splits)
  ultimately show ?thesis
    unfolding Let_def maintenance_spec(1,2) [OF assms]
    by (auto simp: inflight_after_def pending_after_def live_Some simp del: map_of_eq_Some_iff
        split: option.splits if_splits)
qed

theorem ttl_expiry_complete_witness:
  "hm_get (pending_entries (snd (queue_maintenance_tick 5 3
     (enqueue 1 [8] AtMostOnce None (Some 9) (queue_new AtMostOnce 2))))) 1 =
   hm_get (pending_entries (enqueue 1 [8] AtMostOnce None (Some 9) (queue_new AtMostOnce 2))) 1"
proof -
  let ?q = "enqueue 1 [8] AtMostOnce None (Some 9) (queue_new AtMostOnce 2)"
  have "poll_inv ?q" by (rule poll_inv_enqueue_new)
  note c = ttl_expiry_complete [OF this, of 5 3, unfolded Let_def, THEN conjunct2, THEN conjunct1]
  have "\<exists>e. hm_get (pending_entries ?q) 1 = Some e \<and> \<not> expired 5 e"
    by (simp add: enqueue_def queue_new_def expired_def Let_def)
  with c show ?thesis by (metis (no_types, lifting))
qed

text \<open>C16: At-least-once by polling: a delivery in flight that was not acknowledged, whose retry is
  due and whose TTL has not run out, is queued for delivery again by the next tick while it has
  attempts left, and is removed from the queue once they are used up.\<close>
theorem unacked_redelivered:
  assumes "poll_inv q" and "hm_get (inflight q) t = Some e"
    and "qe_next_delivery_at e \<le> now" and "\<not> expired now e"
  shows "let q' = snd (queue_maintenance_tick now mr q) in
    t \<notin> hm_keys (inflight q') \<and>
    (if qe_delivery_attempts e < mr
     then hm_get (pending_entries q') t = Some (e\<lparr>qe_next_delivery_at := now\<rparr>) \<and>
       qe_payload e \<in> set (queued q')
     else t \<notin> hm_keys (pending_entries q'))"
proof -
  let ?q' = "snd (queue_maintenance_tick now mr q)"
  have "t \<notin> hm_keys (pending_entries q)"
    using assms(1) hm_get_Some_key [OF assms(2)] unfolding poll_inv_def queue_inv_def by blast
  then have n: "hm_get (pending_entries q) t = None"
    by (simp only: hm_get_None_iff not_False_eq_True)
  have i: "hm_get (inflight ?q') t = None"
    using assms(2-4) by (simp add: maintenance_spec(1) [OF assms(1)] inflight_after_def)
  have p: "hm_get (pending_entries ?q') t =
      (if qe_delivery_attempts e < mr then Some (e\<lparr>qe_next_delivery_at := now\<rparr>) else None)"
    using assms(2-4) n by (simp add: maintenance_spec(2) [OF assms(1)] pending_after_def)
  have "qe_payload e \<in> set (queued ?q')" if "qe_delivery_attempts e < mr"
  proof -
    have g: "hm_get (pending_entries ?q') t = Some (e\<lparr>qe_next_delivery_at := now\<rparr>)"
      using p that by simp
    have "t \<in> set (pending ?q')"
      using hm_get_Some_key [OF g] poll_inv_parts(3) [OF maintenance_spec(3) [OF assms(1)]] by blast
    then have "e\<lparr>qe_next_delivery_at := now\<rparr> \<in> set (live_pending (pending ?q') (pending_entries ?q'))"
      using g by (force simp: live_pending_def List.map_filter_def)
    then show ?thesis
      unfolding queued_def by (metis (no_types, lifting) image_eqI list.set_map
          queue_entry.select_convs(2) queue_entry.surjective queue_entry.update_convs(8))
  qed
  then show ?thesis
    using i p by (simp add: Let_def hm_get_None_iff [symmetric])
qed

theorem unacked_redelivered_witness:
  "\<exists>q. [8] \<in> set (queued (snd (queue_maintenance_tick 50 3 q))) \<and> queued q = []"
proof -
  let ?q0 = "enqueue 4 [8] AtLeastOnce None None (queue_new AtLeastOnce 2)"
  let ?q = "snd (dequeue 5 5 ?q0)"
  have inv: "poll_inv ?q" by (intro dequeue_poll_inv poll_inv_enqueue_new)
  let ?e = "\<lparr>qe_tag = 1, qe_payload = [8], qe_qos = AtLeastOnce, qe_wal_id = None, qe_created_at = 4,
    qe_ttl = None, qe_delivery_attempts = 1, qe_next_delivery_at = 10\<rparr>"
  have i: "inflight ?q = [(1, ?e)]" and p: "pending ?q = []"
    by (simp_all add: dequeue_def enqueue_def queue_new_def Let_def
        saturating_add_u32_def backoff_def saturating_sub_u32_def duration_checked_mul_def)
  have g: "hm_get (inflight ?q) 1 = Some ?e" by (simp add: i)
  from unacked_redelivered [OF inv g, of 50 3]
  have "[8] \<in> set (queued (snd (queue_maintenance_tick 50 3 ?q)))"
    by (simp add: Let_def expired_def)
  moreover have "queued ?q = []" by (simp add: queued_def p)
  ultimately show ?thesis by blast
qed

text \<open>C17: An acknowledged delivery is gone for good: the acknowledgement returns its WAL id, and in
  no state the queue reaches afterwards is its tag pending or in flight again.\<close>
theorem acked_never_redelivered:
  assumes "poll_inv q" and "hm_get (inflight q) t = Some e"
    and "poll_step\<^sup>*\<^sup>* (snd (queue_ack t q)) q'"
  shows "fst (queue_ack t q) = Some (qe_wal_id e) \<and> t \<notin> set (pending q') \<and> t \<notin> hm_keys (inflight q')"
proof -
  have k: "t \<in> hm_keys (inflight q)" using assms(2) by (rule hm_get_Some_key)
  then have "t < next_tag q" using poll_invD(1) [OF assms(1)] by blast
  moreover have "t \<notin> set (pending q)"
    using k assms(1) unfolding poll_inv_def queue_inv_def by blast
  ultimately have "retired t (snd (queue_ack t q))"
    by (simp add: retired_def queue_ack_def)
  from retired_steps [OF assms(3) ack_poll_inv [OF assms(1)] this]
  show ?thesis using assms(2) by (simp add: retired_def queue_ack_def)
qed

theorem acked_never_redelivered_witness:
  "fst (queue_ack 1 (snd (dequeue 2 5 (enqueue 1 [8] AtLeastOnce (Some 6) None (queue_new AtLeastOnce 2)))))
   = Some (Some 6)"
proof -
  let ?q = "snd (dequeue 2 5 (enqueue 1 [8] AtLeastOnce (Some 6) None (queue_new AtLeastOnce 2)))"
  have inv: "poll_inv ?q" by (intro dequeue_poll_inv poll_inv_enqueue_new)
  obtain e where e: "hm_get (inflight ?q) 1 = Some e" "qe_wal_id e = Some 6"
    by (simp add: dequeue_def enqueue_def queue_new_def Let_def)
  show ?thesis
    using acked_never_redelivered [OF inv e(1) rtranclp.rtrancl_refl] e(2) by simp
qed

text \<open>C25: The retry delay of the n-th attempt is the base delay doubled n - 1 times, at most 31
  times, and the base delay itself when that product does not fit a \<open>Duration\<close>; no doubling wraps.\<close>
theorem backoff_closed_form:
  "backoff base attempts =
     (let d = base * 2 ^ min (unat attempts - 1) 31
      in if d < 2 ^ 64 * 1000000000 then d else base)"
proof -
  let ?s = "min (saturating_sub_u32 attempts 1) 31"
  have "unat (saturating_sub_u32 attempts 1) = unat attempts - 1"
    by (cases "attempts = 0") (auto simp: saturating_sub_u32_def unat_sub word_le_nat_alt
        unat_eq_zero Suc_le_eq unat_gt_0)
  then have s: "unat ?s = min (unat attempts - 1) 31"
    by (auto simp: min_def word_le_nat_alt)
  have "(2 :: nat) ^ unat ?s \<le> 2 ^ 31" unfolding s by (intro power_increasing) auto
  then have "unat (double_times (unat ?s) 1) = 2 ^ unat ?s"
    using double_times_power [of 1 "unat ?s"] by simp
  then show ?thesis
    by (simp add: backoff_def Let_def duration_checked_mul_def s)
qed



end
