(* ===== verification/Spec2Isabelle.thy ===== *)
theory Spec2Isabelle
  imports Frame Wal_Props Broker_Claims Recovery_Props SubQueue_Props
begin

text \<open>
  A verification library for BlipMQ, a message broker written in Rust.

  Parts of the program and how they interact. A client connects over TCP
  (\<open>net/src/connection.rs\<close>, \<open>net/src/server.rs\<close>) and speaks a binary protocol
  (\<open>net/src/frame.rs\<close>). Frames of an authenticated connection reach the broker
  (\<open>core/src/lib.rs\<close>), which matches topics against subject patterns, fans a
  message out to subscriber queues and tracks acknowledgements. Durable
  publishes are journalled in a write-ahead log (\<open>wal/src/lib.rs\<close>), from which
  the broker rebuilds its queues after a restart. Configuration, API keys,
  metrics and the daemon's start-up are in \<open>config\<close>, \<open>auth\<close>, \<open>metrics\<close> and
  \<open>blipmqd\<close>.

  Theories.
  \<^item> \<open>Blip_Prelude\<close>: integer widths, byte strings, results with panics, big-endian
    readers and writers, UTF-8 validity, hash maps as association lists.
\<close>

end
